theory Spec2Isabelle
  imports Main
begin

section \<open>Higra hierarchy core: data model\<close>

text \<open>
  A shallow embedding of \<^verbatim>\<open>include/higra/hierarchy/hierarchy_core.hpp\<close>
  (\<^verbatim>\<open>bpt_canonical\<close>, \<^verbatim>\<open>simplify_tree\<close>, \<^verbatim>\<open>quasi_flat_zones_hierarchy\<close>,
  \<^verbatim>\<open>saliency_map\<close>) and of the binary partition tree header with its linkage rules.
  Arrays are lists, indices and sizes are natural numbers, edge weights are an
  arbitrary linearly ordered type \<open>'w\<close> (the template parameter \<^verbatim>\<open>T::value_type\<close>):
  rounding, NaN and integer overflow of a concrete weight type are not part of the model.
\<close>

subsection \<open>Errors\<close>

text \<open>
  \<^item> \<open>InvalidInput\<close>: an \<^verbatim>\<open>hg_assert\<close> on the shape of an argument failed
    (weights of the wrong length, a parent vector that is not a tree).
  \<^item> \<open>AllocationFailure\<close>: an array of \<open>2^64 - 1\<close> elements was requested.
  \<^item> \<open>DisconnectedGraph\<close>: the assertion \<^verbatim>\<open>"Input graph must be connected."\<close> failed.
  \<^item> \<open>NoReturn\<close>: the call does not return normally: a read outside an array
    (undefined in C++) or a \<^verbatim>\<open>find\<close> that never reaches a root.
\<close>

datatype error = InvalidInput | AllocationFailure | DisconnectedGraph | NoReturn

subsection \<open>Graphs\<close>

text \<open>
  Modelled from the spec: \<^verbatim>\<open>higra/graph.hpp\<close> is not part of the sources. A graph has
  vertices \<open>0..<n\<close> and edges with stable ids \<open>0..<m\<close>; the edge with id \<open>e\<close> has the
  endpoints \<open>source\<close> and \<open>target\<close>. Parallel edges and loops are legal.
\<close>

record graph =
  num_vertices :: nat
  edge_list :: "(nat \<times> nat) list"

definition num_edges :: "graph \<Rightarrow> nat" where
  "num_edges g = length (edge_list g)"

definition edge_from_index :: "nat \<Rightarrow> graph \<Rightarrow> nat \<times> nat" where
  "edge_from_index ei g = edge_list g ! ei"

definition source :: "nat \<times> nat \<Rightarrow> nat" where
  "source e = fst e"

definition target :: "nat \<times> nat \<Rightarrow> nat" where
  "target e = snd e"

definition add_edge :: "nat \<times> nat \<Rightarrow> graph \<Rightarrow> graph" where
  "add_edge e g = g\<lparr>edge_list := edge_list g @ [e]\<rparr>"

text \<open>Every endpoint is a vertex.\<close>

definition graph_ok :: "graph \<Rightarrow> bool" where
  "graph_ok g = list_all (\<lambda>e. source e < num_vertices g \<and> target e < num_vertices g) (edge_list g)"

subsection \<open>Union-find\<close>

text \<open>
  Modelled from the spec: \<^verbatim>\<open>higra/structure/unionfind.hpp\<close> is not part of the sources.
  The structure keeps a parent and a rank per element. \<open>find\<close> walks to the root and
  then compresses the whole path; \<open>link\<close> takes two roots, attaches the one of smaller
  rank below the other (on equal ranks the first below the second, whose rank grows) and
  returns the new root.
\<close>

record union_find =
  uf_parent :: "nat list"
  uf_rank :: "nat list"

definition uf_init :: "nat \<Rightarrow> union_find" where
  "uf_init n = \<lparr>uf_parent = [0..<n], uf_rank = replicate n 0\<rparr>"

text \<open>
  The walk from \<open>x\<close> to its root, as the list of the elements met (\<open>x\<close> first, the root
  last). The loop \<^verbatim>\<open>while (parent[i] != i) i = parent[i];\<close> need not end, and reads
  outside the array when \<open>x\<close> is not an element: both are the value \<open>None\<close>.
\<close>

partial_function (option) uf_walk :: "nat list \<Rightarrow> nat \<Rightarrow> nat list option" where
  "uf_walk p x =
     (if x < length p then
        (if p ! x = x then Some [x]
         else Option.bind (uf_walk p (p ! x)) (\<lambda>ys. Some (x # ys)))
      else None)"

declare uf_walk.simps [code]

definition uf_compress :: "nat list \<Rightarrow> nat \<Rightarrow> nat list \<Rightarrow> nat list" where
  "uf_compress path r p = fold (\<lambda>y q. q[y := r]) path p"

definition uf_find :: "union_find \<Rightarrow> nat \<Rightarrow> (nat \<times> union_find) option" where
  "uf_find u x =
     (case uf_walk (uf_parent u) x of
        None \<Rightarrow> None
      | Some path \<Rightarrow>
          Some (last path, u\<lparr>uf_parent := uf_compress path (last path) (uf_parent u)\<rparr>))"

definition uf_link :: "union_find \<Rightarrow> nat \<Rightarrow> nat \<Rightarrow> nat \<times> union_find" where
  "uf_link u i j =
     (if uf_rank u ! j < uf_rank u ! i
      then (i, u\<lparr>uf_parent := (uf_parent u)[j := i]\<rparr>)
      else (j, u\<lparr>uf_parent := (uf_parent u)[i := j],
                 uf_rank := (if uf_rank u ! i = uf_rank u ! j
                             then (uf_rank u)[j := uf_rank u ! j + 1] else uf_rank u)\<rparr>))"

subsection \<open>Trees\<close>

text \<open>
  Modelled from the spec: \<^verbatim>\<open>higra/structure/tree_graph.hpp\<close> is not part of the sources.
  A tree is its parent vector. The constructor validates it: the last node is the root
  and is its own parent, every other node has a parent of strictly greater index.
\<close>

type_synonym tree = "nat list"

definition tree_ok :: "nat list \<Rightarrow> bool" where
  "tree_ok p = (p \<noteq> [] \<and> p ! (length p - 1) = length p - 1 \<and>
     (\<forall>i < length p - 1. i < p ! i \<and> p ! i < length p))"

definition make_tree :: "nat list \<Rightarrow> error + tree" where
  "make_tree p = (if tree_ok p then Inr p else Inl InvalidInput)"

definition root :: "tree \<Rightarrow> nat" where
  "root t = length t - 1"

definition children :: "nat \<Rightarrow> tree \<Rightarrow> nat list" where
  "children i t = filter (\<lambda>c. t ! c = i) [0..<length t - 1]"

definition is_leaf :: "nat \<Rightarrow> tree \<Rightarrow> bool" where
  "is_leaf i t = (children i t = [])"

text \<open>
  The two traversals \<^verbatim>\<open>simplify_tree\<close> uses:
  \<^verbatim>\<open>leaves_to_root_iterator(t, leaves_it::include, root_it::exclude)\<close> and
  \<^verbatim>\<open>root_to_leaves_iterator(t, leaves_it::exclude, root_it::exclude)\<close>.
\<close>

definition leaves_to_root_no_root :: "tree \<Rightarrow> nat list" where
  "leaves_to_root_no_root t = [0..<length t - 1]"

definition root_to_leaves_inner :: "tree \<Rightarrow> nat list" where
  "root_to_leaves_inner t = rev (filter (\<lambda>i. \<not> is_leaf i t) [0..<length t - 1])"

section \<open>The canonical binary partition tree\<close>

record 'w node_weighted_tree_and_mst =
  tree :: tree
  altitudes :: "'w list"
  mst :: graph
  mst_edge_map :: "nat list"

text \<open>
  \<^verbatim>\<open>std::stable_sort\<close> of the edge ids \<open>0..<m\<close> with the comparator
  \<^verbatim>\<open>edge_weights[i] < edge_weights[j]\<close>.
\<close>

definition sorted_edges_indices :: "graph \<Rightarrow> ('w::linorder) list \<Rightarrow> nat list" where
  "sorted_edges_indices g w = sort_key (\<lambda>e. w ! e) [0..<num_edges g]"

text \<open>The local variables of the Kruskal loop.\<close>

record 'w bpt_state =
  st_uf :: union_find
  st_roots :: "nat list"
  st_parents :: "nat list"
  st_levels :: "'w list"
  st_mst :: graph
  st_mst_edge_map :: "nat list"
  st_num_nodes :: nat
  st_num_edge_found :: nat
  st_i :: nat

text \<open>
  The initial state. \<^verbatim>\<open>xt::empty\<close> leaves \<open>mst_edge_map\<close> uninitialised; the model fills
  it with \<open>0\<close>.
\<close>

definition bpt_init :: "graph \<Rightarrow> ('w::{linorder,zero}) bpt_state" where
  "bpt_init g =
     (let num_points = num_vertices g in
      \<lparr>st_uf = uf_init num_points,
       st_roots = [0..<num_points],
       st_parents = [0..<num_points * 2 - 1],
       st_levels = replicate (num_points * 2 - 1) 0,
       st_mst = \<lparr>num_vertices = num_points, edge_list = []\<rparr>,
       st_mst_edge_map = replicate (num_points - 1) 0,
       st_num_nodes = num_points,
       st_num_edge_found = 0,
       st_i = 0\<rparr>)"

text \<open>One iteration of the body of the \<^verbatim>\<open>while\<close> loop.\<close>

definition bpt_step ::
  "graph \<Rightarrow> 'w list \<Rightarrow> nat list \<Rightarrow> 'w bpt_state \<Rightarrow> error + 'w bpt_state" where
  "bpt_step g w se s =
     (let ei = se ! st_i s;
          e = edge_from_index ei g in
      case uf_find (st_uf s) (source e) of
        None \<Rightarrow> Inl NoReturn
      | Some (c1, u1) \<Rightarrow>
         (case uf_find u1 (target e) of
            None \<Rightarrow> Inl NoReturn
          | Some (c2, u2) \<Rightarrow>
              if c1 \<noteq> c2 then
                (let levels1 = (st_levels s)[st_num_nodes s := w ! ei];
                     parents1 = (st_parents s)[st_roots s ! c1 := st_num_nodes s];
                     parents2 = parents1[st_roots s ! c2 := st_num_nodes s];
                     (newRoot, u3) = uf_link u2 c1 c2
                 in Inr (s\<lparr>st_uf := u3,
                           st_roots := (st_roots s)[newRoot := st_num_nodes s],
                           st_parents := parents2,
                           st_levels := levels1,
                           st_mst := add_edge e (st_mst s),
                           st_mst_edge_map := (st_mst_edge_map s)[st_num_edge_found s := ei],
                           st_num_nodes := st_num_nodes s + 1,
                           st_num_edge_found := st_num_edge_found s + 1,
                           st_i := st_i s + 1\<rparr>))
              else Inr (s\<lparr>st_uf := u2, st_i := st_i s + 1\<rparr>)))"

lemma bpt_step_i: "bpt_step g w se s = Inr s' \<Longrightarrow> st_i s' = Suc (st_i s)"
  by (auto simp: bpt_step_def Let_def split: option.splits if_splits prod.splits)

function bpt_loop ::
  "graph \<Rightarrow> 'w list \<Rightarrow> nat list \<Rightarrow> nat \<Rightarrow> 'w bpt_state \<Rightarrow> error + 'w bpt_state" where
  "bpt_loop g w se num_edge_mst s =
     (if st_num_edge_found s < num_edge_mst \<and> st_i s < length se then
        (case bpt_step g w se s of
           Inl err \<Rightarrow> Inl err
         | Inr s' \<Rightarrow> bpt_loop g w se num_edge_mst s')
      else Inr s)"
  by pat_completeness auto
termination
  by (relation "measure (\<lambda>(g, w, se, k, s). length se - st_i s)")
     (auto dest: bpt_step_i)

text \<open>
  \<^verbatim>\<open>bpt_canonical\<close>. The sizes are \<^verbatim>\<open>size_t\<close>: on a graph without vertices
  \<^verbatim>\<open>num_points - 1\<close> wraps around to \<open>2^64 - 1\<close> and the allocation of \<open>mst_edge_map\<close>
  fails; everywhere else the sizes are far from the wrap-around.
\<close>

definition bpt_canonical ::
  "graph \<Rightarrow> ('w::{linorder,zero}) list \<Rightarrow> error + 'w node_weighted_tree_and_mst" where
  "bpt_canonical g edge_weights =
     (if length edge_weights \<noteq> num_edges g then Inl InvalidInput
      else if num_vertices g = 0 then Inl AllocationFailure
      else
        (let sorted = sorted_edges_indices g edge_weights;
             num_edge_mst = num_vertices g - 1 in
         case bpt_loop g edge_weights sorted num_edge_mst (bpt_init g) of
           Inl err \<Rightarrow> Inl err
         | Inr s \<Rightarrow>
             if st_num_edge_found s \<noteq> num_edge_mst then Inl DisconnectedGraph
             else
               (case make_tree (st_parents s) of
                  Inl err \<Rightarrow> Inl err
                | Inr t \<Rightarrow>
                    Inr \<lparr>tree = t, altitudes = st_levels s, mst = st_mst s,
                         mst_edge_map = st_mst_edge_map s\<rparr>)))"

section \<open>Tree simplification\<close>

record remapped_tree =
  rm_tree :: tree
  node_map :: "nat list"

text \<open>
  The first loop of \<^verbatim>\<open>simplify_tree\<close>, from the root to the leaves: the state is
  \<open>(copy_parent, count, deleted_map)\<close>.
\<close>

definition simplify_down_step ::
  "tree \<Rightarrow> (nat \<Rightarrow> bool) \<Rightarrow> nat \<Rightarrow> nat list \<times> nat \<times> nat list \<Rightarrow> nat list \<times> nat \<times> nat list" where
  "simplify_down_step t criterion i st =
     (case st of (copy_parent, count, deleted_map) \<Rightarrow>
        (let parent = copy_parent ! i in
         if criterion i
         then (fold (\<lambda>c cp. cp[c := parent]) (children i t) copy_parent,
               count + 1, deleted_map[i := count + 1])
         else (copy_parent, count, deleted_map[i := count])))"

text \<open>
  The second loop, from the leaves to the root: the state is
  \<open>(new_parent, node_map, count)\<close>.
\<close>

definition simplify_up_step ::
  "tree \<Rightarrow> (nat \<Rightarrow> bool) \<Rightarrow> nat list \<Rightarrow> nat list \<Rightarrow> nat \<Rightarrow>
   nat list \<times> nat list \<times> nat \<Rightarrow> nat list \<times> nat list \<times> nat" where
  "simplify_up_step t criterion copy_parent deleted_map i st =
     (case st of (new_parent, nmap, count) \<Rightarrow>
        if is_leaf i t \<or> \<not> criterion i then
          (let par = copy_parent ! i;
               new_par = par - deleted_map ! par
           in (new_parent[count := new_par], nmap[count := i], count + 1))
        else (new_parent, nmap, count))"

definition simplify_tree :: "tree \<Rightarrow> (nat \<Rightarrow> bool) \<Rightarrow> error + remapped_tree" where
  "simplify_tree t criterion =
     (let n_nodes = length t;
          (copy_parent, count, deleted_map0) =
             fold (simplify_down_step t criterion) (root_to_leaves_inner t)
               (t, 0, replicate n_nodes 0);
          deleted_map = map (\<lambda>d. count - d) deleted_map0;
          (new_parent, nmap, count2) =
             fold (simplify_up_step t criterion copy_parent deleted_map)
               (leaves_to_root_no_root t)
               ([0..<n_nodes - count], replicate (n_nodes - count) 0, 0);
          nmap2 = nmap[length nmap - 1 := root t]
      in case make_tree new_parent of
           Inl err \<Rightarrow> Inl err
         | Inr t' \<Rightarrow> Inr \<lparr>rm_tree = t', node_map = nmap2\<rparr>)"

section \<open>Quasi-flat zones hierarchy\<close>

record 'w node_weighted_tree =
  nw_tree :: tree
  nw_altitudes :: "'w list"

text \<open>
  Modelled from the spec: \<^verbatim>\<open>propagate_parallel\<close> of
  \<^verbatim>\<open>higra/accumulator/tree_accumulator.hpp\<close> is not part of the sources; it gives every
  node the value of its parent.
\<close>

definition propagate_parallel :: "tree \<Rightarrow> 'a list \<Rightarrow> 'a list" where
  "propagate_parallel t a = map (\<lambda>v. a ! (t ! v)) [0..<length t]"

definition quasi_flat_zones_hierarchy ::
  "graph \<Rightarrow> ('w::{linorder,zero}) list \<Rightarrow> error + 'w node_weighted_tree" where
  "quasi_flat_zones_hierarchy g edge_weights =
     (if length edge_weights \<noteq> num_edges g then Inl InvalidInput
      else
        case bpt_canonical g edge_weights of
          Inl err \<Rightarrow> Inl err
        | Inr bpt \<Rightarrow>
            (let altitude_parents = propagate_parallel (tree bpt) (altitudes bpt) in
             case simplify_tree (tree bpt) (\<lambda>i. altitudes bpt ! i = altitude_parents ! i) of
               Inl err \<Rightarrow> Inl err
             | Inr qfz \<Rightarrow>
                 Inr \<lparr>nw_tree = rm_tree qfz,
                      nw_altitudes = map (\<lambda>i. altitudes bpt ! i) (node_map qfz)\<rparr>))"

section \<open>Saliency map\<close>

text \<open>
  Modelled from the spec: \<^verbatim>\<open>higra/structure/lca_fast.hpp\<close> is not part of the sources.
  The lowest common ancestor of two nodes is the first node on the walk from the one to
  the root that is also on the walk from the other to the root. A query for something
  that is not a node of the tree reads outside the index: the value \<open>None\<close>.
\<close>

function ancestors :: "tree \<Rightarrow> nat \<Rightarrow> nat list" where
  "ancestors t v =
     (if v < t ! v \<and> t ! v < length t then v # ancestors t (t ! v) else [v])"
  by pat_completeness auto
termination
  by (relation "measure (\<lambda>(t, v). length t - v)") auto

declare ancestors.simps [simp del]

definition lca :: "tree \<Rightarrow> nat \<Rightarrow> nat \<Rightarrow> nat option" where
  "lca t u v =
     (if u < length t \<and> v < length t
      then List.find (\<lambda>a. a \<in> set (ancestors t v)) (ancestors t u)
      else None)"

definition saliency_map :: "graph \<Rightarrow> tree \<Rightarrow> 'w list \<Rightarrow> error + 'w list" where
  "saliency_map g t alts =
     (let lca_edges = map (\<lambda>e. lca t (source e) (target e)) (edge_list g) in
      if list_all (\<lambda>a. case a of None \<Rightarrow> False | Some x \<Rightarrow> x < length alts) lca_edges
      then Inr (map (\<lambda>a. alts ! the a) lca_edges)
      else Inl NoReturn)"

section \<open>Linkage rules of the binary partition tree\<close>

text \<open>
  The descriptor \<^verbatim>\<open>new_neighbour\<close>. The constant \<^verbatim>\<open>invalid_index\<close> is \<open>None\<close>; the
  weight is not initialised by the constructor, which is \<open>None\<close> too.
\<close>

record 'w new_neighbour =
  neighbour_vertex :: nat
  first_edge_index :: nat
  second_edge_index :: "nat option"
  new_edge_weight :: "'w option"

definition make_new_neighbour :: "nat \<Rightarrow> nat \<Rightarrow> 'w new_neighbour" where
  "make_new_neighbour n e =
     \<lparr>neighbour_vertex = n, first_edge_index = e, second_edge_index = None,
      new_edge_weight = None\<rparr>"

definition nn_num_edges :: "'w new_neighbour \<Rightarrow> nat" where
  "nn_num_edges n = (if second_edge_index n = None then 1 else 2)"

definition new_edge_index :: "'w new_neighbour \<Rightarrow> nat" where
  "new_edge_index n = first_edge_index n"

text \<open>
  \<^verbatim>\<open>binary_partition_tree_average_linkage\<close>. The members \<^verbatim>\<open>m_values\<close> and \<^verbatim>\<open>m_weights\<close>
  have the type \<^verbatim>\<open>T\<close> of the rule: arrays of its own when \<^verbatim>\<open>T\<close> is an array type, references
  to the arrays of the caller when the rule is built from lvalues, and then the two may be
  one and the same array. The arrays are kept in a store, and the two members are the
  addresses of their arrays. The sum and the product are those of the value type and are
  not interpreted. The division of the value type is the parameter \<open>division\<close>: it is \<open>None\<close>
  where the division does not return, as the division of an integer by zero. An edge index
  outside a vector is a read outside an array.
\<close>

record 'w average_linkage =
  m_values :: nat
  m_weights :: nat
  arrays :: "nat \<Rightarrow> 'w list"

text \<open>The constructor, with its assertion \<^verbatim>\<open>hg_assert_same_shape\<close>; a rule that copies its
  arguments is a rule on two different addresses.\<close>

definition binary_partition_tree_average_linkage ::
  "(nat \<Rightarrow> 'w list) \<Rightarrow> nat \<Rightarrow> nat \<Rightarrow> error + 'w average_linkage" where
  "binary_partition_tree_average_linkage store values weights =
     (if length (store values) \<noteq> length (store weights) then Inl InvalidInput
      else Inr \<lparr>m_values = values, m_weights = weights, arrays = store\<rparr>)"

text \<open>The assignment \<^verbatim>\<open>a[i] = x\<close> to the array at the address \<open>a\<close>.\<close>

definition assign :: "nat \<Rightarrow> nat \<Rightarrow> 'w \<Rightarrow> (nat \<Rightarrow> 'w list) \<Rightarrow> (nat \<Rightarrow> 'w list)" where
  "assign a i x store = store(a := (store a)[i := x])"

text \<open>The division of the integers of C++: it does not return on a zero divisor, and
  rounds towards zero.\<close>

definition int_divide :: "int \<Rightarrow> int \<Rightarrow> int option" where
  "int_divide a b = (if b = 0 then None else Some (sgn a * sgn b * (\<bar>a\<bar> div \<bar>b\<bar>)))"

text \<open>The body of the loop, for one descriptor: the two reads of the mass and of the
  value, then the three assignments, in the order of the source.\<close>

definition average_linkage_step ::
  "('w \<Rightarrow> 'w \<Rightarrow> 'w option) \<Rightarrow> ('w::{plus,times}) average_linkage \<Rightarrow> 'w new_neighbour \<Rightarrow>
   error + ('w average_linkage \<times> 'w new_neighbour)" where
  "average_linkage_step division r n =
     (let e1 = first_edge_index n;
          vals = arrays r (m_values r);
          wts = arrays r (m_weights r)
      in
      if \<not> (e1 < length vals \<and> e1 < length wts) then Inl NoReturn
      else if 1 < nn_num_edges n then
        (let e2 = the (second_edge_index n) in
         if \<not> (e2 < length vals \<and> e2 < length wts) then Inl NoReturn
         else
           (let new_weight = wts ! e1 + wts ! e2 in
            case division (vals ! e1 * wts ! e1 + vals ! e2 * wts ! e2) new_weight of
              None \<Rightarrow> Inl NoReturn
            | Some new_value \<Rightarrow>
                Inr (r\<lparr>arrays := assign (m_weights r) (new_edge_index n) new_weight
                                   (assign (m_values r) (new_edge_index n) new_value (arrays r))\<rparr>,
                     n\<lparr>new_edge_weight := Some new_value\<rparr>)))
      else
        (let new_weight = wts ! e1;
             new_value = vals ! e1
         in Inr (r\<lparr>arrays := assign (m_weights r) (new_edge_index n) new_weight
                                (assign (m_values r) (new_edge_index n) new_value (arrays r))\<rparr>,
                 n\<lparr>new_edge_weight := Some new_value\<rparr>)))"

text \<open>
  The call operator: the loop over the descriptors. The graph, the fusion edge and the
  three regions are arguments the rule does not read.
\<close>

fun average_linkage_loop ::
  "('w \<Rightarrow> 'w \<Rightarrow> 'w option) \<Rightarrow> ('w::{plus,times}) average_linkage \<Rightarrow> 'w new_neighbour list \<Rightarrow>
   error + ('w average_linkage \<times> 'w new_neighbour list)" where
  "average_linkage_loop division r [] = Inr (r, [])"
| "average_linkage_loop division r (n # ns) =
     (case average_linkage_step division r n of
        Inl err \<Rightarrow> Inl err
      | Inr (r1, n1) \<Rightarrow>
          (case average_linkage_loop division r1 ns of
             Inl err \<Rightarrow> Inl err
           | Inr (r2, ns1) \<Rightarrow> Inr (r2, n1 # ns1)))"

definition average_linkage_call ::
  "('w \<Rightarrow> 'w \<Rightarrow> 'w option) \<Rightarrow> ('w::{plus,times}) average_linkage \<Rightarrow> graph \<Rightarrow> nat \<Rightarrow> nat \<Rightarrow>
   nat \<Rightarrow> nat \<Rightarrow> 'w new_neighbour list \<Rightarrow> error + ('w average_linkage \<times> 'w new_neighbour list)" where
  "average_linkage_call division r g fusion_edge_index new_region merged_region1 merged_region2
     new_neighbours = average_linkage_loop division r new_neighbours"

section \<open>Properties of the average linkage rule\<close>

text \<open>The mass and the value the rule computes for a descriptor, from the arrays of the
  rule: the value is \<open>None\<close> when the division does not return.\<close>

definition new_mass :: "('w::{plus,times}) average_linkage \<Rightarrow> 'w new_neighbour \<Rightarrow> 'w" where
  "new_mass r n =
     (let m = arrays r (m_weights r); e1 = first_edge_index n in
      case second_edge_index n of
        Some e2 \<Rightarrow> m ! e1 + m ! e2
      | None \<Rightarrow> m ! e1)"

definition new_val ::
  "('w \<Rightarrow> 'w \<Rightarrow> 'w option) \<Rightarrow> ('w::{plus,times}) average_linkage \<Rightarrow> 'w new_neighbour \<Rightarrow>
   'w option" where
  "new_val division r n =
     (let v = arrays r (m_values r); m = arrays r (m_weights r); e1 = first_edge_index n in
      case second_edge_index n of
        Some e2 \<Rightarrow> division (v ! e1 * m ! e1 + v ! e2 * m ! e2) (m ! e1 + m ! e2)
      | None \<Rightarrow> Some (v ! e1))"

text \<open>The edges of a descriptor are inside the two arrays of the rule.\<close>

definition in_range :: "'w average_linkage \<Rightarrow> 'w new_neighbour \<Rightarrow> bool" where
  "in_range r n =
     (first_edge_index n < length (arrays r (m_values r)) \<and>
      first_edge_index n < length (arrays r (m_weights r)) \<and>
      (case second_edge_index n of
         Some e2 \<Rightarrow> e2 < length (arrays r (m_values r)) \<and> e2 < length (arrays r (m_weights r))
       | None \<Rightarrow> True))"

text \<open>The state of the rule after the two assignments to its arrays.\<close>

definition written :: "'w average_linkage \<Rightarrow> nat \<Rightarrow> 'w \<Rightarrow> 'w \<Rightarrow> 'w average_linkage" where
  "written r e1 v' m' =
     r\<lparr>arrays := assign (m_weights r) e1 m' (assign (m_values r) e1 v' (arrays r))\<rparr>"

lemma average_linkage_step_eq:
  "average_linkage_step division r n =
     (if in_range r n then
        (case new_val division r n of
           None \<Rightarrow> Inl NoReturn
         | Some v' \<Rightarrow> Inr (written r (first_edge_index n) v' (new_mass r n),
                          n\<lparr>new_edge_weight := Some v'\<rparr>))
      else Inl NoReturn)"
  by (cases "second_edge_index n")
     (auto simp: average_linkage_step_def in_range_def new_val_def new_mass_def written_def
        nn_num_edges_def new_edge_index_def Let_def split: option.splits)

lemma written_fields:
  "m_values (written r e v' m') = m_values r"
  "m_weights (written r e v' m') = m_weights r"
  "length (arrays (written r e v' m') a) = length (arrays r a)"
  by (simp_all add: written_def assign_def)

lemma written_nth:
  "arrays (written r e v' m') a ! i =
     (if a = m_weights r \<and> i = e \<and> i < length (arrays r a) then m'
      else if a = m_values r \<and> i = e \<and> i < length (arrays r a) then v'
      else arrays r a ! i)"
  by (auto simp: written_def assign_def nth_list_update list_update_beyond not_less)

lemma in_range_written: "in_range (written r e v' m') n = in_range r n"
  by (cases "second_edge_index n") (simp_all add: in_range_def written_fields)

lemma average_linkage_loop_append:
  "average_linkage_loop division r (xs @ ys) =
     (case average_linkage_loop division r xs of
        Inl err \<Rightarrow> Inl err
      | Inr (r1, o1) \<Rightarrow>
          (case average_linkage_loop division r1 ys of
             Inl err \<Rightarrow> Inl err
           | Inr (r2, o2) \<Rightarrow> Inr (r2, o1 @ o2)))"
  by (induction xs arbitrary: r) (auto split: sum.splits prod.splits)

lemma average_linkage_loop_length:
  "average_linkage_loop division r ns = Inr (r', out) \<Longrightarrow> length out = length ns"
  by (induction ns arbitrary: r out) (auto split: sum.splits prod.splits)

lemma average_linkage_loop_error:
  "average_linkage_loop division r ns = Inl err \<Longrightarrow> err = NoReturn"
  by (induction ns arbitrary: r)
     (auto simp: average_linkage_step_eq split: sum.splits prod.splits option.splits if_splits)

text \<open>The loop keeps the addresses and the sizes of the arrays, and an entry that is the
  first edge of no descriptor.\<close>

lemma average_linkage_loop_frame:
  "average_linkage_loop division r ns = Inr (r', out) \<Longrightarrow>
     m_values r' = m_values r \<and> m_weights r' = m_weights r \<and>
     (\<forall>a. length (arrays r' a) = length (arrays r a)) \<and>
     (\<forall>a e. (\<forall>n \<in> set ns. first_edge_index n \<noteq> e) \<longrightarrow> arrays r' a ! e = arrays r a ! e)"
proof (induction ns arbitrary: r out)
  case Nil
  then show ?case by simp
next
  case (Cons n ns)
  from Cons.prems obtain v' out2 where
    v': "new_val division r n = Some v'" and
    rest: "average_linkage_loop division (written r (first_edge_index n) v' (new_mass r n)) ns
             = Inr (r', out2)"
    by (auto simp: average_linkage_step_eq split: sum.splits prod.splits option.splits if_splits)
  from Cons.IH[OF rest] show ?case
    by (simp add: written_fields written_nth)
qed

text \<open>With edges inside the arrays and a division that always returns, the loop returns.\<close>

lemma average_linkage_loop_total:
  assumes "\<forall>a b. division a b \<noteq> None"
  shows "\<forall>n \<in> set ns. in_range r n \<Longrightarrow> \<exists>r' out. average_linkage_loop division r ns = Inr (r', out)"
proof (induction ns arbitrary: r)
  case Nil
  then show ?case by simp
next
  case (Cons n ns)
  have "new_val division r n \<noteq> None"
    using assms by (simp add: new_val_def Let_def split: option.splits)
  then obtain v' where v': "new_val division r n = Some v'" by blast
  let ?r1 = "written r (first_edge_index n) v' (new_mass r n)"
  have "\<forall>d \<in> set ns. in_range ?r1 d" using Cons.prems by (simp add: in_range_written)
  from Cons.IH[OF this] obtain r' out where
    "average_linkage_loop division ?r1 ns = Inr (r', out)" by blast
  with v' Cons.prems show ?case by (simp add: average_linkage_step_eq)
qed

text \<open>
  Claim C9. The call of the average linkage rule on the descriptors \<open>ns\<close>, on the arrays
  \<open>v\<close> (values) and \<open>m\<close> (masses) of the rule.
  \<^item> It returns when every edge of a descriptor is inside the two arrays and the division
    of the value type always returns.
  \<^item> It does not return when a descriptor is reached whose edge is outside an array, or
    for which the division does not return.
  \<^item> When it returns, the descriptor \<open>n\<close> at any position \<open>k\<close> was processed on the arrays as
    the call on the descriptors before it leaves them: the rule computes
    \<open>m' = m[e1] + m[e2]\<close> and \<open>v' = (v[e1] * m[e1] + v[e2] * m[e2]) / m'\<close> when \<open>n\<close> has two
    edges, \<open>m' = m[e1]\<close> and \<open>v' = v[e1]\<close> when it has one; it sets the weight of \<open>n\<close> to \<open>v'\<close>
    and assigns \<open>v'\<close> to \<open>v[e1]\<close>, then \<open>m'\<close> to \<open>m[e1]\<close>; the call on the remaining
    descriptors, from the arrays so written, gives the arrays and the remaining
    descriptors of the whole call. After the two assignments \<open>m[e1]\<close> is \<open>m'\<close>, and when the
    two arrays are not one array they are \<open>v[e1 := v']\<close> and \<open>m[e1 := m']\<close>; when \<open>e1\<close> is the
    first edge of no later descriptor the same entries are in the arrays that the call
    returns.
\<close>

theorem average_linkage_rule:
  fixes r :: "('w::{plus,times}) average_linkage"
  shows
   "((\<forall>n \<in> set ns. in_range r n) \<and> (\<forall>a b. division a b \<noteq> None) \<longrightarrow>
       (\<exists>r' out. average_linkage_call division r g fusion_edge_index new_region merged_region1
                    merged_region2 ns = Inr (r', out))) \<and>
    (j < length ns \<and>
     average_linkage_call division r g fusion_edge_index new_region merged_region1 merged_region2
       (take j ns) = Inr (rj, prj) \<and>
     (\<not> in_range rj (ns ! j) \<or> new_val division rj (ns ! j) = None) \<longrightarrow>
       average_linkage_call division r g fusion_edge_index new_region merged_region1 merged_region2
         ns = Inl NoReturn) \<and>
    (k < length ns \<and>
     average_linkage_call division r g fusion_edge_index new_region merged_region1 merged_region2
       ns = Inr (r', out) \<longrightarrow>
       (\<exists>rk pre v'.
          average_linkage_call division r g fusion_edge_index new_region merged_region1
            merged_region2 (take k ns) = Inr (rk, pre) \<and>
          m_values rk = m_values r \<and> m_weights rk = m_weights r \<and>
          in_range rk (ns ! k) \<and> new_val division rk (ns ! k) = Some v' \<and>
          (let n = ns ! k; e1 = first_edge_index n; m' = new_mass rk n;
               rw = written rk e1 v' m'
           in out ! k = n\<lparr>new_edge_weight := Some v'\<rparr> \<and>
              average_linkage_call division r g fusion_edge_index new_region merged_region1
                merged_region2 (take (Suc k) ns) = Inr (rw, pre @ [out ! k]) \<and>
              average_linkage_call division rw g fusion_edge_index new_region merged_region1
                merged_region2 (drop (Suc k) ns) = Inr (r', drop (Suc k) out) \<and>
              arrays rw (m_weights r) ! e1 = m' \<and>
              (m_values r \<noteq> m_weights r \<longrightarrow>
                 arrays rw (m_values r) = (arrays rk (m_values r))[e1 := v'] \<and>
                 arrays rw (m_weights r) = (arrays rk (m_weights r))[e1 := m']) \<and>
              ((\<forall>i. k < i \<and> i < length ns \<longrightarrow> first_edge_index (ns ! i) \<noteq> e1) \<longrightarrow>
                 arrays r' (m_weights r) ! e1 = m' \<and>
                 (m_values r \<noteq> m_weights r \<longrightarrow> arrays r' (m_values r) ! e1 = v')))))"
proof (intro conjI impI)
  assume "(\<forall>n \<in> set ns. in_range r n) \<and> (\<forall>a b. division a b \<noteq> None)"
  then show "\<exists>r' out. average_linkage_call division r g fusion_edge_index new_region
      merged_region1 merged_region2 ns = Inr (r', out)"
    unfolding average_linkage_call_def using average_linkage_loop_total[of division ns r] by blast
next
  assume a: "j < length ns \<and>
     average_linkage_call division r g fusion_edge_index new_region merged_region1 merged_region2
       (take j ns) = Inr (rj, prj) \<and>
     (\<not> in_range rj (ns ! j) \<or> new_val division rj (ns ! j) = None)"
  then have split: "ns = take j ns @ ns ! j # drop (Suc j) ns"
    by (simp add: id_take_nth_drop)
  from a have st: "average_linkage_step division rj (ns ! j) = Inl NoReturn"
    by (auto simp: average_linkage_step_eq)
  from a have pre: "average_linkage_loop division r (take j ns) = Inr (rj, prj)"
    by (simp add: average_linkage_call_def)
  have "average_linkage_loop division r (take j ns @ ns ! j # drop (Suc j) ns) = Inl NoReturn"
    unfolding average_linkage_loop_append pre using st by simp
  then show "average_linkage_call division r g fusion_edge_index new_region merged_region1
      merged_region2 ns = Inl NoReturn"
    unfolding average_linkage_call_def using split by simp
next
  assume a: "k < length ns \<and>
     average_linkage_call division r g fusion_edge_index new_region merged_region1 merged_region2
       ns = Inr (r', out)"
  then have k: "k < length ns"
    and call: "average_linkage_loop division r ns = Inr (r', out)"
    by (simp_all add: average_linkage_call_def)
  have split: "ns = take k ns @ ns ! k # drop (Suc k) ns"
    using k by (simp add: id_take_nth_drop)
  from call have "average_linkage_loop division r (take k ns @ ns ! k # drop (Suc k) ns)
      = Inr (r', out)"
    using split by simp
  then obtain rk pre r1 n1 post where
    pre: "average_linkage_loop division r (take k ns) = Inr (rk, pre)" and
    st: "average_linkage_step division rk (ns ! k) = Inr (r1, n1)" and
    post: "average_linkage_loop division r1 (drop (Suc k) ns) = Inr (r', post)" and
    out: "out = pre @ n1 # post"
    by (auto simp: average_linkage_loop_append split: sum.splits prod.splits)
  let ?n = "ns ! k"
  let ?e1 = "first_edge_index ?n"
  let ?m' = "new_mass rk ?n"
  from st obtain v' where ir: "in_range rk ?n" and v': "new_val division rk ?n = Some v'"
    and r1: "r1 = written rk ?e1 v' ?m'" and n1: "n1 = ?n\<lparr>new_edge_weight := Some v'\<rparr>"
    by (auto simp: average_linkage_step_eq split: if_splits option.splits)
  let ?rw = "written rk ?e1 v' ?m'"
  note fk = average_linkage_loop_frame[OF pre]
  from fk have ad: "m_values rk = m_values r" "m_weights rk = m_weights r" by simp_all
  have lp: "length pre = k"
    using average_linkage_loop_length[OF pre] k by simp
  have outk: "out ! k = n1" using out lp by (simp add: nth_append)
  have dout: "drop (Suc k) out = post" using out lp by simp
  have tk: "take (Suc k) ns = take k ns @ [ns ! k]"
    using k by (simp add: take_Suc_conv_app_nth)
  have loopk: "average_linkage_loop division r (take (Suc k) ns) = Inr (?rw, pre @ [n1])"
    unfolding tk average_linkage_loop_append pre using st r1 by simp
  from ir have e1: "?e1 < length (arrays rk (m_values rk))" "?e1 < length (arrays rk (m_weights rk))"
    by (simp_all add: in_range_def)
  have w1: "arrays ?rw (m_weights r) ! ?e1 = ?m'"
    using e1 ad by (simp add: written_nth)
  have w2: "arrays ?rw (m_values r) = (arrays rk (m_values r))[?e1 := v']"
    "arrays ?rw (m_weights r) = (arrays rk (m_weights r))[?e1 := ?m']"
    if "m_values r \<noteq> m_weights r"
    using that ad by (simp_all add: written_def assign_def)
  have w3: "arrays r' (m_weights r) ! ?e1 = ?m' \<and>
      (m_values r \<noteq> m_weights r \<longrightarrow> arrays r' (m_values r) ! ?e1 = v')"
    if later: "\<forall>i. k < i \<and> i < length ns \<longrightarrow> first_edge_index (ns ! i) \<noteq> ?e1"
  proof -
    have "\<forall>n \<in> set (drop (Suc k) ns). first_edge_index n \<noteq> ?e1"
    proof
      fix n assume "n \<in> set (drop (Suc k) ns)"
      then obtain i where "i < length (drop (Suc k) ns)" "drop (Suc k) ns ! i = n"
        by (auto simp: in_set_conv_nth)
      then have "Suc k + i < length ns" "ns ! (Suc k + i) = n" by auto
      with later[rule_format, of "Suc k + i"] show "first_edge_index n \<noteq> ?e1" by auto
    qed
    with average_linkage_loop_frame[OF post[unfolded r1]]
    have "arrays r' a ! ?e1 = arrays ?rw a ! ?e1" for a by blast
    then show ?thesis using e1 ad by (simp add: written_nth)
  qed
  show "\<exists>rk pre v'.
          average_linkage_call division r g fusion_edge_index new_region merged_region1
            merged_region2 (take k ns) = Inr (rk, pre) \<and>
          m_values rk = m_values r \<and> m_weights rk = m_weights r \<and>
          in_range rk (ns ! k) \<and> new_val division rk (ns ! k) = Some v' \<and>
          (let n = ns ! k; e1 = first_edge_index n; m' = new_mass rk n;
               rw = written rk e1 v' m'
           in out ! k = n\<lparr>new_edge_weight := Some v'\<rparr> \<and>
              average_linkage_call division r g fusion_edge_index new_region merged_region1
                merged_region2 (take (Suc k) ns) = Inr (rw, pre @ [out ! k]) \<and>
              average_linkage_call division rw g fusion_edge_index new_region merged_region1
                merged_region2 (drop (Suc k) ns) = Inr (r', drop (Suc k) out) \<and>
              arrays rw (m_weights r) ! e1 = m' \<and>
              (m_values r \<noteq> m_weights r \<longrightarrow>
                 arrays rw (m_values r) = (arrays rk (m_values r))[e1 := v'] \<and>
                 arrays rw (m_weights r) = (arrays rk (m_weights r))[e1 := m']) \<and>
              ((\<forall>i. k < i \<and> i < length ns \<longrightarrow> first_edge_index (ns ! i) \<noteq> e1) \<longrightarrow>
                 arrays r' (m_weights r) ! e1 = m' \<and>
                 (m_values r \<noteq> m_weights r \<longrightarrow> arrays r' (m_values r) ! e1 = v')))"
    unfolding Let_def average_linkage_call_def
    using pre ad ir v' outk n1 loopk post r1 dout w1 w2 w3
    by (intro exI[of _ rk] exI[of _ pre] exI[of _ v']) simp
qed

theorem average_linkage_rule_witness:
  "(\<exists>r' out.
      average_linkage_call (\<lambda>a b. Some (a div b))
        \<lparr>m_values = 0, m_weights = 1,
         arrays = (\<lambda>a. if a = 0 then [1, 4, 3::int] else if a = 1 then [1, 1, 2] else [])\<rparr>
        \<lparr>num_vertices = 5, edge_list = []\<rparr> 0 0 0 0
        [\<lparr>neighbour_vertex = 3, first_edge_index = 1, second_edge_index = None,
          new_edge_weight = None\<rparr>,
         \<lparr>neighbour_vertex = 4, first_edge_index = 0, second_edge_index = Some 2,
          new_edge_weight = None\<rparr>] = Inr (r', out)) \<and>
   average_linkage_call int_divide
     \<lparr>m_values = 0, m_weights = 1,
      arrays = (\<lambda>a. if a = 0 then [1, 4::int] else if a = 1 then [0, 0] else [])\<rparr>
     \<lparr>num_vertices = 5, edge_list = []\<rparr> 0 0 0 0
     [\<lparr>neighbour_vertex = 4, first_edge_index = 0, second_edge_index = Some 1,
       new_edge_weight = None\<rparr>] = Inl NoReturn \<and>
   (\<exists>r' out.
      average_linkage_call int_divide
        \<lparr>m_values = 0, m_weights = 1,
         arrays = (\<lambda>a. if a = 0 then [1, 4, 3::int] else if a = 1 then [1, 1, 2] else [])\<rparr>
        \<lparr>num_vertices = 5, edge_list = []\<rparr> 0 0 0 0
        [\<lparr>neighbour_vertex = 3, first_edge_index = 1, second_edge_index = None,
          new_edge_weight = None\<rparr>,
         \<lparr>neighbour_vertex = 4, first_edge_index = 0, second_edge_index = Some 2,
          new_edge_weight = None\<rparr>] = Inr (r', out) \<and>
      out ! 1 = \<lparr>neighbour_vertex = 4, first_edge_index = 0, second_edge_index = Some 2,
                 new_edge_weight = Some 2\<rparr> \<and>
      arrays r' 0 ! 0 = 2 \<and> arrays r' 1 ! 0 = 3)"
proof (intro conjI)
  let ?g = "\<lparr>num_vertices = 5, edge_list = []\<rparr>"
  let ?r = "\<lparr>m_values = 0, m_weights = 1,
         arrays = (\<lambda>a. if a = 0 then [1, 4, 3::int] else if a = (1::nat) then [1, 1, 2] else [])\<rparr>"
  let ?z = "\<lparr>m_values = 0, m_weights = 1,
         arrays = (\<lambda>a. if a = 0 then [1, 4::int] else if a = (1::nat) then [0, 0] else [])\<rparr>"
  let ?n0 = "\<lparr>neighbour_vertex = 3, first_edge_index = 1, second_edge_index = None,
          new_edge_weight = None :: int option\<rparr>"
  let ?n1 = "\<lparr>neighbour_vertex = 4, first_edge_index = 0, second_edge_index = Some 2,
          new_edge_weight = None :: int option\<rparr>"
  let ?nz = "\<lparr>neighbour_vertex = 4, first_edge_index = 0, second_edge_index = Some 1,
          new_edge_weight = None :: int option\<rparr>"
  have "(\<forall>n \<in> set [?n0, ?n1]. in_range ?r n) \<and> (\<forall>a b :: int. Some (a div b) \<noteq> None)"
    by (simp add: in_range_def)
  with average_linkage_rule[of "[?n0, ?n1]" ?r "\<lambda>a b. Some (a div b)" ?g 0 0 0 0]
  show "\<exists>r' out. average_linkage_call (\<lambda>a b. Some (a div b)) ?r ?g 0 0 0 0 [?n0, ?n1]
      = Inr (r', out)"
    by blast
next
  let ?g = "\<lparr>num_vertices = 5, edge_list = []\<rparr>"
  let ?z = "\<lparr>m_values = 0, m_weights = 1,
         arrays = (\<lambda>a. if a = 0 then [1, 4::int] else if a = (1::nat) then [0, 0] else [])\<rparr>"
  let ?nz = "\<lparr>neighbour_vertex = 4, first_edge_index = 0, second_edge_index = Some 1,
          new_edge_weight = None :: int option\<rparr>"
  have "(0::nat) < length [?nz] \<and>
     average_linkage_call int_divide ?z ?g 0 0 0 0 (take 0 [?nz]) = Inr (?z, []) \<and>
     (\<not> in_range ?z ([?nz] ! 0) \<or> new_val int_divide ?z ([?nz] ! 0) = None)"
    by (simp add: average_linkage_call_def new_val_def int_divide_def)
  with average_linkage_rule[of "[?nz]" ?z int_divide ?g 0 0 0 0 0 ?z "[]"]
  show "average_linkage_call int_divide ?z ?g 0 0 0 0 [?nz] = Inl NoReturn"
    by blast
next
  let ?g = "\<lparr>num_vertices = 5, edge_list = []\<rparr>"
  let ?r = "\<lparr>m_values = 0, m_weights = 1,
         arrays = (\<lambda>a. if a = 0 then [1, 4, 3::int] else if a = (1::nat) then [1, 1, 2] else [])\<rparr>"
  let ?n0 = "\<lparr>neighbour_vertex = 3, first_edge_index = 1, second_edge_index = None,
          new_edge_weight = None :: int option\<rparr>"
  let ?n1 = "\<lparr>neighbour_vertex = 4, first_edge_index = 0, second_edge_index = Some 2,
          new_edge_weight = None :: int option\<rparr>"
  let ?ns = "[?n0, ?n1]"
  have "\<exists>r' out. average_linkage_call int_divide ?r ?g 0 0 0 0 ?ns = Inr (r', out)"
    by (simp add: average_linkage_call_def average_linkage_step_eq in_range_def new_val_def
        new_mass_def written_def assign_def int_divide_def)
  then obtain r' out where
    c: "average_linkage_call int_divide ?r ?g 0 0 0 0 ?ns = Inr (r', out)" by blast
  have k: "(1::nat) < length ?ns" by simp
  note th = average_linkage_rule[of ?ns ?r int_divide ?g 0 0 0 0 _ _ _ 1 r' out]
  from th[THEN conjunct2, THEN conjunct2, THEN mp, OF conjI[OF k c], unfolded Let_def]
  obtain rk pre v' where
    p: "average_linkage_call int_divide ?r ?g 0 0 0 0 (take 1 ?ns) = Inr (rk, pre)"
    and a0: "m_values rk = m_values ?r" "m_weights rk = m_weights ?r"
    and v': "new_val int_divide rk (?ns ! 1) = Some v'"
    and o: "out ! 1 = (?ns ! 1)\<lparr>new_edge_weight := Some v'\<rparr>"
    and w: "(\<forall>i. 1 < i \<and> i < length ?ns \<longrightarrow>
              first_edge_index (?ns ! i) \<noteq> first_edge_index (?ns ! 1)) \<longrightarrow>
         arrays r' (m_weights ?r) ! first_edge_index (?ns ! 1) = new_mass rk (?ns ! 1) \<and>
         (m_values ?r \<noteq> m_weights ?r \<longrightarrow>
            arrays r' (m_values ?r) ! first_edge_index (?ns ! 1) = v')"
    by blast
  from a0 have a: "m_values rk = 0" "m_weights rk = 1" by simp_all
  from p have rk: "arrays rk 0 = [1, 4, 3]" "arrays rk (Suc 0) = [1, 1, 2]"
    by (auto simp: average_linkage_call_def average_linkage_step_eq in_range_def new_val_def
        new_mass_def written_def assign_def)
  from v' have v2: "v' = 2"
    by (simp add: new_val_def a rk int_divide_def Let_def)
  have m3: "new_mass rk (?ns ! 1) = 3" by (simp add: new_mass_def a rk Let_def)
  from w have "arrays r' 1 ! 0 = 3 \<and> arrays r' 0 ! 0 = 2"
    unfolding m3 v2 by simp
  with c o v2 show "\<exists>r' out.
      average_linkage_call int_divide ?r ?g 0 0 0 0 ?ns = Inr (r', out) \<and>
      out ! 1 = \<lparr>neighbour_vertex = 4, first_edge_index = 0, second_edge_index = Some 2,
                 new_edge_weight = Some 2\<rparr> \<and>
      arrays r' 0 ! 0 = 2 \<and> arrays r' 1 ! 0 = 3"
    by auto
qed

section \<open>The scan order of the Kruskal loop\<close>

text \<open>The order on edge ids by weight first and id second.\<close>

definition edge_before :: "('w::linorder) list \<Rightarrow> nat \<Rightarrow> nat \<Rightarrow> bool" where
  "edge_before w a b = (w ! a < w ! b \<or> (w ! a = w ! b \<and> a < b))"

lemma insort_key_edge_before:
  "sorted_wrt (edge_before w) ys \<Longrightarrow> \<forall>y\<in>set ys. x < y \<Longrightarrow>
   sorted_wrt (edge_before w) (insort_key (\<lambda>e. w ! e) x ys)"
proof (induction ys)
  case Nil
  then show ?case by simp
next
  case (Cons y ys)
  show ?case
  proof (cases "w ! x \<le> w ! y")
    case True
    have "edge_before w x z" if "z \<in> set (y # ys)" for z
    proof -
      have xz: "x < z" using Cons.prems(2) that by auto
      have "w ! y \<le> w ! z"
        using Cons.prems(1) that by (auto simp: edge_before_def)
      with True xz show ?thesis by (auto simp: edge_before_def)
    qed
    with Cons.prems(1) True show ?thesis by simp
  next
    case False
    then have "edge_before w y x" by (auto simp: edge_before_def)
    with Cons False show ?thesis by (auto simp: set_insort_key)
  qed
qed

lemma sort_key_edge_before:
  "sorted_wrt (<) xs \<Longrightarrow> sorted_wrt (edge_before w) (sort_key (\<lambda>e. w ! e) xs)"
proof (induction xs)
  case Nil
  then show ?case by simp
next
  case (Cons x xs)
  then show ?case
    by (auto simp: sort_key_def[symmetric] intro!: insort_key_edge_before)
qed

lemma edge_before_unique:
  "sorted_wrt (edge_before w) xs \<Longrightarrow> sorted_wrt (edge_before w) ys \<Longrightarrow>
   distinct xs \<Longrightarrow> distinct ys \<Longrightarrow> set xs = set ys \<Longrightarrow> xs = ys"
proof (induction xs arbitrary: ys)
  case Nil
  then show ?case by simp
next
  case (Cons x xs)
  then obtain y ys' where ys: "ys = y # ys'" by (cases ys) auto
  have "x = y"
  proof (rule ccontr)
    assume ne: "x \<noteq> y"
    have "x \<in> set ys'" using Cons.prems(5) ne ys by auto
    then have 1: "edge_before w y x" using Cons.prems(2) ys by simp
    have "y \<in> set xs" using Cons.prems(5) ne ys by auto
    then have 2: "edge_before w x y" using Cons.prems(1) by simp
    from 1 2 show False by (auto simp: edge_before_def)
  qed
  moreover have "set xs = set ys'"
    using Cons.prems(3,4,5) ys \<open>x = y\<close> by auto
  ultimately show ?case
    using Cons.IH[of ys'] Cons.prems ys by simp
qed

lemma edge_before_nth:
  "sorted_wrt (edge_before w) xs \<longleftrightarrow>
   sorted (map (\<lambda>e. w ! e) xs) \<and>
   (\<forall>i j. i < j \<and> j < length xs \<and> w ! (xs ! i) = w ! (xs ! j) \<longrightarrow> xs ! i < xs ! j)"
proof
  assume a: "sorted_wrt (edge_before w) xs"
  have b: "edge_before w (xs ! i) (xs ! j)" if "i < j" "j < length xs" for i j
    using a that by (simp add: sorted_wrt_iff_nth_less)
  have "w ! (xs ! i) \<le> w ! (xs ! j)" if "i < j" "j < length xs" for i j
    using b[OF that] by (auto simp: edge_before_def)
  then have "sorted (map (\<lambda>e. w ! e) xs)"
    by (simp add: sorted_iff_nth_mono_less)
  moreover have "xs ! i < xs ! j" if "i < j" "j < length xs" "w ! (xs ! i) = w ! (xs ! j)" for i j
    using b[OF that(1,2)] that(3) by (auto simp: edge_before_def)
  ultimately show "sorted (map (\<lambda>e. w ! e) xs) \<and>
   (\<forall>i j. i < j \<and> j < length xs \<and> w ! (xs ! i) = w ! (xs ! j) \<longrightarrow> xs ! i < xs ! j)"
    by blast
next
  assume a: "sorted (map (\<lambda>e. w ! e) xs) \<and>
   (\<forall>i j. i < j \<and> j < length xs \<and> w ! (xs ! i) = w ! (xs ! j) \<longrightarrow> xs ! i < xs ! j)"
  have "edge_before w (xs ! i) (xs ! j)" if "i < j" "j < length xs" for i j
  proof -
    have "w ! (xs ! i) \<le> w ! (xs ! j)"
      using a that by (simp add: sorted_iff_nth_mono_less)
    moreover have "w ! (xs ! i) = w ! (xs ! j) \<Longrightarrow> xs ! i < xs ! j"
      using a that by blast
    ultimately show ?thesis by (auto simp: edge_before_def)
  qed
  then show "sorted_wrt (edge_before w) xs"
    by (simp add: sorted_wrt_iff_nth_less)
qed


text \<open>
  Claim C7. The list of edge ids the Kruskal loop of \<open>bpt_canonical\<close> scans holds every
  edge id once, is in non-decreasing weight order, and edges of equal weight are in
  increasing edge-id order. It is the only list with these properties, so the scan order,
  and with it the result of the loop, is a function of the input even under ties.
\<close>

theorem sorted_edges_indices_stable:
  fixes w :: "('w::{linorder,zero}) list"
  shows "(let se = sorted_edges_indices g w; m = num_edges g in
      distinct se \<and> set se = {0..<m} \<and> length se = m \<and>
      sorted (map (\<lambda>e. w ! e) se) \<and>
      (\<forall>i j. i < j \<and> j < m \<and> w ! (se ! i) = w ! (se ! j) \<longrightarrow> se ! i < se ! j) \<and>
      (\<forall>xs. distinct xs \<and> set xs = {0..<m} \<and> sorted (map (\<lambda>e. w ! e) xs) \<and>
            (\<forall>i j. i < j \<and> j < m \<and> w ! (xs ! i) = w ! (xs ! j) \<longrightarrow> xs ! i < xs ! j)
          \<longrightarrow> xs = se \<and>
              bpt_loop g w xs (num_vertices g - 1) (bpt_init g) =
              bpt_loop g w se (num_vertices g - 1) (bpt_init g)))"
proof -
  define se where "se = sorted_edges_indices g w"
  define m where "m = num_edges g"
  have d: "distinct se" and s: "set se = {0..<m}" and l: "length se = m"
    by (simp_all add: se_def m_def sorted_edges_indices_def)
  have "sorted_wrt (<) [0..<m]"
    by (simp add: sorted_wrt_iff_nth_less)
  then have eb: "sorted_wrt (edge_before w) se"
    unfolding se_def sorted_edges_indices_def m_def by (rule sort_key_edge_before)
  have srt: "sorted (map (\<lambda>e. w ! e) se)"
    and ties: "\<forall>i j. i < j \<and> j < m \<and> w ! (se ! i) = w ! (se ! j) \<longrightarrow> se ! i < se ! j"
    using eb l unfolding edge_before_nth by auto
  have uniq: "xs = se"
    if "distinct xs" "set xs = {0..<m}" "sorted (map (\<lambda>e. w ! e) xs)"
       "\<forall>i j. i < j \<and> j < m \<and> w ! (xs ! i) = w ! (xs ! j) \<longrightarrow> xs ! i < xs ! j" for xs
  proof -
    have "length xs = m"
      using that(1,2) distinct_card[of xs] by simp
    with that(3,4) have "sorted_wrt (edge_before w) xs"
      unfolding edge_before_nth by auto
    then show ?thesis
      using edge_before_unique[OF _ eb that(1) d] that(2) s by simp
  qed
  show ?thesis
    unfolding Let_def se_def[symmetric] m_def[symmetric]
    using d s l srt ties uniq by blast
qed

theorem sorted_edges_indices_stable_witness:
  "sorted_edges_indices
     \<lparr>num_vertices = 6, edge_list = [(0,1),(0,3),(1,2),(1,4),(2,5),(3,4),(4,5)]\<rparr>
     [1, 0, 2, 1, 1, 1, 2::int] = [1, 0, 3, 4, 5, 2, 6]"
proof -
  let ?g = "\<lparr>num_vertices = 6, edge_list = [(0,1),(0,3),(1,2),(1,4),(2,5),(3,4),(4,5)]\<rparr>"
  let ?w = "[1, 0, 2, 1, 1, 1, 2::int]"
  let ?xs = "[1, 0, 3, 4, 5, 2, 6::nat]"
  have m: "num_edges ?g = 7" by (simp add: num_edges_def)
  have 1: "distinct ?xs" by simp
  have 2: "set ?xs = {0..<7}" by auto
  have 3: "sorted (map (\<lambda>e. ?w ! e) ?xs)" by simp
  have 4: "\<forall>i j. i < j \<and> j < 7 \<and> ?w ! (?xs ! i) = ?w ! (?xs ! j) \<longrightarrow> ?xs ! i < ?xs ! j"
  proof (intro allI impI)
    fix i j :: nat
    assume a: "i < j \<and> j < 7 \<and> ?w ! (?xs ! i) = ?w ! (?xs ! j)"
    then have "j \<in> {1, 2, 3, 4, 5, 6}" by auto
    moreover from a have "i \<in> {0, 1, 2, 3, 4, 5}" by auto
    ultimately show "?xs ! i < ?xs ! j" using a by auto
  qed
  from sorted_edges_indices_stable[of ?g ?w] have
    "\<forall>xs. distinct xs \<and> set xs = {0..<7} \<and> sorted (map (\<lambda>e. ?w ! e) xs) \<and>
            (\<forall>i j. i < j \<and> j < 7 \<and> ?w ! (xs ! i) = ?w ! (xs ! j) \<longrightarrow> xs ! i < xs ! j)
          \<longrightarrow> xs = sorted_edges_indices ?g ?w"
    unfolding Let_def m by blast
  with 1 2 3 4 show ?thesis by metis
qed

section \<open>Ancestors and the saliency map\<close>

lemma ancestors_in_tree:
  "tree_ok t \<Longrightarrow> v < length t \<Longrightarrow> set (ancestors t v) \<subseteq> {..<length t}"
proof (induction t v rule: ancestors.induct)
  case (1 t v)
  then show ?case by (subst ancestors.simps) auto
qed

lemma root_in_ancestors:
  "tree_ok t \<Longrightarrow> v < length t \<Longrightarrow> root t \<in> set (ancestors t v)"
proof (induction t v rule: ancestors.induct)
  case (1 t v)
  show ?case
  proof (cases "v < t ! v \<and> t ! v < length t")
    case True
    with 1 show ?thesis by (subst ancestors.simps) auto
  next
    case False
    have "\<not> v < length t - 1"
    proof
      assume "v < length t - 1"
      with 1(2) have "v < t ! v \<and> t ! v < length t" by (simp add: tree_ok_def)
      with False show False by simp
    qed
    with 1(3) have "v = length t - 1" by simp
    with False show ?thesis by (subst ancestors.simps) (simp add: root_def)
  qed
qed

lemma lca_exists:
  assumes "tree_ok t" "u < length t" "v < length t"
  shows "\<exists>a. lca t u v = Some a \<and> a < length t \<and>
             a \<in> set (ancestors t u) \<and> a \<in> set (ancestors t v)"
proof -
  have "root t \<in> set (ancestors t u)" "root t \<in> set (ancestors t v)"
    using assms by (simp_all add: root_in_ancestors)
  then have "List.find (\<lambda>a. a \<in> set (ancestors t v)) (ancestors t u) \<noteq> None"
    by (auto simp: find_None_iff)
  then obtain a where a: "List.find (\<lambda>a. a \<in> set (ancestors t v)) (ancestors t u) = Some a"
    by auto
  then have "a \<in> set (ancestors t u)" "a \<in> set (ancestors t v)"
    by (auto simp: find_Some_iff)
  moreover from this ancestors_in_tree[OF assms(1,2)] have "a < length t" by auto
  ultimately show ?thesis using a assms by (simp add: lca_def)
qed

text \<open>
  Claim C4. For a graph with \<open>m\<close> edges, a tree that has the endpoints of every edge
  among its nodes and an altitude vector with one entry per node, \<open>saliency_map\<close> returns
  a vector of length \<open>m\<close> whose entry at the edge id \<open>e\<close> is the altitude of the lowest
  common ancestor of the source and the target of \<open>e\<close>.
\<close>

theorem saliency_map_lca:
  assumes "tree_ok t"
    and "length alts = length t"
    and "list_all (\<lambda>e. source e < length t \<and> target e < length t) (edge_list g)"
  shows "\<exists>sm. saliency_map g t alts = Inr sm \<and> length sm = num_edges g \<and>
           (\<forall>e < num_edges g.
              \<exists>a. lca t (source (edge_from_index e g)) (target (edge_from_index e g)) = Some a \<and>
                  sm ! e = alts ! a)"
proof -
  have ex: "\<exists>a. lca t (source e) (target e) = Some a \<and> a < length alts"
    if "e \<in> set (edge_list g)" for e
    using lca_exists[OF assms(1), of "source e" "target e"] assms(2,3) that
    by (auto simp: list_all_iff)
  then have "list_all (\<lambda>a. case a of None \<Rightarrow> False | Some x \<Rightarrow> x < length alts)
      (map (\<lambda>e. lca t (source e) (target e)) (edge_list g))"
    by (fastforce simp: list_all_iff)
  then have sm: "saliency_map g t alts =
      Inr (map (\<lambda>a. alts ! the a) (map (\<lambda>e. lca t (source e) (target e)) (edge_list g)))"
    by (simp add: saliency_map_def)
  have "\<exists>a. lca t (source (edge_list g ! e)) (target (edge_list g ! e)) = Some a \<and>
      alts ! the (lca t (source (edge_list g ! e)) (target (edge_list g ! e))) = alts ! a"
    if "e < length (edge_list g)" for e
    using ex[of "edge_list g ! e"] that by auto
  then show ?thesis
    unfolding sm by (simp add: num_edges_def edge_from_index_def)
qed

theorem saliency_map_lca_witness:
  "saliency_map
     \<lparr>num_vertices = 8,
      edge_list = [(0,1),(0,4),(1,2),(1,5),(2,3),(2,6),(3,7),(4,5),(5,6),(6,7)]\<rparr>
     [8, 8, 9, 9, 10, 10, 11, 11, 12, 13, 12, 14, 13, 14, 14]
     [0, 0, 0, 0, 0, 0, 0, 0, 0, 0, 0, 0, 1, 2, 3::int]
   = Inr [0, 1, 2, 1, 0, 3, 3, 0, 3, 0]"
proof -
  let ?g = "\<lparr>num_vertices = 8,
      edge_list = [(0,1),(0,4),(1,2),(1,5),(2,3),(2,6),(3,7),(4,5),(5,6),(6,7)]\<rparr>"
  let ?t = "[8, 8, 9, 9, 10, 10, 11, 11, 12, 13, 12, 14, 13, 14, 14::nat]"
  let ?a = "[0, 0, 0, 0, 0, 0, 0, 0, 0, 0, 0, 0, 1, 2, 3::int]"
  have 1: "tree_ok ?t" unfolding tree_ok_def by (simp add: nth_Cons' less_Suc_eq) 
  have 2: "length ?a = length ?t" by simp
  have 3: "list_all (\<lambda>e. source e < length ?t \<and> target e < length ?t) (edge_list ?g)"
    by (simp add: source_def target_def)
  from saliency_map_lca[OF 1 2 3] obtain sm where "saliency_map ?g ?t ?a = Inr sm" by blast
  moreover have "saliency_map ?g ?t ?a = Inr [0, 1, 2, 1, 0, 3, 3, 0, 3, 0]"
    by code_simp
  ultimately show ?thesis by simp
qed

section \<open>Correctness of the tree simplification\<close>

text \<open>The nodes \<open>simplify_tree\<close> deletes: inner nodes other than the root that satisfy the
  criterion.\<close>

definition deleted :: "tree \<Rightarrow> (nat \<Rightarrow> bool) \<Rightarrow> nat \<Rightarrow> bool" where
  "deleted t criterion i = (i < length t - 1 \<and> \<not> is_leaf i t \<and> criterion i)"

text \<open>The surviving nodes other than the root, in increasing order, and the new index of
  a node: the number of surviving nodes below it.\<close>

definition survivors :: "tree \<Rightarrow> (nat \<Rightarrow> bool) \<Rightarrow> nat list" where
  "survivors t criterion = filter (\<lambda>i. \<not> deleted t criterion i) [0..<length t - 1]"

definition new_index :: "tree \<Rightarrow> (nat \<Rightarrow> bool) \<Rightarrow> nat \<Rightarrow> nat" where
  "new_index t criterion i = length (filter (\<lambda>k. \<not> deleted t criterion k) [0..<i])"

lemma set_children: "set (children i t) = {c. c < length t - 1 \<and> t ! c = i}"
  by (auto simp: children_def)

lemma is_leaf_iff: "is_leaf i t \<longleftrightarrow> (\<forall>c < length t - 1. t ! c \<noteq> i)"
  by (auto simp: is_leaf_def children_def filter_empty_conv)

lemma fold_update_nth:
  "x < length cp \<Longrightarrow>
   fold (\<lambda>c cp. cp[c := p]) cs cp ! x = (if x \<in> set cs then p else cp ! x)"
  by (induction cs arbitrary: cp) (auto simp: nth_list_update)

lemma fold_update_length [simp]:
  "length (fold (\<lambda>c cp. cp[c := p]) cs cp) = length cp"
  by (induction cs arbitrary: cp) auto

lemma upt_split: "i \<le> j \<Longrightarrow> j \<le> k \<Longrightarrow> [i..<k] = [i..<j] @ [j..<k]"
  using upt_add_eq_append[of i j "k - j"] by simp

lemma tree_ok_parent_gt:
  "tree_ok t \<Longrightarrow> c < length t - 1 \<Longrightarrow> c < t ! c \<and> t ! c < length t"
  by (simp add: tree_ok_def)

lemma tree_ok_parent_ge:
  "c \<le> t ! c \<and> t ! c < length t" if "tree_ok t" "c < length t"
proof (cases "c < length t - 1")
  case True
  then show ?thesis using that by (auto simp: tree_ok_def less_imp_le)
next
  case False
  with that have "c = length t - 1" by simp
  with that show ?thesis by (simp add: tree_ok_def)
qed

lemma parent_not_leaf:
  "c < length t - 1 \<Longrightarrow> \<not> is_leaf (t ! c) t"
  by (auto simp: is_leaf_iff)

subsection \<open>The loop from the root to the leaves\<close>

definition down_inv ::
  "tree \<Rightarrow> (nat \<Rightarrow> bool) \<Rightarrow> nat \<Rightarrow> nat list \<times> nat \<times> nat list \<Rightarrow> bool" where
  "down_inv t criterion b st =
     (case st of (cp, count, dm) \<Rightarrow>
        length cp = length t \<and> length dm = length t \<and>
        (\<forall>c < length t.
           cp ! c = (if deleted t criterion (t ! c) \<and> b \<le> t ! c then cp ! (t ! c) else t ! c)) \<and>
        count = length (filter (deleted t criterion) [b..<length t - 1]) \<and>
        (\<forall>j < length t.
           dm ! j = (if b \<le> j \<and> j < length t - 1 \<and> \<not> is_leaf j t
                     then length (filter (deleted t criterion) [j..<length t - 1]) else 0)))"

lemma down_inv_init:
  "down_inv t criterion (length t - 1) (t, 0, replicate (length t) 0)"
  by (auto simp: down_inv_def deleted_def)

lemma down_inv_step:
  assumes ok: "tree_ok t" and b: "b < length t - 1" and inv: "down_inv t criterion (Suc b) st"
  shows "down_inv t criterion b
           (if \<not> is_leaf b t then simplify_down_step t criterion b st else st)"
proof -
  obtain cp count dm where st: "st = (cp, count, dm)" by (cases st) auto
  from inv st have len: "length cp = length t" "length dm = length t"
    and cp: "\<And>c. c < length t \<Longrightarrow>
           cp ! c = (if deleted t criterion (t ! c) \<and> Suc b \<le> t ! c then cp ! (t ! c) else t ! c)"
    and cnt: "count = length (filter (deleted t criterion) [Suc b..<length t - 1])"
    and dm: "\<And>j. j < length t \<Longrightarrow>
           dm ! j = (if Suc b \<le> j \<and> j < length t - 1 \<and> \<not> is_leaf j t
                     then length (filter (deleted t criterion) [j..<length t - 1]) else 0)"
    by (auto simp: down_inv_def)
  have upt: "[b..<length t - 1] = b # [Suc b..<length t - 1]"
    using b by (simp add: upt_conv_Cons)
  have bl: "b < length t" using b by simp
  show ?thesis
  proof (cases "deleted t criterion b")
    case True
    then have nl: "\<not> is_leaf b t" and cr: "criterion b" by (auto simp: deleted_def)
    let ?cp' = "fold (\<lambda>c q. q[c := cp ! b]) (children b t) cp"
    have res: "(if \<not> is_leaf b t then simplify_down_step t criterion b st else st)
          = (?cp', count + 1, dm[b := count + 1])"
      using nl cr st by (simp add: simplify_down_step_def Let_def)
    have cp': "?cp' ! c = (if c < length t - 1 \<and> t ! c = b then cp ! b else cp ! c)"
      if "c < length t" for c
      using that len by (auto simp: fold_update_nth set_children)
    have tb: "t ! b \<noteq> b" using tree_ok_parent_gt[OF ok b] by simp
    have cpb: "?cp' ! b = cp ! b" using cp'[OF bl] tb by simp
    have A: "?cp' ! c = (if deleted t criterion (t ! c) \<and> b \<le> t ! c then ?cp' ! (t ! c) else t ! c)"
      if c: "c < length t" for c
    proof (cases "c < length t - 1 \<and> t ! c = b")
      case True
      then show ?thesis using cp'[OF c] cpb \<open>deleted t criterion b\<close> by simp
    next
      case False
      have tc: "t ! c < length t" "c \<le> t ! c" using tree_ok_parent_ge[OF ok c] by auto
      have ne: "t ! c \<noteq> b"
      proof
        assume e: "t ! c = b"
        with False have "c = length t - 1" using c by simp
        with ok have "t ! c = length t - 1" by (simp add: tree_ok_def)
        with e b show False by simp
      qed
      show ?thesis
      proof (cases "deleted t criterion (t ! c) \<and> Suc b \<le> t ! c")
        case True
        then have "t ! (t ! c) \<noteq> b"
          using tree_ok_parent_ge[OF ok tc(1)] by simp
        then have "?cp' ! (t ! c) = cp ! (t ! c)" using cp'[OF tc(1)] by simp
        moreover have "?cp' ! c = cp ! c" using cp'[OF c] False by auto
        ultimately show ?thesis using True cp[OF c] by simp
      next
        case F2: False
        with ne have F3: "\<not> (deleted t criterion (t ! c) \<and> b \<le> t ! c)" by auto
        have "?cp' ! c = cp ! c" using cp'[OF c] False by auto
        also have "\<dots> = t ! c" using cp[OF c] F2 by simp
        finally show ?thesis using F3 by auto
      qed
    qed
    have B: "count + 1 = length (filter (deleted t criterion) [b..<length t - 1])"
      using True cnt upt by simp
    have C: "dm[b := count + 1] ! j =
               (if b \<le> j \<and> j < length t - 1 \<and> \<not> is_leaf j t
                then length (filter (deleted t criterion) [j..<length t - 1]) else 0)"
      if "j < length t" for j
    proof (cases "j = b")
      case True
      then show ?thesis using B nl b len by simp
    next
      case False
      then show ?thesis using dm[OF that] len by (auto simp: nth_list_update)
    qed
    show ?thesis
      unfolding res down_inv_def using len A B C by simp
  next
    case False
    let ?st' = "(if \<not> is_leaf b t then simplify_down_step t criterion b st else st)"
    have res: "?st' = (cp, count, if \<not> is_leaf b t then dm[b := count] else dm)"
      using False b st by (auto simp: simplify_down_step_def Let_def deleted_def)
    have A: "cp ! c = (if deleted t criterion (t ! c) \<and> b \<le> t ! c then cp ! (t ! c) else t ! c)"
      if c: "c < length t" for c
      using cp[OF c] False by (cases "t ! c = b") auto
    have B: "count = length (filter (deleted t criterion) [b..<length t - 1])"
      using False cnt upt by simp
    have C: "(if \<not> is_leaf b t then dm[b := count] else dm) ! j =
               (if b \<le> j \<and> j < length t - 1 \<and> \<not> is_leaf j t
                then length (filter (deleted t criterion) [j..<length t - 1]) else 0)"
      if "j < length t" for j
    proof (cases "j = b")
      case True
      then show ?thesis using B b len dm[OF that] by simp
    next
      case False
      then show ?thesis using dm[OF that] len by (auto simp: nth_list_update)
    qed
    show ?thesis
      unfolding res down_inv_def using len A B C by simp
  qed
qed

lemma down_loop_inv:
  assumes ok: "tree_ok t"
  shows "b \<le> length t - 1 \<Longrightarrow> down_inv t criterion b st \<Longrightarrow>
         down_inv t criterion 0
           (fold (simplify_down_step t criterion)
              (rev (filter (\<lambda>i. \<not> is_leaf i t) [0..<b])) st)"
proof (induction b arbitrary: st)
  case 0
  then show ?case by simp
next
  case (Suc b)
  have b: "b < length t - 1" using Suc.prems(1) by simp
  let ?st = "if \<not> is_leaf b t then simplify_down_step t criterion b st else st"
  have "down_inv t criterion 0
          (fold (simplify_down_step t criterion) (rev (filter (\<lambda>i. \<not> is_leaf i t) [0..<b])) ?st)"
    using down_inv_step[OF ok b Suc.prems(2)] Suc.IH[of ?st] b by simp
  then show ?case by (cases "is_leaf b t") simp_all
qed

lemma simplify_down_final:
  assumes ok: "tree_ok t"
  shows "down_inv t criterion 0
           (fold (simplify_down_step t criterion) (root_to_leaves_inner t)
              (t, 0, replicate (length t) 0))"
  unfolding root_to_leaves_inner_def
  by (rule down_loop_inv[OF ok order_refl down_inv_init])


text \<open>The surviving parent of a node: its nearest proper ancestor that is not deleted.\<close>

function surviving_parent :: "tree \<Rightarrow> (nat \<Rightarrow> bool) \<Rightarrow> nat \<Rightarrow> nat" where
  "surviving_parent t criterion c =
     (if c < t ! c \<and> t ! c < length t \<and> deleted t criterion (t ! c)
      then surviving_parent t criterion (t ! c) else t ! c)"
  by pat_completeness auto
termination
  by (relation "measure (\<lambda>(t, criterion, c). length t - c)") auto

declare surviving_parent.simps [simp del]

lemma down_inv_surviving_parent:
  assumes ok: "tree_ok t" and inv: "down_inv t criterion 0 (cp, count, dm)"
  shows "c < length t \<Longrightarrow> cp ! c = surviving_parent t criterion c"
proof (induction "length t - c" arbitrary: c rule: less_induct)
  case less
  from inv have cp: "cp ! c = (if deleted t criterion (t ! c) then cp ! (t ! c) else t ! c)"
    using less.prems by (simp add: down_inv_def)
  have tc: "c \<le> t ! c" "t ! c < length t"
    using tree_ok_parent_ge[OF ok less.prems] by auto
  show ?case
  proof (cases "deleted t criterion (t ! c)")
    case True
    have "c \<noteq> t ! c"
    proof
      assume e: "c = t ! c"
      have "c < length t - 1" using True e by (simp add: deleted_def)
      from tree_ok_parent_gt[OF ok this] have "c < t ! c" by simp
      with e show False by linarith
    qed
    with tc have lt: "c < t ! c" by simp
    then have "cp ! (t ! c) = surviving_parent t criterion (t ! c)"
      using less.hyps[of "t ! c"] tc less.prems by simp
    with True tc lt cp show ?thesis
      by (subst surviving_parent.simps) simp
  next
    case False
    with cp show ?thesis by (subst surviving_parent.simps) simp
  qed
qed

lemma surviving_parent_props:
  assumes ok: "tree_ok t"
  shows "c < length t - 1 \<Longrightarrow>
         c < surviving_parent t criterion c \<and> surviving_parent t criterion c < length t \<and>
         \<not> deleted t criterion (surviving_parent t criterion c) \<and>
         \<not> is_leaf (surviving_parent t criterion c) t"
proof (induction "length t - c" arbitrary: c rule: less_induct)
  case less
  have tc: "c < t ! c" "t ! c < length t"
    using tree_ok_parent_gt[OF ok less.prems] by auto
  show ?case
  proof (cases "deleted t criterion (t ! c)")
    case True
    then have "t ! c < length t - 1" by (simp add: deleted_def)
    with less.hyps[of "t ! c"] tc less.prems have "t ! c < surviving_parent t criterion (t ! c) \<and>
        surviving_parent t criterion (t ! c) < length t \<and>
        \<not> deleted t criterion (surviving_parent t criterion (t ! c)) \<and>
        \<not> is_leaf (surviving_parent t criterion (t ! c)) t"
      by simp
    moreover have "surviving_parent t criterion c = surviving_parent t criterion (t ! c)"
      using True tc by (subst surviving_parent.simps) simp
    ultimately show ?thesis using tc by simp
  next
    case False
    then have "surviving_parent t criterion c = t ! c"
      by (subst surviving_parent.simps) simp
    with False tc parent_not_leaf[OF less.prems] show ?thesis by simp
  qed
qed

lemma new_index_diff:
  "new_index t criterion j = j - length (filter (deleted t criterion) [0..<j])"
  using sum_length_filter_compl[of "deleted t criterion" "[0..<j]"]
  by (simp add: new_index_def)

lemma length_survivors:
  "t \<noteq> [] \<Longrightarrow>
   length t - length (filter (deleted t criterion) [0..<length t - 1])
     = Suc (length (survivors t criterion))"
proof -
  assume "t \<noteq> []"
  then have "0 < length t" by simp
  moreover have "length (filter (deleted t criterion) [0..<length t - 1])
      + length (filter (\<lambda>i. \<not> deleted t criterion i) [0..<length t - 1]) = length t - 1"
    using sum_length_filter_compl[of "deleted t criterion" "[0..<length t - 1]"] by simp
  ultimately show ?thesis
    unfolding survivors_def by arith
qed

lemma down_inv_deleted_map:
  assumes inv: "down_inv t criterion 0 (cp, count, dm)"
    and j: "j < length t" and nl: "\<not> is_leaf j t \<or> j = length t - 1"
  shows "map (\<lambda>d. count - d) dm ! j = length (filter (deleted t criterion) [0..<j])"
proof -
  from inv have len: "length dm = length t"
    and cnt: "count = length (filter (deleted t criterion) [0..<length t - 1])"
    and dm: "dm ! j = (if j < length t - 1 \<and> \<not> is_leaf j t
                     then length (filter (deleted t criterion) [j..<length t - 1]) else 0)"
    using j by (auto simp: down_inv_def)
  show ?thesis
  proof (cases "j < length t - 1")
    case True
    then have "[0..<length t - 1] = [0..<j] @ [j..<length t - 1]"
      by (intro upt_split) simp_all
    then have "count = length (filter (deleted t criterion) [0..<j])
                 + length (filter (deleted t criterion) [j..<length t - 1])"
      using cnt by simp
    with dm True nl len j show ?thesis by simp
  next
    case False
    with j have "j = length t - 1" by simp
    with dm cnt len j show ?thesis by simp
  qed
qed

subsection \<open>The loop from the leaves to the root\<close>

definition up_inv ::
  "tree \<Rightarrow> (nat \<Rightarrow> bool) \<Rightarrow> (nat \<Rightarrow> nat) \<Rightarrow> nat \<Rightarrow> nat list \<times> nat list \<times> nat \<Rightarrow> bool" where
  "up_inv t criterion f b st =
     (case st of (np, nm, k) \<Rightarrow>
        (let s = filter (\<lambda>i. \<not> deleted t criterion i) [0..<b];
             n' = Suc (length (survivors t criterion)) in
         length np = n' \<and> length nm = n' \<and> k = length s \<and>
         take k np = map f s \<and> take k nm = s \<and> drop k np = [k..<n']))"

lemma up_inv_step:
  assumes b: "b < length t - 1"
    and inv: "up_inv t criterion (\<lambda>i. cp ! i - dmap ! (cp ! i)) b st"
  shows "up_inv t criterion (\<lambda>i. cp ! i - dmap ! (cp ! i)) (Suc b)
           (simplify_up_step t criterion cp dmap b st)"
proof -
  obtain np nm k where st: "st = (np, nm, k)" by (cases st) auto
  let ?f = "\<lambda>i. cp ! i - dmap ! (cp ! i)"
  let ?s = "filter (\<lambda>i. \<not> deleted t criterion i) [0..<b]"
  let ?n' = "Suc (length (survivors t criterion))"
  from inv st have len: "length np = ?n'" "length nm = ?n'" and k: "k = length ?s"
    and tk: "take k np = map ?f ?s" "take k nm = ?s" and dr: "drop k np = [k..<?n']"
    by (auto simp: up_inv_def Let_def simp del: upt_Suc)
  have surv: "(is_leaf b t \<or> \<not> criterion b) \<longleftrightarrow> \<not> deleted t criterion b"
    using b by (auto simp: deleted_def)
  show ?thesis
  proof (cases "deleted t criterion b")
    case True
    with surv st have "simplify_up_step t criterion cp dmap b st = st"
      by (simp add: simplify_up_step_def)
    moreover have "filter (\<lambda>i. \<not> deleted t criterion i) [0..<Suc b] = ?s"
      using True by simp
    ultimately show ?thesis using inv unfolding up_inv_def Let_def by (simp only:)
  next
    case False
    with surv st have res: "simplify_up_step t criterion cp dmap b st
        = (np[k := ?f b], nm[k := b], Suc k)"
      by (simp add: simplify_up_step_def Let_def)
    have "[0..<length t - 1] = [0..<Suc b] @ [Suc b..<length t - 1]"
      using b by (intro upt_split) simp_all
    then have "survivors t criterion =
        filter (\<lambda>i. \<not> deleted t criterion i) [0..<Suc b] @
        filter (\<lambda>i. \<not> deleted t criterion i) [Suc b..<length t - 1]"
      unfolding survivors_def by (simp only: filter_append)
    then have "length (survivors t criterion) \<ge>
        length (filter (\<lambda>i. \<not> deleted t criterion i) [0..<Suc b])"
      by (simp only: length_append le_add1)
    with False k have klt: "k < ?n'" by simp
    have s': "filter (\<lambda>i. \<not> deleted t criterion i) [0..<Suc b] = ?s @ [b]"
      using False by simp
    have 1: "take (Suc k) (np[k := ?f b]) = map ?f (?s @ [b])"
      using klt len tk by (simp add: take_Suc_conv_app_nth)
    have 2: "take (Suc k) (nm[k := b]) = ?s @ [b]"
      using klt len tk by (simp add: take_Suc_conv_app_nth)
    have "drop (Suc k) np = tl (drop k np)" by (simp add: drop_Suc tl_drop)
    also have "\<dots> = [Suc k..<?n']" using dr klt by (simp add: upt_conv_Cons del: upt_Suc)
    finally have 3: "drop (Suc k) (np[k := ?f b]) = [Suc k..<?n']" by simp
    show ?thesis
      unfolding res up_inv_def Let_def s' using len k 1 2 3 by (simp del: upt_Suc)
  qed
qed

lemma up_loop_inv:
  assumes "b \<le> length t - 1"
    and "up_inv t criterion (\<lambda>i. cp ! i - dmap ! (cp ! i)) 0 st"
  shows "up_inv t criterion (\<lambda>i. cp ! i - dmap ! (cp ! i)) b
           (fold (simplify_up_step t criterion cp dmap) [0..<b] st)"
  using assms
proof (induction b)
  case 0
  then show ?case by simp
next
  case (Suc b)
  then show ?case using up_inv_step[of b t criterion cp dmap] by simp
qed

text \<open>The two arrays \<open>simplify_tree\<close> computes, in closed form.\<close>

lemma simplify_tree_arrays:
  assumes ok: "tree_ok t"
  shows "simplify_tree t criterion =
     (case make_tree (map (\<lambda>i. new_index t criterion (surviving_parent t criterion i))
                        (survivors t criterion) @ [length (survivors t criterion)]) of
        Inl err \<Rightarrow> Inl err
      | Inr t' \<Rightarrow> Inr \<lparr>rm_tree = t', node_map = survivors t criterion @ [root t]\<rparr>)"
proof -
  obtain cp count dm where
    down: "fold (simplify_down_step t criterion) (root_to_leaves_inner t)
             (t, 0, replicate (length t) 0) = (cp, count, dm)"
    by (metis prod_cases3)
  have inv: "down_inv t criterion 0 (cp, count, dm)"
    using simplify_down_final[OF ok, of criterion] down by simp
  have ne: "t \<noteq> []" using ok by (simp add: tree_ok_def)
  have cnt: "count = length (filter (deleted t criterion) [0..<length t - 1])"
    using inv by (simp add: down_inv_def)
  let ?dmap = "map (\<lambda>d. count - d) dm"
  let ?f = "\<lambda>i. cp ! i - ?dmap ! (cp ! i)"
  let ?S = "survivors t criterion"
  let ?n' = "Suc (length ?S)"
  have n': "length t - count = ?n'"
    using length_survivors[OF ne, of criterion] cnt by simp
  obtain np nm k where
    up: "fold (simplify_up_step t criterion cp ?dmap) (leaves_to_root_no_root t)
           ([0..<?n'], replicate ?n' 0, 0) = (np, nm, k)"
    by (metis prod_cases3)
  have "up_inv t criterion ?f 0 ([0..<?n'], replicate ?n' 0, 0)"
    by (simp add: up_inv_def del: upt_Suc)
  from up_loop_inv[OF order_refl this] up
  have uinv: "up_inv t criterion ?f (length t - 1) (np, nm, k)"
    by (simp add: leaves_to_root_no_root_def)
  then have len: "length np = ?n'" "length nm = ?n'" and k: "k = length ?S"
    and tk: "take k np = map ?f ?S" "take k nm = ?S" and dr: "drop k np = [k..<?n']"
    by (auto simp: up_inv_def Let_def survivors_def simp del: upt_Suc)
  have "np = take k np @ drop k np" by simp
  also have "\<dots> = map ?f ?S @ [length ?S]"
    using tk dr k by simp
  finally have np: "np = map ?f ?S @ [length ?S]" .
  have "nm[k := root t] = take k nm @ root t # drop (Suc k) nm"
    using len k by (intro upd_conv_take_nth_drop) simp
  then have "nm[length nm - 1 := root t] = take k nm @ [root t]"
    using len k by simp
  then have nm: "nm[length nm - 1 := root t] = ?S @ [root t]"
    using tk by simp
  have f: "?f i = new_index t criterion (surviving_parent t criterion i)" if "i \<in> set ?S" for i
  proof -
    from that have i: "i < length t - 1" by (simp add: survivors_def)
    then have il: "i < length t" by simp
    note sp = surviving_parent_props[OF ok i, of criterion]
    have "cp ! i = surviving_parent t criterion i"
      by (rule down_inv_surviving_parent[OF ok inv il])
    moreover have "?dmap ! (surviving_parent t criterion i)
        = length (filter (deleted t criterion) [0..<surviving_parent t criterion i])"
      using sp by (intro down_inv_deleted_map[OF inv]) auto
    ultimately show ?thesis by (simp add: new_index_diff)
  qed
  have np2: "np = map (\<lambda>i. new_index t criterion (surviving_parent t criterion i)) ?S
                   @ [length ?S]"
    unfolding np using f by simp
  show ?thesis
    unfolding simplify_tree_def Let_def down prod.case n' up nm
    unfolding np2 by (rule refl)
qed


subsection \<open>New indices\<close>

lemma new_index_mono: "i \<le> j \<Longrightarrow> new_index t criterion i \<le> new_index t criterion j"
proof -
  assume "i \<le> j"
  then have "[0..<j] = [0..<i] @ [i..<j]"
    by (intro upt_split) simp_all
  then have "filter (\<lambda>k. \<not> deleted t criterion k) [0..<j] =
      filter (\<lambda>k. \<not> deleted t criterion k) [0..<i] @
      filter (\<lambda>k. \<not> deleted t criterion k) [i..<j]"
    by (simp only: filter_append)
  then show ?thesis unfolding new_index_def by (simp only: length_append le_add1)
qed

lemma new_index_Suc:
  "new_index t criterion (Suc i) =
     (if deleted t criterion i then new_index t criterion i else Suc (new_index t criterion i))"
  by (simp add: new_index_def)

lemma new_index_less:
  assumes "i < j" "\<not> deleted t criterion i"
  shows "new_index t criterion i < new_index t criterion j"
proof -
  have "new_index t criterion i < new_index t criterion (Suc i)"
    using assms(2) by (simp add: new_index_Suc)
  also have "\<dots> \<le> new_index t criterion j"
    using assms(1) by (intro new_index_mono) simp
  finally show ?thesis .
qed

lemma new_index_root: "new_index t criterion (length t - 1) = length (survivors t criterion)"
  by (simp add: new_index_def survivors_def)

lemma survivors_nth_new_index:
  assumes "i < length t - 1" "\<not> deleted t criterion i"
  shows "new_index t criterion i < length (survivors t criterion) \<and>
         survivors t criterion ! new_index t criterion i = i"
proof -
  have "[0..<length t - 1] = [0..<i] @ [i..<length t - 1]"
    using assms(1) by (intro upt_split) simp_all
  also have "[i..<length t - 1] = i # [Suc i..<length t - 1]"
    using assms(1) by (rule upt_conv_Cons)
  finally have "survivors t criterion =
      filter (\<lambda>k. \<not> deleted t criterion k) [0..<i] @
      i # filter (\<lambda>k. \<not> deleted t criterion k) [Suc i..<length t - 1]"
    unfolding survivors_def using assms(2) by simp
  then show ?thesis
    unfolding new_index_def by (simp add: nth_append)
qed

lemma survivors_props:
  assumes "j < length (survivors t criterion)"
  shows "survivors t criterion ! j < length t - 1 \<and>
         \<not> deleted t criterion (survivors t criterion ! j) \<and>
         new_index t criterion (survivors t criterion ! j) = j"
proof -
  let ?S = "survivors t criterion"
  have "?S ! j \<in> set ?S" using assms by simp
  then have a: "?S ! j < length t - 1" "\<not> deleted t criterion (?S ! j)"
    by (auto simp: survivors_def)
  from survivors_nth_new_index[OF a]
  have b: "new_index t criterion (?S ! j) < length ?S"
    "?S ! new_index t criterion (?S ! j) = ?S ! j" by auto
  have "distinct ?S" by (simp add: survivors_def)
  with b assms have "new_index t criterion (?S ! j) = j"
    by (simp add: nth_eq_iff_index_eq)
  with a show ?thesis by simp
qed

text \<open>On a valid tree \<open>simplify_tree\<close> succeeds, with a valid tree.\<close>

definition simplified_parents :: "tree \<Rightarrow> (nat \<Rightarrow> bool) \<Rightarrow> nat list" where
  "simplified_parents t criterion =
     map (\<lambda>i. new_index t criterion (surviving_parent t criterion i)) (survivors t criterion)
     @ [length (survivors t criterion)]"

lemma simplified_parents_ok:
  assumes ok: "tree_ok t"
  shows "tree_ok (simplified_parents t criterion)"
proof -
  let ?S = "survivors t criterion"
  let ?np = "simplified_parents t criterion"
  have len: "length ?np = Suc (length ?S)" by (simp add: simplified_parents_def)
  have last: "?np ! (length ?np - 1) = length ?np - 1"
    unfolding len by (simp add: simplified_parents_def nth_append)
  have "j < ?np ! j \<and> ?np ! j < length ?np" if j: "j < length ?np - 1" for j
  proof -
    from j len have jS: "j < length ?S" by simp
    let ?i = "?S ! j"
    note sv = survivors_props[OF jS]
    note sp = surviving_parent_props[OF ok, of ?i criterion]
    have npj: "?np ! j = new_index t criterion (surviving_parent t criterion ?i)"
      using jS by (simp add: simplified_parents_def nth_append)
    have "new_index t criterion ?i < new_index t criterion (surviving_parent t criterion ?i)"
      using sv sp by (intro new_index_less) auto
    moreover have "new_index t criterion (surviving_parent t criterion ?i)
        \<le> new_index t criterion (length t - 1)"
      using sv sp by (intro new_index_mono) auto
    ultimately have "j < new_index t criterion (surviving_parent t criterion ?i)"
      "new_index t criterion (surviving_parent t criterion ?i) \<le> length ?S"
      using sv unfolding new_index_root by simp_all
    then show ?thesis unfolding npj len by simp
  qed
  with last show ?thesis unfolding tree_ok_def using len by auto
qed

lemma simplify_tree_ok:
  assumes ok: "tree_ok t"
  shows "simplify_tree t criterion =
     Inr \<lparr>rm_tree = simplified_parents t criterion,
          node_map = survivors t criterion @ [root t]\<rparr>"
  using simplified_parents_ok[OF ok, of criterion]
  unfolding simplify_tree_arrays[OF ok] simplified_parents_def[symmetric]
  by (simp add: make_tree_def)

text \<open>
  Claim C10. On every tree and for every criterion \<open>simplify_tree\<close> keeps the root: it
  returns a valid tree, whose root is its last node, the node map has one entry per node
  and its last entry is the root of the input, whatever the criterion says about the
  root. The plateau criterion of \<open>quasi_flat_zones_hierarchy\<close> is true at the root, for
  every altitude vector, since the root is its own parent.
\<close>

theorem simplify_tree_keeps_root:
  assumes ok: "tree_ok t"
  shows "\<exists>r. simplify_tree t criterion = Inr r \<and>
              tree_ok (rm_tree r) \<and>
              length (node_map r) = length (rm_tree r) \<and>
              last (node_map r) = root t \<and>
              node_map r ! root (rm_tree r) = root t \<and>
              rm_tree r ! root (rm_tree r) = root (rm_tree r) \<and>
              alts ! root t = propagate_parallel t alts ! root t"
proof -
  let ?r = "\<lparr>rm_tree = simplified_parents t criterion,
             node_map = survivors t criterion @ [root t]\<rparr>"
  have 1: "simplify_tree t criterion = Inr ?r" by (rule simplify_tree_ok[OF ok])
  have 2: "tree_ok (rm_tree ?r)" using simplified_parents_ok[OF ok] by simp
  have 3: "length (node_map ?r) = length (rm_tree ?r)"
    by (simp add: simplified_parents_def)
  have 4: "last (node_map ?r) = root t" by simp
  have 5: "node_map ?r ! root (rm_tree ?r) = root t"
    by (simp add: root_def simplified_parents_def nth_append)
  have 6: "rm_tree ?r ! root (rm_tree ?r) = root (rm_tree ?r)"
    using 2 by (simp add: tree_ok_def root_def)
  have "root t < length t" "t ! root t = root t"
    using ok by (auto simp: tree_ok_def root_def)
  then have 7: "alts ! root t = propagate_parallel t alts ! root t"
    by (simp add: propagate_parallel_def)
  from 1 2 3 4 5 6 7 show ?thesis by blast
qed

theorem simplify_tree_keeps_root_witness:
  "simplify_tree [5, 5, 6, 6, 6, 7, 7, 7] (\<lambda>i. True)
     = Inr \<lparr>rm_tree = [5, 5, 5, 5, 5, 5], node_map = [0, 1, 2, 3, 4, 7]\<rparr>"
proof -
  have ok: "tree_ok [5, 5, 6, 6, 6, 7, 7, 7]"
    unfolding tree_ok_def by (simp add: nth_Cons' less_Suc_eq)
  from simplify_tree_keeps_root[OF ok, of "\<lambda>i. True"] obtain r where
    "simplify_tree [5, 5, 6, 6, 6, 7, 7, 7] (\<lambda>i. True) = Inr r" by blast
  moreover have "simplify_tree [5, 5, 6, 6, 6, 7, 7, 7] (\<lambda>i. True)
     = Inr \<lparr>rm_tree = [5, 5, 5, 5, 5, 5], node_map = [0, 1, 2, 3, 4, 7]\<rparr>"
    by code_simp
  ultimately show ?thesis by simp
qed

text \<open>
  Claim C6. On every tree: with a criterion that is false on every inner node
  (the root apart, which is never asked) \<open>simplify_tree\<close> returns the same parent vector
  and the identity node map; with a criterion that is true on every inner node other
  than the root it returns a tree that has the leaves of the input and one root, the
  parent of every leaf.
\<close>

theorem simplify_tree_never_always:
  assumes ok: "tree_ok t"
  shows "((\<forall>i < length t - 1. \<not> is_leaf i t \<longrightarrow> \<not> criterion i) \<longrightarrow>
            simplify_tree t criterion = Inr \<lparr>rm_tree = t, node_map = [0..<length t]\<rparr>) \<and>
         ((\<forall>i < length t - 1. \<not> is_leaf i t \<longrightarrow> criterion i) \<longrightarrow>
            (let leaves = filter (\<lambda>i. is_leaf i t) [0..<length t - 1] in
             simplify_tree t criterion =
               Inr \<lparr>rm_tree = replicate (Suc (length leaves)) (length leaves),
                    node_map = leaves @ [root t]\<rparr>))"
proof (intro conjI impI)
  assume never: "\<forall>i < length t - 1. \<not> is_leaf i t \<longrightarrow> \<not> criterion i"
  then have nd: "\<not> deleted t criterion i" for i by (auto simp: deleted_def)
  have S: "survivors t criterion = [0..<length t - 1]"
    by (simp add: survivors_def nd)
  have ni: "new_index t criterion j = j" for j by (simp add: new_index_def nd)
  have sp: "surviving_parent t criterion i = t ! i" for i
    by (subst surviving_parent.simps) (simp add: nd)
  have ne: "t \<noteq> []" and rt: "t ! (length t - 1) = length t - 1"
    using ok by (auto simp: tree_ok_def)
  have "t = map (\<lambda>i. t ! i) [0..<length t]" by (simp add: map_nth)
  also have "[0..<length t] = [0..<length t - 1] @ [length t - 1]"
    using ne upt_Suc_append[of 0 "length t - 1"] by simp
  finally have "t = map (\<lambda>i. t ! i) [0..<length t - 1] @ [length t - 1]"
    using rt by simp
  then have np: "simplified_parents t criterion = t"
    by (simp add: simplified_parents_def S ni sp)
  have "[0..<length t - 1] @ [root t] = [0..<length t]"
    using ne upt_Suc_append[of 0 "length t - 1"] by (simp add: root_def)
  then show "simplify_tree t criterion = Inr \<lparr>rm_tree = t, node_map = [0..<length t]\<rparr>"
    unfolding simplify_tree_ok[OF ok] np S by simp
next
  assume always: "\<forall>i < length t - 1. \<not> is_leaf i t \<longrightarrow> criterion i"
  then have del: "deleted t criterion i \<longleftrightarrow> i < length t - 1 \<and> \<not> is_leaf i t" for i
    by (auto simp: deleted_def)
  let ?leaves = "filter (\<lambda>i. is_leaf i t) [0..<length t - 1]"
  have S: "survivors t criterion = ?leaves"
    unfolding survivors_def by (rule filter_cong) (auto simp: del)
  have sp: "new_index t criterion (surviving_parent t criterion i) = length ?leaves"
    if "i \<in> set ?leaves" for i
  proof -
    from that have i: "i < length t - 1" by simp
    from surviving_parent_props[OF ok i, of criterion]
    have "surviving_parent t criterion i = length t - 1"
      unfolding del by auto
    then show ?thesis using new_index_root[of t criterion] S by simp
  qed
  have "map (\<lambda>i. new_index t criterion (surviving_parent t criterion i)) ?leaves
      = map (\<lambda>i. length ?leaves) ?leaves"
    by (rule map_cong[OF refl]) (rule sp)
  also have "\<dots> = replicate (length ?leaves) (length ?leaves)"
    by (rule map_replicate_const)
  finally have "map (\<lambda>i. new_index t criterion (surviving_parent t criterion i)) ?leaves
      = replicate (length ?leaves) (length ?leaves)" .
  then have np: "simplified_parents t criterion
      = replicate (Suc (length ?leaves)) (length ?leaves)"
    unfolding simplified_parents_def S by (simp add: replicate_append_same)
  show "let leaves = ?leaves in
        simplify_tree t criterion =
          Inr \<lparr>rm_tree = replicate (Suc (length leaves)) (length leaves),
               node_map = leaves @ [root t]\<rparr>"
    unfolding Let_def simplify_tree_ok[OF ok] np S by simp
qed

theorem simplify_tree_never_always_witness:
  "simplify_tree [5, 5, 6, 6, 6, 7, 7, 7] (\<lambda>i. False)
     = Inr \<lparr>rm_tree = [5, 5, 6, 6, 6, 7, 7, 7], node_map = [0, 1, 2, 3, 4, 5, 6, 7]\<rparr> \<and>
   simplify_tree [5, 5, 6, 6, 6, 7, 7, 7] (\<lambda>i. 5 \<le> i \<and> i < 7)
     = Inr \<lparr>rm_tree = [5, 5, 5, 5, 5, 5], node_map = [0, 1, 2, 3, 4, 7]\<rparr>"
proof -
  let ?t = "[5, 5, 6, 6, 6, 7, 7, 7::nat]"
  have ok: "tree_ok ?t"
    unfolding tree_ok_def by (simp add: nth_Cons' less_Suc_eq)
  have leaf: "is_leaf i ?t \<longleftrightarrow> i < 5" if "i < 7" for i
  proof -
    from that have "i \<in> {0, 1, 2, 3, 4, 5, 6}" by auto
    then show ?thesis by (auto simp: is_leaf_def children_def upt_rec nth_Cons')
  qed
  have never: "\<forall>i < length ?t - 1. \<not> is_leaf i ?t \<longrightarrow> \<not> (\<lambda>i. False) i" by simp
  have always: "\<forall>i < length ?t - 1. \<not> is_leaf i ?t \<longrightarrow> (\<lambda>i. 5 \<le> i \<and> i < 7) i"
    using leaf by auto
  have leaves: "filter (\<lambda>i. is_leaf i ?t) [0..<length ?t - 1] = [0, 1, 2, 3, 4]"
    by code_simp
  from simplify_tree_never_always[OF ok, of "\<lambda>i. False"] never
  have 1: "simplify_tree ?t (\<lambda>i. False) = Inr \<lparr>rm_tree = ?t, node_map = [0..<length ?t]\<rparr>"
    by blast
  from simplify_tree_never_always[OF ok, of "\<lambda>i. 5 \<le> i \<and> i < 7"] always
  have 2: "simplify_tree ?t (\<lambda>i. 5 \<le> i \<and> i < 7) =
       Inr \<lparr>rm_tree = replicate (Suc (length [0, 1, 2, 3, 4::nat])) (length [0, 1, 2, 3, 4::nat]),
            node_map = [0, 1, 2, 3, 4] @ [root ?t]\<rparr>"
    unfolding Let_def leaves by blast
  have 3: "[0..<length ?t] = [0, 1, 2, 3, 4, 5, 6, 7]" by (simp add: upt_rec)
  have 4: "replicate (Suc (length [0, 1, 2, 3, 4::nat])) (length [0, 1, 2, 3, 4::nat])
       = [5, 5, 5, 5, 5, 5]" by (simp add: numeral_eq_Suc)
  show ?thesis unfolding 1 2 3 4 by (simp add: root_def)
qed

section \<open>Properties of the union-find structure\<close>

text \<open>The representative of an element: the last element of its walk.\<close>

definition uf_rep :: "nat list \<Rightarrow> nat \<Rightarrow> nat option" where
  "uf_rep p x = map_option last (uf_walk p x)"

text \<open>Every walk ends: the parent vector is a forest.\<close>

definition uf_ok :: "nat list \<Rightarrow> bool" where
  "uf_ok p = (\<forall>x < length p. uf_walk p x \<noteq> None)"

lemma uf_walk_Some_iff:
  "uf_walk p x = Some ys \<longleftrightarrow>
     x < length p \<and>
     (p ! x = x \<and> ys = [x] \<or>
      p ! x \<noteq> x \<and> (\<exists>zs. uf_walk p (p ! x) = Some zs \<and> ys = x # zs))"
  by (subst uf_walk.simps) (auto simp: bind_eq_Some_conv)

lemma uf_walk_root: "x < length p \<Longrightarrow> p ! x = x \<Longrightarrow> uf_walk p x = Some [x]"
  unfolding uf_walk_Some_iff[of p x] by simp

lemma uf_walk_props:
  "uf_walk p x = Some ys \<Longrightarrow>
     ys \<noteq> [] \<and> hd ys = x \<and> p ! (last ys) = last ys \<and> (\<forall>y \<in> set ys. y < length p)"
proof (induction ys arbitrary: x)
  case Nil
  then show ?case unfolding uf_walk_Some_iff[of p x] by simp
next
  case (Cons y ys)
  from Cons.prems show ?case
    unfolding uf_walk_Some_iff[of p x] using Cons.IH by fastforce
qed

lemma uf_walk_suffix:
  "uf_walk p x = Some ys \<Longrightarrow> y \<in> set ys \<Longrightarrow>
     \<exists>zs. uf_walk p y = Some zs \<and> last zs = last ys"
proof (induction ys arbitrary: x)
  case Nil
  then show ?case by simp
next
  case (Cons a ys)
  from Cons.prems(1) have ax: "a = x" and
    c: "p ! x = x \<and> ys = [] \<or> p ! x \<noteq> x \<and> uf_walk p (p ! x) = Some ys"
    unfolding uf_walk_Some_iff[of p x] by auto
  show ?case
  proof (cases "y = a")
    case True
    with Cons.prems(1) ax show ?thesis by auto
  next
    case False
    with Cons.prems(2) have y: "y \<in> set ys" by simp
    with c have w: "uf_walk p (p ! x) = Some ys" by auto
    from uf_walk_props[OF w] have "ys \<noteq> []" by simp
    with Cons.IH[OF w y] show ?thesis by simp
  qed
qed

lemma uf_rep_eq: "uf_rep p x = Some r \<longleftrightarrow> (\<exists>ys. uf_walk p x = Some ys \<and> last ys = r)"
  by (auto simp: uf_rep_def)

lemma uf_rep_Some_iff:
  "uf_rep p x = Some r \<longleftrightarrow>
     x < length p \<and> (p ! x = x \<and> r = x \<or> p ! x \<noteq> x \<and> uf_rep p (p ! x) = Some r)"
proof
  assume "uf_rep p x = Some r"
  then obtain ys where w: "uf_walk p x = Some ys" and l: "last ys = r"
    unfolding uf_rep_eq by blast
  from w have x: "x < length p" and
    c: "p ! x = x \<and> ys = [x] \<or>
        p ! x \<noteq> x \<and> (\<exists>zs. uf_walk p (p ! x) = Some zs \<and> ys = x # zs)"
    unfolding uf_walk_Some_iff[of p x] by blast+
  from c show "x < length p \<and>
      (p ! x = x \<and> r = x \<or> p ! x \<noteq> x \<and> uf_rep p (p ! x) = Some r)"
  proof
    assume "p ! x = x \<and> ys = [x]"
    with l x show ?thesis by simp
  next
    assume "p ! x \<noteq> x \<and> (\<exists>zs. uf_walk p (p ! x) = Some zs \<and> ys = x # zs)"
    then obtain zs where ne: "p ! x \<noteq> x" and z: "uf_walk p (p ! x) = Some zs" "ys = x # zs"
      by blast
    from uf_walk_props[OF z(1)] have "zs \<noteq> []" by simp
    with l z(2) have "last zs = r" by simp
    with z(1) have "uf_rep p (p ! x) = Some r" unfolding uf_rep_eq by blast
    with ne x show ?thesis by simp
  qed
next
  assume a: "x < length p \<and>
      (p ! x = x \<and> r = x \<or> p ! x \<noteq> x \<and> uf_rep p (p ! x) = Some r)"
  then have x: "x < length p" by simp
  from a have "p ! x = x \<and> r = x \<or> p ! x \<noteq> x \<and> uf_rep p (p ! x) = Some r" by simp
  then show "uf_rep p x = Some r"
  proof
    assume "p ! x = x \<and> r = x"
    with x uf_walk_root[of x p] show ?thesis unfolding uf_rep_eq by simp
  next
    assume b: "p ! x \<noteq> x \<and> uf_rep p (p ! x) = Some r"
    then obtain zs where z: "uf_walk p (p ! x) = Some zs" "last zs = r"
      unfolding uf_rep_eq by blast
    from uf_walk_props[OF z(1)] have "zs \<noteq> []" by simp
    with z(2) have "last (x # zs) = r" by simp
    moreover have "uf_walk p x = Some (x # zs)"
      unfolding uf_walk_Some_iff[of p x] using x b z(1) by simp
    ultimately show ?thesis unfolding uf_rep_eq by blast
  qed
qed

lemma uf_rep_root:
  "uf_rep p x = Some r \<Longrightarrow> r < length p \<and> p ! r = r \<and> uf_rep p r = Some r"
proof -
  assume "uf_rep p x = Some r"
  then obtain ys where w: "uf_walk p x = Some ys" and l: "last ys = r"
    unfolding uf_rep_eq by blast
  from uf_walk_props[OF w] l have "r < length p" "p ! r = r"
    by (auto simp: last_in_set)
  then show ?thesis
    unfolding uf_rep_Some_iff[of p r] by simp
qed

text \<open>An induction principle over the walks that end.\<close>

lemma uf_rep_induct [consumes 1, case_names root step]:
  assumes "uf_rep p x = Some r"
    and "\<And>x. x < length p \<Longrightarrow> p ! x = x \<Longrightarrow> P x x"
    and "\<And>x r. x < length p \<Longrightarrow> p ! x \<noteq> x \<Longrightarrow> uf_rep p (p ! x) = Some r \<Longrightarrow>
            P (p ! x) r \<Longrightarrow> P x r"
  shows "P x r"
proof -
  from assms(1) obtain ys where w: "uf_walk p x = Some ys" and l: "last ys = r"
    unfolding uf_rep_eq by blast
  from w l show ?thesis
  proof (induction ys arbitrary: x)
    case Nil
    then show ?case unfolding uf_walk_Some_iff[of p x] by simp
  next
    case (Cons a ys)
    from Cons.prems(1) have x: "x < length p" and
      c: "p ! x = x \<and> ys = [] \<or> p ! x \<noteq> x \<and> uf_walk p (p ! x) = Some ys"
      unfolding uf_walk_Some_iff[of p x] by auto
    from c show ?case
    proof
      assume b: "p ! x = x \<and> ys = []"
      with Cons.prems(1) x have "a = x"
        unfolding uf_walk_Some_iff[of p x] by simp
      with b Cons.prems(2) have "r = x" by simp
      with b x assms(2)[of x] show ?thesis by simp
    next
      assume a: "p ! x \<noteq> x \<and> uf_walk p (p ! x) = Some ys"
      then have ne: "ys \<noteq> []" using uf_walk_props by blast
      with Cons.prems(2) have l: "last ys = r" by simp
      from a l have "uf_rep p (p ! x) = Some r" unfolding uf_rep_eq by blast
      with assms(3)[of x r] x a Cons.IH[of "p ! x"] l show ?thesis by simp
    qed
  qed
qed

text \<open>Path compression: pointing an element to its representative changes no
  representative.\<close>

lemma uf_rep_compress:
  assumes y: "uf_rep p y = Some r"
    and x: "uf_rep p x = Some s"
  shows "uf_rep (p[y := r]) x = Some s"
  using x
proof (induction rule: uf_rep_induct)
  case (root x)
  have "p[y := r] ! x = x"
  proof (cases "x = y")
    case True
    from y root True have "r = x" unfolding uf_rep_Some_iff[of p y] by simp
    with True root show ?thesis by simp
  next
    case False
    with root show ?thesis by simp
  qed
  with root show ?case unfolding uf_rep_Some_iff[of "p[y := r]" x] by simp
next
  case (step x s)
  show ?case
  proof (cases "x = y")
    case True
    have "uf_rep p x = Some s"
      unfolding uf_rep_Some_iff[of p x] using step by simp
    with y True have rs: "r = s" by simp
    from uf_rep_root[OF y] have r: "r < length p" "p ! r = r" by auto
    with step True have "r \<noteq> y" by auto
    with r have "uf_rep (p[y := r]) r = Some r"
      unfolding uf_rep_Some_iff[of "p[y := r]" r] by simp
    moreover have "p[y := r] ! x = r" "r \<noteq> x" using True step \<open>r \<noteq> y\<close> by auto
    ultimately show ?thesis using step rs
      unfolding uf_rep_Some_iff[of "p[y := r]" x] by simp
  next
    case False
    with step show ?thesis unfolding uf_rep_Some_iff[of "p[y := r]" x] by simp
  qed
qed

lemma uf_ok_rep: "uf_ok p \<Longrightarrow> x < length p \<Longrightarrow> \<exists>r. uf_rep p x = Some r"
  unfolding uf_ok_def uf_rep_eq by fastforce

lemma uf_okI: "(\<And>x. x < length p \<Longrightarrow> \<exists>r. uf_rep p x = Some r) \<Longrightarrow> uf_ok p"
  unfolding uf_ok_def uf_rep_eq by fastforce

lemma uf_compress_fold:
  assumes "\<forall>y \<in> set path. uf_rep p y = Some r"
  shows "length (uf_compress path r p) = length p \<and>
         (\<forall>x s. uf_rep p x = Some s \<longrightarrow> uf_rep (uf_compress path r p) x = Some s)"
  using assms
proof (induction path arbitrary: p)
  case Nil
  then show ?case by (simp add: uf_compress_def)
next
  case (Cons y path)
  let ?q = "p[y := r]"
  from Cons.prems have y: "uf_rep p y = Some r" by simp
  have keep: "uf_rep ?q x = Some s" if "uf_rep p x = Some s" for x s
    using uf_rep_compress[OF y that] .
  with Cons.prems have "\<forall>z \<in> set path. uf_rep ?q z = Some r" by simp
  from Cons.IH[OF this] keep show ?case
    by (simp add: uf_compress_def)
qed

text \<open>\<open>find\<close> returns the representative and changes no representative.\<close>

lemma uf_find_correct:
  assumes "uf_ok (uf_parent u)" and "x < length (uf_parent u)"
  shows "\<exists>r u'. uf_find u x = Some (r, u') \<and> uf_rep (uf_parent u) x = Some r \<and>
           uf_rank u' = uf_rank u \<and>
           length (uf_parent u') = length (uf_parent u) \<and> uf_ok (uf_parent u') \<and>
           (\<forall>z < length (uf_parent u). uf_rep (uf_parent u') z = uf_rep (uf_parent u) z)"
proof -
  let ?p = "uf_parent u"
  from assms obtain path where w: "uf_walk ?p x = Some path"
    by (auto simp: uf_ok_def)
  let ?r = "last path"
  let ?p' = "uf_compress path ?r ?p"
  have "\<forall>y \<in> set path. uf_rep ?p y = Some ?r"
    using uf_walk_suffix[OF w] unfolding uf_rep_eq by blast
  from uf_compress_fold[OF this]
  have len: "length ?p' = length ?p"
    and keep: "\<And>x s. uf_rep ?p x = Some s \<Longrightarrow> uf_rep ?p' x = Some s" by auto
  have same: "uf_rep ?p' z = uf_rep ?p z" if "z < length ?p" for z
    using uf_ok_rep[OF assms(1) that] keep by auto
  then have "uf_ok ?p'"
    using uf_ok_rep[OF assms(1)] len by (intro uf_okI) auto
  moreover have "uf_rep ?p x = Some ?r" unfolding uf_rep_eq using w by blast
  ultimately show ?thesis using w len same
    by (simp add: uf_find_def)
qed

text \<open>\<open>link\<close> of two distinct roots merges their classes.\<close>

lemma uf_rep_link:
  assumes i: "i < length p" "p ! i = i" and j: "j < length p" "p ! j = j" and ne: "i \<noteq> j"
    and x: "uf_rep p x = Some s"
  shows "uf_rep (p[i := j]) x = Some (if s = i then j else s)"
  using x
proof (induction rule: uf_rep_induct)
  case (root x)
  show ?case
  proof (cases "x = i")
    case True
    have "uf_rep (p[i := j]) j = Some j"
      using j ne unfolding uf_rep_Some_iff[of "p[i := j]" j] by simp
    then have "uf_rep (p[i := j]) i = Some j"
      unfolding uf_rep_Some_iff[of "p[i := j]" i] using i ne by simp
    with True show ?thesis by simp
  next
    case False
    with root show ?thesis unfolding uf_rep_Some_iff[of "p[i := j]" x] by simp
  qed
next
  case (step x s)
  then have "x \<noteq> i" using i by auto
  with step show ?case unfolding uf_rep_Some_iff[of "p[i := j]" x] by simp
qed

lemma uf_link_correct:
  assumes ok: "uf_ok (uf_parent u)"
    and i: "i < length (uf_parent u)" "uf_parent u ! i = i"
    and j: "j < length (uf_parent u)" "uf_parent u ! j = j" and ne: "i \<noteq> j"
  shows "\<exists>k u'. uf_link u i j = (k, u') \<and> (k = i \<or> k = j) \<and>
           length (uf_parent u') = length (uf_parent u) \<and> uf_ok (uf_parent u') \<and>
           (\<forall>z < length (uf_parent u). \<forall>s. uf_rep (uf_parent u) z = Some s \<longrightarrow>
              uf_rep (uf_parent u') z = Some (if s = i \<or> s = j then k else s))"
proof (cases "uf_rank u ! j < uf_rank u ! i")
  case True
  let ?p' = "(uf_parent u)[j := i]"
  have rep: "uf_rep ?p' z = Some (if s = i \<or> s = j then i else s)"
    if "uf_rep (uf_parent u) z = Some s" for z s
    using uf_rep_link[OF j i ne[symmetric] that] by auto
  then have "uf_ok ?p'"
    using uf_ok_rep[OF ok] by (intro uf_okI) fastforce
  with True rep show ?thesis by (simp add: uf_link_def)
next
  case False
  let ?p' = "(uf_parent u)[i := j]"
  have rep: "uf_rep ?p' z = Some (if s = i \<or> s = j then j else s)"
    if "uf_rep (uf_parent u) z = Some s" for z s
    using uf_rep_link[OF i j ne that] by auto
  then have "uf_ok ?p'"
    using uf_ok_rep[OF ok] by (intro uf_okI) fastforce
  with False rep show ?thesis by (simp add: uf_link_def)
qed

lemma uf_init_ok: "uf_ok (uf_parent (uf_init n)) \<and> length (uf_parent (uf_init n)) = n \<and>
    (\<forall>x < n. uf_rep (uf_parent (uf_init n)) x = Some x)"
proof -
  have rep: "uf_rep [0..<n] x = Some x" if "x < n" for x
    unfolding uf_rep_Some_iff[of "[0..<n]" x] using that by simp
  then have "uf_ok [0..<n]" by (intro uf_okI) auto
  with rep show ?thesis by (simp add: uf_init_def)
qed

section \<open>Connectivity, components and spanning trees\<close>

text \<open>
  The vertices \<open>u\<close> and \<open>v\<close> are connected by the edges whose ids are in \<open>S\<close>: there
  is a path from \<open>u\<close> to \<open>v\<close> that uses those edges only, in either direction.
\<close>

definition adj :: "graph \<Rightarrow> nat set \<Rightarrow> (nat \<times> nat) set" where
  "adj g S = {(u, v). \<exists>e \<in> S. e < num_edges g \<and>
                (edge_list g ! e = (u, v) \<or> edge_list g ! e = (v, u))}"

definition conn :: "graph \<Rightarrow> nat set \<Rightarrow> (nat \<times> nat) set" where
  "conn g S = (adj g S)\<^sup>*"

text \<open>The number of connected components of the vertices under the edges in \<open>S\<close>.\<close>

definition comps :: "graph \<Rightarrow> nat set \<Rightarrow> nat" where
  "comps g S = card ((\<lambda>v. conn g S `` {v}) ` {..<num_vertices g})"

text \<open>A connected graph has a vertex, and a path between any two vertices.\<close>

definition connected_graph :: "graph \<Rightarrow> bool" where
  "connected_graph g =
     (0 < num_vertices g \<and>
      (\<forall>u < num_vertices g. \<forall>v < num_vertices g. (u, v) \<in> conn g {..<num_edges g}))"

lemma adj_sym: "(u, v) \<in> adj g S \<Longrightarrow> (v, u) \<in> adj g S"
  by (auto simp: adj_def)

lemma conn_refl [simp]: "(u, u) \<in> conn g S"
  by (simp add: conn_def)

lemma conn_sym: "(u, v) \<in> conn g S \<Longrightarrow> (v, u) \<in> conn g S"
  unfolding conn_def
proof (induction rule: rtrancl_induct)
  case base
  then show ?case by simp
next
  case (step y z)
  from step(2) have "(z, y) \<in> adj g S" by (rule adj_sym)
  from this step(3) show ?case by (rule converse_rtrancl_into_rtrancl)
qed

lemma conn_trans: "(u, v) \<in> conn g S \<Longrightarrow> (v, x) \<in> conn g S \<Longrightarrow> (u, x) \<in> conn g S"
  unfolding conn_def by (rule rtrancl_trans)

lemma adj_mono: "S \<subseteq> S' \<Longrightarrow> adj g S \<subseteq> adj g S'"
  by (auto simp: adj_def)

lemma conn_mono: "S \<subseteq> S' \<Longrightarrow> conn g S \<subseteq> conn g S'"
  unfolding conn_def by (intro rtrancl_mono adj_mono)

lemma conn_edge:
  "e \<in> S \<Longrightarrow> e < num_edges g \<Longrightarrow> (source (edge_list g ! e), target (edge_list g ! e)) \<in> conn g S"
  unfolding conn_def
  by (rule r_into_rtrancl) (auto simp: adj_def source_def target_def)

lemma conn_in_range:
  assumes "graph_ok g" "(u, v) \<in> conn g S" "u < num_vertices g"
  shows "v < num_vertices g"
  using assms(2,3) unfolding conn_def
proof (induction rule: rtrancl_induct)
  case base
  then show ?case by simp
next
  case (step y z)
  from step(2) obtain e where "e < num_edges g"
    "edge_list g ! e = (y, z) \<or> edge_list g ! e = (z, y)"
    by (auto simp: adj_def)
  moreover from this assms(1) have
    "source (edge_list g ! e) < num_vertices g \<and> target (edge_list g ! e) < num_vertices g"
    by (auto simp: graph_ok_def list_all_length num_edges_def)
  ultimately show ?case by (auto simp: source_def target_def)
qed

text \<open>Adding one edge joins the classes of its endpoints and nothing else.\<close>

lemma conn_insert:
  assumes e: "e < num_edges g" and ab: "edge_list g ! e = (a, b)"
  shows "(u, v) \<in> conn g (insert e S) \<longleftrightarrow>
           (u, v) \<in> conn g S \<or>
           (u, a) \<in> conn g S \<and> (b, v) \<in> conn g S \<or>
           (u, b) \<in> conn g S \<and> (a, v) \<in> conn g S"
    (is "?L \<longleftrightarrow> ?R u v")
proof
  assume ?L
  then have "(u, v) \<in> (adj g (insert e S))\<^sup>*" by (simp add: conn_def)
  then show "?R u v"
  proof (induction rule: rtrancl_induct)
    case base
    then show ?case by simp
  next
    case (step y z)
    from step(2) consider "(y, z) \<in> adj g S" | "y = a" "z = b" | "y = b" "z = a"
      using ab by (auto simp: adj_def)
    then show ?case
    proof cases
      case 1
      then have yz: "(y, z) \<in> conn g S" by (simp add: conn_def)
      from step(3) show ?thesis
        using conn_trans[OF _ yz, of u] conn_trans[OF _ yz, of a] conn_trans[OF _ yz, of b]
        by blast
    next
      case 2
      from step(3) have "(u, a) \<in> conn g S \<or> (u, b) \<in> conn g S"
        unfolding 2 by blast
      then show ?thesis unfolding 2 by auto
    next
      case 3
      from step(3) have "(u, a) \<in> conn g S \<or> (u, b) \<in> conn g S"
        unfolding 3 by blast
      then show ?thesis unfolding 3 by auto
    qed
  qed
next
  assume r: "?R u v"
  have sub: "conn g S \<subseteq> conn g (insert e S)" by (rule conn_mono) auto
  have "(a, b) \<in> conn g (insert e S)"
    using conn_edge[of e "insert e S" g] e ab by (simp add: source_def target_def)
  then have abc: "(a, b) \<in> conn g (insert e S)" "(b, a) \<in> conn g (insert e S)"
    by (auto intro: conn_sym)
  from r show ?L
  proof (elim disjE conjE)
    assume "(u, v) \<in> conn g S"
    with sub show ?thesis by blast
  next
    assume "(u, a) \<in> conn g S" "(b, v) \<in> conn g S"
    with sub have "(u, a) \<in> conn g (insert e S)" "(b, v) \<in> conn g (insert e S)" by blast+
    with abc(1) show ?thesis using conn_trans by blast
  next
    assume "(u, b) \<in> conn g S" "(a, v) \<in> conn g S"
    with sub have "(u, b) \<in> conn g (insert e S)" "(a, v) \<in> conn g (insert e S)" by blast+
    with abc(2) show ?thesis using conn_trans by blast
  qed
qed

lemma conn_empty: "conn g {} = Id"
  by (simp add: conn_def adj_def)

lemma take_Suc_set: "i < length xs \<Longrightarrow> set (take (Suc i) xs) = insert (xs ! i) (set (take i xs))"
  by (simp add: take_Suc_conv_app_nth)

subsection \<open>Counting components\<close>

lemma conn_class_eq:
  "conn g S `` {u} = conn g S `` {v} \<longleftrightarrow> (u, v) \<in> conn g S"
proof
  assume "conn g S `` {u} = conn g S `` {v}"
  moreover have "v \<in> conn g S `` {v}" by simp
  ultimately have "v \<in> conn g S `` {u}" by simp
  then show "(u, v) \<in> conn g S" by simp
next
  assume uv: "(u, v) \<in> conn g S"
  show "conn g S `` {u} = conn g S `` {v}"
  proof (intro set_eqI iffI)
    fix x assume "x \<in> conn g S `` {u}"
    then have "(u, x) \<in> conn g S" by simp
    with conn_sym[OF uv] have "(v, x) \<in> conn g S" by (rule conn_trans)
    then show "x \<in> conn g S `` {v}" by simp
  next
    fix x assume "x \<in> conn g S `` {v}"
    then have "(v, x) \<in> conn g S" by simp
    with uv have "(u, x) \<in> conn g S" by (rule conn_trans)
    then show "x \<in> conn g S `` {u}" by simp
  qed
qed

lemma comps_empty: "comps g {} = num_vertices g"
proof -
  have "inj_on (\<lambda>v. conn g {} `` {v}) {..<num_vertices g}"
    by (auto simp: inj_on_def conn_empty)
  then show ?thesis by (simp add: comps_def card_image)
qed

lemma comps_pos: "0 < num_vertices g \<Longrightarrow> 0 < comps g S"
  by (auto simp: comps_def card_gt_0_iff)

lemma comps_one_iff:
  assumes "0 < num_vertices g"
  shows "comps g S = 1 \<longleftrightarrow>
         (\<forall>u < num_vertices g. \<forall>v < num_vertices g. (u, v) \<in> conn g S)"
proof
  assume "comps g S = 1"
  then have "card ((\<lambda>v. conn g S `` {v}) ` {..<num_vertices g}) = 1"
    by (simp only: comps_def)
  then obtain X where X: "(\<lambda>v. conn g S `` {v}) ` {..<num_vertices g} = {X}"
    by (rule card_1_singletonE)
  show "\<forall>u < num_vertices g. \<forall>v < num_vertices g. (u, v) \<in> conn g S"
  proof (intro allI impI)
    fix u v assume uv: "u < num_vertices g" "v < num_vertices g"
    have "conn g S `` {u} \<in> (\<lambda>v. conn g S `` {v}) ` {..<num_vertices g}"
      using uv(1) by blast
    then have 1: "conn g S `` {u} = X" unfolding X by simp
    have "conn g S `` {v} \<in> (\<lambda>v. conn g S `` {v}) ` {..<num_vertices g}"
      using uv(2) by blast
    then have 2: "conn g S `` {v} = X" unfolding X by simp
    from 1 2 have "conn g S `` {u} = conn g S `` {v}" by simp
    then show "(u, v) \<in> conn g S" by (simp only: conn_class_eq)
  qed
next
  assume all: "\<forall>u < num_vertices g. \<forall>v < num_vertices g. (u, v) \<in> conn g S"
  have "(\<lambda>v. conn g S `` {v}) ` {..<num_vertices g} = {conn g S `` {0}}"
  proof -
    have eq: "conn g S `` {v} = conn g S `` {0}" if "v < num_vertices g" for v
    proof -
      from all that assms have "(v, 0) \<in> conn g S" by blast
      then show ?thesis by (simp only: conn_class_eq)
    qed
    show ?thesis
    proof (intro set_eqI iffI)
      fix X assume "X \<in> (\<lambda>v. conn g S `` {v}) ` {..<num_vertices g}"
      then obtain v where v: "v < num_vertices g" "X = conn g S `` {v}" by blast
      from eq[OF v(1)] v(2) show "X \<in> {conn g S `` {0}}" by simp
    next
      fix X assume "X \<in> {conn g S `` {0}}"
      then have "X = conn g S `` {0}" by simp
      moreover have "0 \<in> {..<num_vertices g}" using assms by simp
      ultimately show "X \<in> (\<lambda>v. conn g S `` {v}) ` {..<num_vertices g}" by (rule image_eqI)
    qed
  qed
  then show "comps g S = 1" by (simp add: comps_def)
qed

lemma comps_insert:
  assumes ok: "graph_ok g" and e: "e < num_edges g" and ab: "edge_list g ! e = (a, b)"
  shows "comps g (insert e S) = (if (a, b) \<in> conn g S then comps g S else comps g S - 1)
         \<and> ((a, b) \<notin> conn g S \<longrightarrow> 2 \<le> comps g S)"
proof -
  let ?V = "{..<num_vertices g}"
  let ?cl = "\<lambda>v. conn g S `` {v}"
  let ?cl' = "\<lambda>v. conn g (insert e S) `` {v}"
  have abV: "a \<in> ?V" "b \<in> ?V"
    using ok e ab by (auto simp: graph_ok_def list_all_length num_edges_def source_def target_def)
  show ?thesis
  proof (cases "(a, b) \<in> conn g S")
    case True
    have "(u, v) \<in> conn g (insert e S) \<longleftrightarrow> (u, v) \<in> conn g S" for u v
    proof -
      have "(u, v) \<in> conn g S" if "(u, a) \<in> conn g S" "(b, v) \<in> conn g S"
        using conn_trans[OF conn_trans[OF that(1) True] that(2)] .
      moreover have "(u, v) \<in> conn g S" if "(u, b) \<in> conn g S" "(a, v) \<in> conn g S"
        using conn_trans[OF conn_trans[OF that(1) conn_sym[OF True]] that(2)] .
      ultimately show ?thesis unfolding conn_insert[OF e ab] by blast
    qed
    then have "conn g (insert e S) = conn g S" by auto
    with True show ?thesis by (simp add: comps_def)
  next
    case False
    have cl': "?cl' v = (if (v, a) \<in> conn g S \<or> (v, b) \<in> conn g S then ?cl a \<union> ?cl b else ?cl v)"
      for v
    proof (cases "(v, a) \<in> conn g S \<or> (v, b) \<in> conn g S")
      case True
      have "x \<in> ?cl' v \<longleftrightarrow> x \<in> ?cl a \<union> ?cl b" for x
      proof -
        from True have va: "(v, a) \<in> conn g S \<or> (v, b) \<in> conn g S" .
        have 1: "(v, x) \<in> conn g S \<Longrightarrow> (a, x) \<in> conn g S \<or> (b, x) \<in> conn g S"
          using va conn_trans[OF conn_sym, of v a g S x] conn_trans[OF conn_sym, of v b g S x]
          by blast
        have 2: "(a, x) \<in> conn g S \<Longrightarrow> (v, x) \<in> conn g (insert e S)"
          using va conn_insert[OF e ab, of v x S] conn_trans[of v a g S x] by blast
        have 3: "(b, x) \<in> conn g S \<Longrightarrow> (v, x) \<in> conn g (insert e S)"
          using va conn_insert[OF e ab, of v x S] conn_trans[of v b g S x] by blast
        show ?thesis using 1 2 3 conn_insert[OF e ab, of v x S] by auto
      qed
      with True show ?thesis by auto
    next
      case F: False
      have "x \<in> ?cl' v \<longleftrightarrow> x \<in> ?cl v" for x
        using F conn_insert[OF e ab, of v x S] by auto
      with F show ?thesis by auto
    qed
    let ?C = "?cl ` ?V"
    have fin: "finite ?C" by simp
    have ne: "?cl a \<noteq> ?cl b" using False by (simp add: conn_class_eq)
    have inC: "?cl a \<in> ?C" "?cl b \<in> ?C" using abV by auto
    have notin: "?cl a \<union> ?cl b \<notin> ?C"
    proof
      assume "?cl a \<union> ?cl b \<in> ?C"
      then obtain v where v: "?cl a \<union> ?cl b = ?cl v" by auto
      have "a \<in> ?cl v" "b \<in> ?cl v" unfolding v[symmetric] by auto
      then have "(v, a) \<in> conn g S" "(v, b) \<in> conn g S" by auto
      then have "(a, b) \<in> conn g S" using conn_trans[OF conn_sym] by blast
      with False show False by simp
    qed
    have img: "?cl' ` ?V = insert (?cl a \<union> ?cl b) (?C - {?cl a, ?cl b})"
    proof (intro set_eqI iffI)
      fix X assume "X \<in> ?cl' ` ?V"
      then obtain v where v: "v \<in> ?V" "X = ?cl' v" by auto
      show "X \<in> insert (?cl a \<union> ?cl b) (?C - {?cl a, ?cl b})"
      proof (cases "(v, a) \<in> conn g S \<or> (v, b) \<in> conn g S")
        case True
        then show ?thesis using v cl'[of v] by simp
      next
        case F: False
        then have "?cl v \<noteq> ?cl a" "?cl v \<noteq> ?cl b" by (simp_all add: conn_class_eq)
        with F v cl'[of v] show ?thesis by auto
      qed
    next
      fix X assume "X \<in> insert (?cl a \<union> ?cl b) (?C - {?cl a, ?cl b})"
      then consider "X = ?cl a \<union> ?cl b" | "X \<in> ?C" "X \<noteq> ?cl a" "X \<noteq> ?cl b" by auto
      then show "X \<in> ?cl' ` ?V"
      proof cases
        case 1
        have "?cl' a = ?cl a \<union> ?cl b" using cl'[of a] by simp
        with 1 abV show ?thesis by (metis imageI)
      next
        case 2
        then obtain v where v: "v \<in> ?V" "X = ?cl v" by auto
        with 2 have "\<not> ((v, a) \<in> conn g S \<or> (v, b) \<in> conn g S)"
          by (simp add: conn_class_eq)
        then have "?cl' v = ?cl v" using cl'[of v] by simp
        with v show ?thesis by (metis imageI)
      qed
    qed
    have "card (?C - {?cl a, ?cl b}) = card ?C - 2"
      using inC ne fin by (simp add: card_Diff_insert)
    moreover have "2 \<le> card ?C"
    proof -
      have "{?cl a, ?cl b} \<subseteq> ?C" using inC by simp
      from card_mono[OF fin this] ne show ?thesis by simp
    qed
    moreover have "card (?cl' ` ?V) = Suc (card (?C - {?cl a, ?cl b}))"
      unfolding img using notin fin by (subst card_insert_disjoint) auto
    ultimately show ?thesis using False by (simp add: comps_def)
  qed
qed

section \<open>The Kruskal scan, abstractly\<close>

text \<open>
  The edges at which a scan of the list \<open>es\<close> performs a merge, when the edges with ids
  in \<open>P\<close> have been scanned before: an edge merges when its endpoints are not yet
  connected by the edges scanned so far.
\<close>

fun merges_from :: "graph \<Rightarrow> nat set \<Rightarrow> nat list \<Rightarrow> nat list" where
  "merges_from g P [] = []"
| "merges_from g P (e # es) =
     (if (source (edge_list g ! e), target (edge_list g ! e)) \<in> conn g P
      then merges_from g (insert e P) es
      else e # merges_from g (insert e P) es)"

definition kruskal_merges :: "graph \<Rightarrow> nat list \<Rightarrow> nat list" where
  "kruskal_merges g es = merges_from g {} es"

lemma merges_from_append:
  "merges_from g P (xs @ ys) = merges_from g P xs @ merges_from g (P \<union> set xs) ys"
  by (induction xs arbitrary: P) auto

lemma kruskal_merges_snoc:
  "kruskal_merges g (xs @ [e]) =
     kruskal_merges g xs @
     (if (source (edge_list g ! e), target (edge_list g ! e)) \<in> conn g (set xs) then [] else [e])"
  by (simp add: kruskal_merges_def merges_from_append)

lemma kruskal_merges_take_Suc:
  assumes "i < length es"
  shows "kruskal_merges g (take (Suc i) es) =
     kruskal_merges g (take i es) @
     (if (source (edge_list g ! (es ! i)), target (edge_list g ! (es ! i)))
           \<in> conn g (set (take i es)) then [] else [es ! i])"
  using assms by (simp add: take_Suc_conv_app_nth kruskal_merges_snoc)

lemma merges_from_subset: "set (merges_from g P es) \<subseteq> set es"
  by (induction es arbitrary: P) auto

lemma merges_from_distinct: "distinct es \<Longrightarrow> distinct (merges_from g P es)"
proof (induction es arbitrary: P)
  case Nil
  then show ?case by simp
next
  case (Cons e es)
  then show ?case using merges_from_subset[of g "insert e P" es] by auto
qed

lemma merges_from_prefix_length:
  "length (merges_from g P (take j es)) \<le> length (merges_from g P es)"
proof -
  have "merges_from g P es = merges_from g P (take j es @ drop j es)" by simp
  then show ?thesis unfolding merges_from_append by simp
qed

text \<open>An edge whose endpoints are connected already adds no connection.\<close>

lemma conn_insert_connected:
  assumes e: "e < num_edges g"
    and c: "(source (edge_list g ! e), target (edge_list g ! e)) \<in> conn g S"
  shows "conn g (insert e S) = conn g S"
proof -
  obtain a b where ab: "edge_list g ! e = (a, b)" by (cases "edge_list g ! e") auto
  with c have c': "(a, b) \<in> conn g S" by (simp add: source_def target_def)
  have "(u, v) \<in> conn g (insert e S) \<longleftrightarrow> (u, v) \<in> conn g S" for u v
  proof -
    have "(u, v) \<in> conn g S" if "(u, a) \<in> conn g S" "(b, v) \<in> conn g S"
      using conn_trans[OF conn_trans[OF that(1) c'] that(2)] .
    moreover have "(u, v) \<in> conn g S" if "(u, b) \<in> conn g S" "(a, v) \<in> conn g S"
      using conn_trans[OF conn_trans[OF that(1) conn_sym[OF c']] that(2)] .
    ultimately show ?thesis unfolding conn_insert[OF e ab] by blast
  qed
  then show ?thesis by auto
qed

text \<open>The merging edges connect what all the scanned edges connect.\<close>

lemma merges_from_conn:
  assumes "\<forall>e \<in> set es. e < num_edges g"
  shows "conn g (P \<union> set (merges_from g P es)) = conn g (P \<union> set es)"
  using assms
proof (induction es arbitrary: P)
  case Nil
  then show ?case by simp
next
  case (Cons e es)
  then have e: "e < num_edges g" and es: "\<forall>e \<in> set es. e < num_edges g" by auto
  let ?M = "merges_from g (insert e P) es"
  have IH: "conn g (insert e P \<union> set ?M) = conn g (insert e P \<union> set es)"
    by (rule Cons.IH[OF es])
  show ?case
  proof (cases "(source (edge_list g ! e), target (edge_list g ! e)) \<in> conn g P")
    case True
    have "conn g P \<subseteq> conn g (P \<union> set ?M)" by (rule conn_mono) auto
    with True have "(source (edge_list g ! e), target (edge_list g ! e))
        \<in> conn g (P \<union> set ?M)" by blast
    from conn_insert_connected[OF e this]
    have "conn g (P \<union> set ?M) = conn g (insert e P \<union> set ?M)" by simp
    with True IH show ?thesis by simp
  next
    case False
    with IH show ?thesis by simp
  qed
qed

text \<open>Every merge lowers the number of components by one.\<close>

lemma merges_from_comps:
  assumes ok: "graph_ok g" and "\<forall>e \<in> set es. e < num_edges g"
  shows "length (merges_from g P es) + comps g (P \<union> set es) = comps g P"
  using assms(2)
proof (induction es arbitrary: P)
  case Nil
  then show ?case by simp
next
  case (Cons e es)
  then have e: "e < num_edges g" and es: "\<forall>e \<in> set es. e < num_edges g" by auto
  obtain a b where ab: "edge_list g ! e = (a, b)" by (cases "edge_list g ! e") auto
  have IH: "length (merges_from g (insert e P) es) + comps g (insert e P \<union> set es)
      = comps g (insert e P)"
    by (rule Cons.IH[OF es])
  note ci = comps_insert[OF ok e ab, of P]
  show ?case
  proof (cases "(a, b) \<in> conn g P")
    case True
    with ci IH ab show ?thesis by (simp add: source_def target_def)
  next
    case False
    with ci have "comps g (insert e P) = comps g P - 1" "2 \<le> comps g P" by auto
    with False IH ab show ?thesis by (simp add: source_def target_def)
  qed
qed

lemma kruskal_merges_length:
  assumes "graph_ok g" and "\<forall>e \<in> set es. e < num_edges g"
  shows "length (kruskal_merges g es) + comps g (set es) = num_vertices g"
  using merges_from_comps[OF assms, of "{}"] by (simp add: kruskal_merges_def comps_empty)

lemma kruskal_merges_conn:
  assumes "\<forall>e \<in> set es. e < num_edges g"
  shows "conn g (set (kruskal_merges g es)) = conn g (set es)"
  using merges_from_conn[OF assms, of "{}"] by (simp add: kruskal_merges_def)

lemma kruskal_merges_bound:
  assumes "graph_ok g" and "\<forall>e \<in> set es. e < num_edges g" and "0 < num_vertices g"
  shows "length (kruskal_merges g es) \<le> num_vertices g - 1"
  using kruskal_merges_length[OF assms(1,2)] comps_pos[OF assms(3), of "set es"] by simp

text \<open>A scan of all the edges performs \<open>n - 1\<close> merges exactly on a connected graph.\<close>

lemma kruskal_merges_connected:
  assumes "graph_ok g" and "set es = {..<num_edges g}" and "0 < num_vertices g"
  shows "length (kruskal_merges g es) = num_vertices g - 1 \<longleftrightarrow> connected_graph g"
proof -
  have es: "\<forall>e \<in> set es. e < num_edges g" using assms(2) by simp
  have "connected_graph g \<longleftrightarrow> comps g (set es) = 1"
    unfolding comps_one_iff[OF assms(3)] connected_graph_def assms(2) using assms(3) by simp
  also have "\<dots> \<longleftrightarrow> length (kruskal_merges g es) = num_vertices g - 1"
    using kruskal_merges_length[OF assms(1) es] comps_pos[OF assms(3), of "set es"] by auto
  finally show ?thesis by simp
qed

section \<open>Invariants of the Kruskal loop of bpt_canonical\<close>

text \<open>What one iteration does, in terms of the representatives.\<close>

lemma bpt_step_result:
  assumes ok: "uf_ok (uf_parent (st_uf s))"
    and len: "length (uf_parent (st_uf s)) = n"
    and e: "edge_from_index (se ! st_i s) g = (a, b)" and a: "a < n" and b: "b < n"
  shows "\<exists>ra rb u' k.
     uf_rep (uf_parent (st_uf s)) a = Some ra \<and> uf_rep (uf_parent (st_uf s)) b = Some rb \<and>
     length (uf_parent u') = n \<and> uf_ok (uf_parent u') \<and>
     (ra = rb \<longrightarrow>
        bpt_step g w se s = Inr (s\<lparr>st_uf := u', st_i := st_i s + 1\<rparr>) \<and>
        (\<forall>z < n. uf_rep (uf_parent u') z = uf_rep (uf_parent (st_uf s)) z)) \<and>
     (ra \<noteq> rb \<longrightarrow>
        (k = ra \<or> k = rb) \<and>
        bpt_step g w se s =
          Inr (s\<lparr>st_uf := u',
                 st_roots := (st_roots s)[k := st_num_nodes s],
                 st_parents := (st_parents s)[st_roots s ! ra := st_num_nodes s,
                                              st_roots s ! rb := st_num_nodes s],
                 st_levels := (st_levels s)[st_num_nodes s := w ! (se ! st_i s)],
                 st_mst := add_edge (a, b) (st_mst s),
                 st_mst_edge_map := (st_mst_edge_map s)[st_num_edge_found s := se ! st_i s],
                 st_num_nodes := st_num_nodes s + 1,
                 st_num_edge_found := st_num_edge_found s + 1,
                 st_i := st_i s + 1\<rparr>) \<and>
        (\<forall>z < n. \<forall>r. uf_rep (uf_parent (st_uf s)) z = Some r \<longrightarrow>
           uf_rep (uf_parent u') z = Some (if r = ra \<or> r = rb then k else r)))"
proof -
  let ?p = "uf_parent (st_uf s)"
  from uf_find_correct[OF ok, of a] a len obtain ra u1 where
    f1: "uf_find (st_uf s) a = Some (ra, u1)" and ra: "uf_rep ?p a = Some ra"
    and l1: "length (uf_parent u1) = n" and ok1: "uf_ok (uf_parent u1)"
    and r1: "\<And>z. z < n \<Longrightarrow> uf_rep (uf_parent u1) z = uf_rep ?p z"
    by auto
  from uf_find_correct[OF ok1, of b] b l1 obtain rb u2 where
    f2: "uf_find u1 b = Some (rb, u2)" and rb1: "uf_rep (uf_parent u1) b = Some rb"
    and l2: "length (uf_parent u2) = n" and ok2: "uf_ok (uf_parent u2)"
    and r2: "\<And>z. z < n \<Longrightarrow> uf_rep (uf_parent u2) z = uf_rep (uf_parent u1) z"
    by auto
  have rb: "uf_rep ?p b = Some rb" using rb1 r1[OF b] by simp
  have r12: "uf_rep (uf_parent u2) z = uf_rep ?p z" if "z < n" for z
    using r1[OF that] r2[OF that] by simp
  show ?thesis
  proof (cases "ra = rb")
    case True
    have "bpt_step g w se s = Inr (s\<lparr>st_uf := u2, st_i := st_i s + 1\<rparr>)"
      using e f1 f2 True by (simp add: bpt_step_def source_def target_def Let_def)
    with ra rb l2 ok2 r12 True show ?thesis by blast
  next
    case False
    have ran: "ra < n" "rb < n"
      using uf_rep_root[OF ra] uf_rep_root[OF rb] len by auto
    have "uf_rep (uf_parent u2) ra = Some ra" "uf_rep (uf_parent u2) rb = Some rb"
      using r12 ran uf_rep_root[OF ra] uf_rep_root[OF rb] by auto
    then have roots: "uf_parent u2 ! ra = ra" "uf_parent u2 ! rb = rb"
      using uf_rep_root by blast+
    from uf_link_correct[OF ok2, of ra rb] ran l2 roots False obtain k u3 where
      lk: "uf_link u2 ra rb = (k, u3)" and k: "k = ra \<or> k = rb"
      and l3: "length (uf_parent u3) = n" and ok3: "uf_ok (uf_parent u3)"
      and r3: "\<And>z r. z < n \<Longrightarrow> uf_rep (uf_parent u2) z = Some r \<Longrightarrow>
            uf_rep (uf_parent u3) z = Some (if r = ra \<or> r = rb then k else r)"
      by auto
    have step: "bpt_step g w se s =
          Inr (s\<lparr>st_uf := u3,
                 st_roots := (st_roots s)[k := st_num_nodes s],
                 st_parents := (st_parents s)[st_roots s ! ra := st_num_nodes s,
                                              st_roots s ! rb := st_num_nodes s],
                 st_levels := (st_levels s)[st_num_nodes s := w ! (se ! st_i s)],
                 st_mst := add_edge (a, b) (st_mst s),
                 st_mst_edge_map := (st_mst_edge_map s)[st_num_edge_found s := se ! st_i s],
                 st_num_nodes := st_num_nodes s + 1,
                 st_num_edge_found := st_num_edge_found s + 1,
                 st_i := st_i s + 1\<rparr>)"
      using e f1 f2 False lk by (simp add: bpt_step_def source_def target_def Let_def)
    have "uf_rep (uf_parent u3) z = Some (if r = ra \<or> r = rb then k else r)"
      if "z < n" "uf_rep ?p z = Some r" for z r
      using r3[OF that(1)] r12[OF that(1)] that(2) by simp
    with ra rb l3 ok3 False k step show ?thesis by blast
  qed
qed


declare bpt_loop.simps [simp del]

definition rep_of :: "'w bpt_state \<Rightarrow> nat \<Rightarrow> nat option" where
  "rep_of s z = uf_rep (uf_parent (st_uf s)) z"

text \<open>The union-find structure holds the components of the scanned edges; the edges
  found so far are the merging edges of the scanned prefix.\<close>

definition scan_inv :: "graph \<Rightarrow> nat list \<Rightarrow> 'w bpt_state \<Rightarrow> bool" where
  "scan_inv g se s =
     (let n = num_vertices g; i = st_i s; f = st_num_edge_found s in
      i \<le> length se \<and>
      length (uf_parent (st_uf s)) = n \<and> uf_ok (uf_parent (st_uf s)) \<and>
      (\<forall>u < n. \<forall>v < n. (rep_of s u = rep_of s v) = ((u, v) \<in> conn g (set (take i se)))) \<and>
      st_num_nodes s = n + f \<and>
      f = length (kruskal_merges g (take i se)) \<and>
      length (st_mst_edge_map s) = n - 1 \<and>
      take f (st_mst_edge_map s) = kruskal_merges g (take i se) \<and>
      st_mst s = \<lparr>num_vertices = n,
                  edge_list = map (\<lambda>e. edge_list g ! e) (kruskal_merges g (take i se))\<rparr> \<and>
      (\<forall>j < i. length (kruskal_merges g (take j se)) < n - 1))"

text \<open>The parent vector is a forest whose roots are the nodes \<open>roots\<close> gives to the
  representatives.\<close>

definition forest_inv :: "graph \<Rightarrow> 'w bpt_state \<Rightarrow> bool" where
  "forest_inv g s =
     (let n = num_vertices g; k = st_num_nodes s; R = st_roots s; par = st_parents s in
      length R = n \<and> length par = 2 * n - 1 \<and>
      (\<forall>c < n. rep_of s c = Some c \<longrightarrow> R ! c < k \<and> par ! (R ! c) = R ! c) \<and>
      (\<forall>c < n. \<forall>d < n. rep_of s c = Some c \<and> rep_of s d = Some d \<and> R ! c = R ! d \<longrightarrow> c = d) \<and>
      (\<forall>v < k. par ! v = v \<longrightarrow> (\<exists>c < n. rep_of s c = Some c \<and> R ! c = v)) \<and>
      (\<forall>v < k. par ! v \<noteq> v \<longrightarrow> v < par ! v \<and> n \<le> par ! v \<and> par ! v < k) \<and>
      (\<forall>v. k \<le> v \<and> v < 2 * n - 1 \<longrightarrow> par ! v = v) \<and>
      (\<forall>v. n \<le> v \<and> v < k \<longrightarrow> (\<exists>c < v. par ! c = v)))"

definition levels_inv :: "graph \<Rightarrow> 'w list \<Rightarrow> ('w::zero) bpt_state \<Rightarrow> bool" where
  "levels_inv g w s =
     (let n = num_vertices g in
      length (st_levels s) = 2 * n - 1 \<and>
      (\<forall>v < n. st_levels s ! v = 0) \<and>
      (\<forall>j < st_num_edge_found s. st_levels s ! (n + j) = w ! (st_mst_edge_map s ! j)))"

definition bpt_inv :: "graph \<Rightarrow> 'w list \<Rightarrow> nat list \<Rightarrow> ('w::zero) bpt_state \<Rightarrow> bool" where
  "bpt_inv g w se s = (scan_inv g se s \<and> forest_inv g s \<and> levels_inv g w s)"

lemma bpt_init_fields:
  "st_uf (bpt_init g) = uf_init (num_vertices g)"
  "st_roots (bpt_init g) = [0..<num_vertices g]"
  "st_parents (bpt_init g) = [0..<num_vertices g * 2 - 1]"
  "st_levels (bpt_init g) = replicate (num_vertices g * 2 - 1) 0"
  "st_mst (bpt_init g) = \<lparr>num_vertices = num_vertices g, edge_list = []\<rparr>"
  "st_mst_edge_map (bpt_init g) = replicate (num_vertices g - 1) 0"
  "st_num_nodes (bpt_init g) = num_vertices g"
  "st_num_edge_found (bpt_init g) = 0"
  "st_i (bpt_init g) = 0"
  by (simp_all add: bpt_init_def Let_def)

lemma bpt_init_inv:
  assumes "0 < num_vertices g"
  shows "bpt_inv g w se (bpt_init g)"
proof -
  let ?n = "num_vertices g"
  note uf = uf_init_ok[of ?n]
  have rep: "rep_of (bpt_init g) x = Some x" if "x < ?n" for x
    using uf that by (simp add: rep_of_def bpt_init_fields)
  have "(rep_of (bpt_init g) u = rep_of (bpt_init g) v) = ((u, v) \<in> conn g {})"
    if "u < ?n" "v < ?n" for u v
    unfolding rep[OF that(1)] rep[OF that(2)] by (simp add: conn_empty)
  then have "scan_inv g se (bpt_init g)"
    unfolding scan_inv_def Let_def bpt_init_fields
    using uf by (auto simp: kruskal_merges_def)
  moreover have "forest_inv g (bpt_init g)"
  proof -
    have "\<exists>c < ?n. rep_of (bpt_init g) c = Some c \<and> [0..<?n] ! c = v" if "v < ?n" for v
      using rep[OF that] that by (intro exI[of _ v]) simp
    then show ?thesis
      unfolding forest_inv_def Let_def bpt_init_fields using rep assms
      by auto
  qed
  moreover have "levels_inv g w (bpt_init g)"
    unfolding levels_inv_def Let_def bpt_init_fields using assms
    by auto
  ultimately show ?thesis by (simp add: bpt_inv_def)
qed

text \<open>The two states an iteration can lead to.\<close>

definition skip_state :: "'w bpt_state \<Rightarrow> union_find \<Rightarrow> 'w bpt_state" where
  "skip_state s u' = s\<lparr>st_uf := u', st_i := st_i s + 1\<rparr>"

definition merge_state ::
  "graph \<Rightarrow> 'w list \<Rightarrow> nat list \<Rightarrow> 'w bpt_state \<Rightarrow> union_find \<Rightarrow> nat \<Rightarrow> nat \<Rightarrow> nat \<Rightarrow>
   'w bpt_state" where
  "merge_state g w se s u' k ra rb =
     s\<lparr>st_uf := u',
       st_roots := (st_roots s)[k := st_num_nodes s],
       st_parents := (st_parents s)[st_roots s ! ra := st_num_nodes s,
                                    st_roots s ! rb := st_num_nodes s],
       st_levels := (st_levels s)[st_num_nodes s := w ! (se ! st_i s)],
       st_mst := add_edge (edge_list g ! (se ! st_i s)) (st_mst s),
       st_mst_edge_map := (st_mst_edge_map s)[st_num_edge_found s := se ! st_i s],
       st_num_nodes := st_num_nodes s + 1,
       st_num_edge_found := st_num_edge_found s + 1,
       st_i := st_i s + 1\<rparr>"

lemma skip_state_fields:
  "st_uf (skip_state s u') = u'"
  "st_roots (skip_state s u') = st_roots s"
  "st_parents (skip_state s u') = st_parents s"
  "st_levels (skip_state s u') = st_levels s"
  "st_mst (skip_state s u') = st_mst s"
  "st_mst_edge_map (skip_state s u') = st_mst_edge_map s"
  "st_num_nodes (skip_state s u') = st_num_nodes s"
  "st_num_edge_found (skip_state s u') = st_num_edge_found s"
  "st_i (skip_state s u') = Suc (st_i s)"
  by (simp_all add: skip_state_def)

lemma merge_state_fields:
  "st_uf (merge_state g w se s u' k ra rb) = u'"
  "st_roots (merge_state g w se s u' k ra rb) = (st_roots s)[k := st_num_nodes s]"
  "st_parents (merge_state g w se s u' k ra rb) =
     (st_parents s)[st_roots s ! ra := st_num_nodes s, st_roots s ! rb := st_num_nodes s]"
  "st_levels (merge_state g w se s u' k ra rb) = (st_levels s)[st_num_nodes s := w ! (se ! st_i s)]"
  "st_mst (merge_state g w se s u' k ra rb) = add_edge (edge_list g ! (se ! st_i s)) (st_mst s)"
  "st_mst_edge_map (merge_state g w se s u' k ra rb) =
     (st_mst_edge_map s)[st_num_edge_found s := se ! st_i s]"
  "st_num_nodes (merge_state g w se s u' k ra rb) = Suc (st_num_nodes s)"
  "st_num_edge_found (merge_state g w se s u' k ra rb) = Suc (st_num_edge_found s)"
  "st_i (merge_state g w se s u' k ra rb) = Suc (st_i s)"
  by (simp_all add: merge_state_def)

lemma rep_of_root_iff:
  "rep_of s c = Some c \<longleftrightarrow> (\<exists>z. rep_of s z = Some c)"
  unfolding rep_of_def using uf_rep_root by blast

lemma bpt_step_cases:
  assumes ok: "graph_ok g" and se: "\<forall>e \<in> set se. e < num_edges g"
    and inv: "scan_inv g se s" and i: "st_i s < length se"
  obtains (skip) u' where
      "bpt_step g w se s = Inr (skip_state s u')"
      "\<forall>z < num_vertices g. rep_of (skip_state s u') z = rep_of s z"
      "length (uf_parent u') = num_vertices g" "uf_ok (uf_parent u')"
      "(source (edge_list g ! (se ! st_i s)), target (edge_list g ! (se ! st_i s)))
         \<in> conn g (set (take (st_i s) se))"
  | (merge) u' k ra rb where
      "bpt_step g w se s = Inr (merge_state g w se s u' k ra rb)"
      "ra < num_vertices g" "rb < num_vertices g" "ra \<noteq> rb" "k = ra \<or> k = rb"
      "rep_of s ra = Some ra" "rep_of s rb = Some rb"
      "rep_of s (source (edge_list g ! (se ! st_i s))) = Some ra"
      "rep_of s (target (edge_list g ! (se ! st_i s))) = Some rb"
      "\<forall>z < num_vertices g. \<forall>r. rep_of s z = Some r \<longrightarrow>
         rep_of (merge_state g w se s u' k ra rb) z = Some (if r = ra \<or> r = rb then k else r)"
      "length (uf_parent u') = num_vertices g" "uf_ok (uf_parent u')"
      "(source (edge_list g ! (se ! st_i s)), target (edge_list g ! (se ! st_i s)))
         \<notin> conn g (set (take (st_i s) se))"
proof -
  let ?n = "num_vertices g"
  let ?ei = "se ! st_i s"
  obtain a b where ab: "edge_list g ! ?ei = (a, b)" by (cases "edge_list g ! ?ei") auto
  have ei: "?ei < num_edges g" using se i by simp
  then have abn: "a < ?n" "b < ?n"
    using ok ab by (auto simp: graph_ok_def list_all_length num_edges_def source_def target_def)
  from inv have uok: "uf_ok (uf_parent (st_uf s))" and len: "length (uf_parent (st_uf s)) = ?n"
    and cn: "\<And>u v. u < ?n \<Longrightarrow> v < ?n \<Longrightarrow>
          (rep_of s u = rep_of s v) = ((u, v) \<in> conn g (set (take (st_i s) se)))"
    by (auto simp: scan_inv_def Let_def)
  have e: "edge_from_index ?ei g = (a, b)" using ab by (simp add: edge_from_index_def)
  from bpt_step_result[OF uok len e abn, of w] obtain ra rb u' k where
    ra: "rep_of s a = Some ra" and rb: "rep_of s b = Some rb"
    and l': "length (uf_parent u') = ?n" and ok': "uf_ok (uf_parent u')"
    and same: "ra = rb \<Longrightarrow> bpt_step g w se s = Inr (s\<lparr>st_uf := u', st_i := st_i s + 1\<rparr>) \<and>
        (\<forall>z < ?n. uf_rep (uf_parent u') z = uf_rep (uf_parent (st_uf s)) z)"
    and diff: "ra \<noteq> rb \<Longrightarrow> (k = ra \<or> k = rb) \<and>
        bpt_step g w se s =
          Inr (s\<lparr>st_uf := u',
                 st_roots := (st_roots s)[k := st_num_nodes s],
                 st_parents := (st_parents s)[st_roots s ! ra := st_num_nodes s,
                                              st_roots s ! rb := st_num_nodes s],
                 st_levels := (st_levels s)[st_num_nodes s := w ! (se ! st_i s)],
                 st_mst := add_edge (a, b) (st_mst s),
                 st_mst_edge_map := (st_mst_edge_map s)[st_num_edge_found s := se ! st_i s],
                 st_num_nodes := st_num_nodes s + 1,
                 st_num_edge_found := st_num_edge_found s + 1,
                 st_i := st_i s + 1\<rparr>) \<and>
        (\<forall>z < ?n. \<forall>r. uf_rep (uf_parent (st_uf s)) z = Some r \<longrightarrow>
           uf_rep (uf_parent u') z = Some (if r = ra \<or> r = rb then k else r))"
    unfolding rep_of_def by blast
  have conn_iff: "(ra = rb) = ((a, b) \<in> conn g (set (take (st_i s) se)))"
    using cn[OF abn] ra rb by simp
  show ?thesis
  proof (cases "ra = rb")
    case True
    show ?thesis
    proof (rule skip[of u'])
      show "bpt_step g w se s = Inr (skip_state s u')"
        using same[OF True] by (simp add: skip_state_def)
      show "\<forall>z < ?n. rep_of (skip_state s u') z = rep_of s z"
        using same[OF True] by (simp add: rep_of_def skip_state_fields)
      show "length (uf_parent u') = ?n" "uf_ok (uf_parent u')" by (rule l', rule ok')
      show "(source (edge_list g ! ?ei), target (edge_list g ! ?ei))
         \<in> conn g (set (take (st_i s) se))"
        using True conn_iff ab by (simp add: source_def target_def)
    qed
  next
    case False
    have roots: "rep_of s ra = Some ra" "rep_of s rb = Some rb"
      using ra rb rep_of_root_iff by blast+
    have ran: "ra < ?n" "rb < ?n"
      using uf_rep_root[of "uf_parent (st_uf s)"] roots len unfolding rep_of_def by auto
    show ?thesis
    proof (rule merge[of u' k ra rb])
      show "bpt_step g w se s = Inr (merge_state g w se s u' k ra rb)"
        using diff[OF False] ab by (simp add: merge_state_def)
      show "ra < ?n" "rb < ?n" by (rule ran(1), rule ran(2))
      show "ra \<noteq> rb" by (rule False)
      show "k = ra \<or> k = rb" using diff[OF False] by simp
      show "rep_of s ra = Some ra" "rep_of s rb = Some rb" by (rule roots(1), rule roots(2))
      show "rep_of s (source (edge_list g ! ?ei)) = Some ra"
        "rep_of s (target (edge_list g ! ?ei)) = Some rb"
        using ra rb ab by (simp_all add: source_def target_def)
      show "\<forall>z < ?n. \<forall>r. rep_of s z = Some r \<longrightarrow>
         rep_of (merge_state g w se s u' k ra rb) z = Some (if r = ra \<or> r = rb then k else r)"
        using diff[OF False] by (simp add: rep_of_def merge_state_fields)
      show "length (uf_parent u') = ?n" "uf_ok (uf_parent u')" by (rule l', rule ok')
      show "(source (edge_list g ! ?ei), target (edge_list g ! ?ei))
         \<notin> conn g (set (take (st_i s) se))"
        using False conn_iff ab by (simp add: source_def target_def)
    qed
  qed
qed

lemma scan_inv_skip:
  assumes se: "\<forall>e \<in> set se. e < num_edges g"
    and inv: "scan_inv g se s" and i: "st_i s < length se"
    and rep: "\<forall>z < num_vertices g. rep_of (skip_state s u') z = rep_of s z"
    and len: "length (uf_parent u') = num_vertices g" and uok: "uf_ok (uf_parent u')"
    and c: "(source (edge_list g ! (se ! st_i s)), target (edge_list g ! (se ! st_i s)))
         \<in> conn g (set (take (st_i s) se))"
    and cont: "st_num_edge_found s < num_vertices g - 1"
  shows "scan_inv g se (skip_state s u')"
proof -
  let ?n = "num_vertices g"
  let ?i = "st_i s"
  have ei: "se ! ?i < num_edges g" using se i by simp
  have cn: "conn g (set (take (Suc ?i) se)) = conn g (set (take ?i se))"
    unfolding take_Suc_set[OF i] by (rule conn_insert_connected[OF ei c])
  have km: "kruskal_merges g (take (Suc ?i) se) = kruskal_merges g (take ?i se)"
    unfolding kruskal_merges_take_Suc[OF i] using c by simp
  from inv have f: "st_num_edge_found s = length (kruskal_merges g (take ?i se))"
    and old: "\<forall>j < ?i. length (kruskal_merges g (take j se)) < ?n - 1"
    by (auto simp: scan_inv_def Let_def)
  have new: "\<forall>j < Suc ?i. length (kruskal_merges g (take j se)) < ?n - 1"
    using old f cont by (auto simp: less_Suc_eq)
  show ?thesis
    using inv i rep len uok new
    unfolding scan_inv_def Let_def skip_state_fields cn km
    by auto
qed

lemma scan_inv_merge:
  assumes ok: "graph_ok g" and se: "\<forall>e \<in> set se. e < num_edges g"
    and inv: "scan_inv g se s" and i: "st_i s < length se"
    and ra: "rep_of s (source (edge_list g ! (se ! st_i s))) = Some ra"
    and rb: "rep_of s (target (edge_list g ! (se ! st_i s))) = Some rb"
    and rep: "\<forall>z < num_vertices g. \<forall>r. rep_of s z = Some r \<longrightarrow>
         rep_of (merge_state g w se s u' k ra rb) z = Some (if r = ra \<or> r = rb then k else r)"
    and k: "k = ra \<or> k = rb" and ne: "ra \<noteq> rb"
    and len: "length (uf_parent u') = num_vertices g" and uok: "uf_ok (uf_parent u')"
    and c: "(source (edge_list g ! (se ! st_i s)), target (edge_list g ! (se ! st_i s)))
         \<notin> conn g (set (take (st_i s) se))"
    and cont: "st_num_edge_found s < num_vertices g - 1"
  shows "scan_inv g se (merge_state g w se s u' k ra rb)"
proof -
  let ?n = "num_vertices g"
  let ?i = "st_i s"
  let ?P = "set (take ?i se)"
  let ?s' = "merge_state g w se s u' k ra rb"
  obtain a b where ab: "edge_list g ! (se ! ?i) = (a, b)" by (cases "edge_list g ! (se ! ?i)") auto
  have ei: "se ! ?i < num_edges g" using se i by simp
  then have abn: "a < ?n" "b < ?n"
    using ok ab by (auto simp: graph_ok_def list_all_length num_edges_def source_def target_def)
  from ra rb ab have ra': "rep_of s a = Some ra" and rb': "rep_of s b = Some rb"
    by (simp_all add: source_def target_def)
  from inv have uok0: "uf_ok (uf_parent (st_uf s))" and len0: "length (uf_parent (st_uf s)) = ?n"
    and cn: "\<And>u v. u < ?n \<Longrightarrow> v < ?n \<Longrightarrow> (rep_of s u = rep_of s v) = ((u, v) \<in> conn g ?P)"
    and f: "st_num_edge_found s = length (kruskal_merges g (take ?i se))"
    and nn: "st_num_nodes s = ?n + st_num_edge_found s"
    and lm: "length (st_mst_edge_map s) = ?n - 1"
    and tk: "take (st_num_edge_found s) (st_mst_edge_map s) = kruskal_merges g (take ?i se)"
    and mst: "st_mst s = \<lparr>num_vertices = ?n,
                  edge_list = map (\<lambda>e. edge_list g ! e) (kruskal_merges g (take ?i se))\<rparr>"
    and old: "\<forall>j < ?i. length (kruskal_merges g (take j se)) < ?n - 1"
    by (auto simp: scan_inv_def Let_def)
  have km: "kruskal_merges g (take (Suc ?i) se) = kruskal_merges g (take ?i se) @ [se ! ?i]"
    unfolding kruskal_merges_take_Suc[OF i] using c by simp
  have new: "\<forall>j < Suc ?i. length (kruskal_merges g (take j se)) < ?n - 1"
    using old f cont by (auto simp: less_Suc_eq)
  have conn': "(rep_of ?s' u = rep_of ?s' v) = ((u, v) \<in> conn g (set (take (Suc ?i) se)))"
    if u: "u < ?n" and v: "v < ?n" for u v
  proof -
    obtain ru where ru: "rep_of s u = Some ru"
      using uf_ok_rep[OF uok0, of u] u len0 by (auto simp: rep_of_def)
    obtain rv where rv: "rep_of s v = Some rv"
      using uf_ok_rep[OF uok0, of v] v len0 by (auto simp: rep_of_def)
    have ru': "rep_of ?s' u = Some (if ru = ra \<or> ru = rb then k else ru)"
      using rep u ru by blast
    have rv': "rep_of ?s' v = Some (if rv = ra \<or> rv = rb then k else rv)"
      using rep v rv by blast
    have ua: "(ru = ra) = ((u, a) \<in> conn g ?P)" using cn[OF u abn(1)] ru ra' by simp
    have ub: "(ru = rb) = ((u, b) \<in> conn g ?P)" using cn[OF u abn(2)] ru rb' by simp
    have va: "(rv = ra) = ((a, v) \<in> conn g ?P)" using cn[OF abn(1) v] rv ra' by auto
    have vb: "(rv = rb) = ((b, v) \<in> conn g ?P)" using cn[OF abn(2) v] rv rb' by auto
    have uv: "(ru = rv) = ((u, v) \<in> conn g ?P)" using cn[OF u v] ru rv by simp
    have kk: "k \<noteq> r" if "r \<noteq> ra" "r \<noteq> rb" for r using k that by auto
    have "((if ru = ra \<or> ru = rb then k else ru) = (if rv = ra \<or> rv = rb then k else rv))
        = (ru = rv \<or> (ru = ra \<and> rv = rb) \<or> (ru = rb \<and> rv = ra))"
      using kk ne by auto
    then show ?thesis
      unfolding ru' rv' take_Suc_set[OF i] conn_insert[OF ei ab] ua[symmetric] ub[symmetric]
        va[symmetric] vb[symmetric] uv[symmetric] by simp
  qed
  have flt: "st_num_edge_found s < length (st_mst_edge_map s)" using cont lm by simp
  have tk': "take (Suc (st_num_edge_found s))
               ((st_mst_edge_map s)[st_num_edge_found s := se ! ?i])
             = kruskal_merges g (take ?i se) @ [se ! ?i]"
    using flt tk by (simp add: take_Suc_conv_app_nth)
  have mst': "add_edge (edge_list g ! (se ! ?i)) (st_mst s)
      = \<lparr>num_vertices = ?n,
         edge_list = map (\<lambda>e. edge_list g ! e) (kruskal_merges g (take ?i se) @ [se ! ?i])\<rparr>"
    unfolding mst by (simp add: add_edge_def)
  show ?thesis
    unfolding scan_inv_def Let_def merge_state_fields km
    using i len uok conn' nn f lm tk' mst' new by simp
qed

lemma forest_inv_skip:
  assumes inv: "forest_inv g s"
    and rep: "\<forall>z < num_vertices g. rep_of (skip_state s u') z = rep_of s z"
  shows "forest_inv g (skip_state s u')"
proof -
  from inv have r3: "\<And>v. v < st_num_nodes s \<Longrightarrow> st_parents s ! v = v \<Longrightarrow>
      \<exists>c < num_vertices g. rep_of s c = Some c \<and> st_roots s ! c = v"
    by (auto simp: forest_inv_def Let_def)
  have "\<exists>c < num_vertices g. rep_of (skip_state s u') c = Some c \<and> st_roots s ! c = v"
    if "v < st_num_nodes s" "st_parents s ! v = v" for v
  proof -
    from r3[OF that] obtain c where "c < num_vertices g" "rep_of s c = Some c" "st_roots s ! c = v"
      by blast
    with rep show ?thesis by (intro exI[of _ c]) simp
  qed
  with inv rep show ?thesis
    unfolding forest_inv_def Let_def skip_state_fields by simp
qed

lemma forest_inv_merge:
  assumes inv: "forest_inv g s" and sinv: "scan_inv g se s"
    and ran: "ra < num_vertices g" "rb < num_vertices g" and ne: "ra \<noteq> rb"
    and k: "k = ra \<or> k = rb"
    and ra: "rep_of s ra = Some ra" and rb: "rep_of s rb = Some rb"
    and rep: "\<forall>z < num_vertices g. \<forall>r. rep_of s z = Some r \<longrightarrow>
         rep_of (merge_state g w se s u' k ra rb) z = Some (if r = ra \<or> r = rb then k else r)"
    and cont: "st_num_edge_found s < num_vertices g - 1"
  shows "forest_inv g (merge_state g w se s u' k ra rb)"
proof -
  let ?n = "num_vertices g"
  let ?k = "st_num_nodes s"
  let ?R = "st_roots s"
  let ?par = "st_parents s"
  let ?s' = "merge_state g w se s u' k ra rb"
  let ?R' = "?R[k := ?k]"
  let ?par' = "?par[?R ! ra := ?k, ?R ! rb := ?k]"
  from sinv have uok0: "uf_ok (uf_parent (st_uf s))" and len0: "length (uf_parent (st_uf s)) = ?n"
    and nn: "?k = ?n + st_num_edge_found s"
    by (auto simp: scan_inv_def Let_def)
  from inv have lR: "length ?R = ?n" and lp: "length ?par = 2 * ?n - 1"
    and r1: "\<And>c. c < ?n \<Longrightarrow> rep_of s c = Some c \<Longrightarrow> ?R ! c < ?k \<and> ?par ! (?R ! c) = ?R ! c"
    and r2: "\<And>c d. c < ?n \<Longrightarrow> d < ?n \<Longrightarrow> rep_of s c = Some c \<Longrightarrow> rep_of s d = Some d \<Longrightarrow>
               ?R ! c = ?R ! d \<Longrightarrow> c = d"
    and r3: "\<And>v. v < ?k \<Longrightarrow> ?par ! v = v \<Longrightarrow> \<exists>c < ?n. rep_of s c = Some c \<and> ?R ! c = v"
    and r4: "\<And>v. v < ?k \<Longrightarrow> ?par ! v \<noteq> v \<Longrightarrow> v < ?par ! v \<and> ?n \<le> ?par ! v \<and> ?par ! v < ?k"
    and r5: "\<And>v. ?k \<le> v \<Longrightarrow> v < 2 * ?n - 1 \<Longrightarrow> ?par ! v = v"
    and r6: "\<And>v. ?n \<le> v \<Longrightarrow> v < ?k \<Longrightarrow> \<exists>c < v. ?par ! c = v"
    by (auto simp: forest_inv_def Let_def)
  have kn: "k < ?n" using k ran by auto
  have klt: "?k < 2 * ?n - 1" using nn cont by simp
  have Ra: "?R ! ra < ?k" "?par ! (?R ! ra) = ?R ! ra" using r1[OF ran(1) ra] by auto
  have Rb: "?R ! rb < ?k" "?par ! (?R ! rb) = ?R ! rb" using r1[OF ran(2) rb] by auto
  have Rab: "?R ! ra \<noteq> ?R ! rb" using r2[OF ran ra rb] ne by auto
  have par': "?par' ! v = (if v = ?R ! ra \<or> v = ?R ! rb then ?k else ?par ! v)"
    if "v < 2 * ?n - 1" for v
  proof -
    have "?R ! ra < length ?par" "?R ! rb < length ?par"
      using Ra(1) Rb(1) klt lp by simp_all
    then show ?thesis using that lp by (auto simp: nth_list_update)
  qed
  have R': "?R' ! c = (if c = k then ?k else ?R ! c)" if "c < ?n" for c
    using that lR by (auto simp: nth_list_update)
  have root': "rep_of ?s' c = Some c \<longleftrightarrow> c = k \<or> (rep_of s c = Some c \<and> c \<noteq> ra \<and> c \<noteq> rb)"
    if c: "c < ?n" for c
  proof -
    obtain r where r: "rep_of s c = Some r"
      using uf_ok_rep[OF uok0, of c] c len0 by (auto simp: rep_of_def)
    have r': "rep_of ?s' c = Some (if r = ra \<or> r = rb then k else r)"
      using rep c r by blast
    show ?thesis
    proof (cases "r = ra \<or> r = rb")
      case True
      have "c = k" if "rep_of s c = Some c" "c \<noteq> ra" "c \<noteq> rb"
        using that r True by auto
      with True r' r show ?thesis by auto
    next
      case False
      then have "r \<noteq> k" using k by auto
      moreover have "c \<noteq> k" using r ra rb k False by auto
      ultimately show ?thesis using False r' r by auto
    qed
  qed
  have A: "?R' ! c < Suc ?k \<and> ?par' ! (?R' ! c) = ?R' ! c"
    if c: "c < ?n" and rc: "rep_of ?s' c = Some c" for c
  proof (cases "c = k")
    case True
    have "?par' ! ?k = ?k" using par'[OF klt] Ra(1) Rb(1) r5[OF order_refl klt] by simp
    with True R'[OF c] show ?thesis by simp
  next
    case False
    with root'[OF c] rc have old: "rep_of s c = Some c" "c \<noteq> ra" "c \<noteq> rb" by auto
    have Rc: "?R ! c < ?k" "?par ! (?R ! c) = ?R ! c" using r1[OF c old(1)] by auto
    have "?R ! c \<noteq> ?R ! ra" using r2[OF c ran(1) old(1) ra] old(2) by auto
    moreover have "?R ! c \<noteq> ?R ! rb" using r2[OF c ran(2) old(1) rb] old(3) by auto
    ultimately have "?par' ! (?R ! c) = ?R ! c"
      using par'[of "?R ! c"] Rc klt by simp
    with False R'[OF c] Rc show ?thesis by simp
  qed
  have B: "c = d"
    if c: "c < ?n" and d: "d < ?n" and rc: "rep_of ?s' c = Some c" and rd: "rep_of ?s' d = Some d"
      and eq: "?R' ! c = ?R' ! d" for c d
  proof (cases "c = k \<or> d = k")
    case True
    have "c = k" if "d = k"
    proof (rule ccontr)
      assume "c \<noteq> k"
      with root'[OF c] rc have "rep_of s c = Some c" by auto
      from r1[OF c this] have "?R ! c < ?k" by simp
      with eq R'[OF c] R'[OF d] \<open>d = k\<close> \<open>c \<noteq> k\<close> show False by simp
    qed
    moreover have "d = k" if "c = k"
    proof (rule ccontr)
      assume "d \<noteq> k"
      with root'[OF d] rd have "rep_of s d = Some d" by auto
      from r1[OF d this] have "?R ! d < ?k" by simp
      with eq R'[OF c] R'[OF d] \<open>c = k\<close> \<open>d \<noteq> k\<close> show False by simp
    qed
    ultimately show ?thesis using True by auto
  next
    case False
    with root'[OF c] root'[OF d] rc rd have "rep_of s c = Some c" "rep_of s d = Some d" by auto
    moreover have "?R ! c = ?R ! d" using eq R'[OF c] R'[OF d] False by simp
    ultimately show ?thesis using r2[OF c d] by simp
  qed
  have rk: "rep_of ?s' k = Some k" using root'[OF kn] by simp
  have C: "\<exists>c < ?n. rep_of ?s' c = Some c \<and> ?R' ! c = v"
    if v: "v < Suc ?k" and pv: "?par' ! v = v" for v
  proof (cases "v = ?k")
    case True
    with rk kn R'[OF kn] show ?thesis by auto
  next
    case False
    with v have vk: "v < ?k" by simp
    then have v2: "v < 2 * ?n - 1" using klt by simp
    from pv par'[OF v2] vk have nv: "v \<noteq> ?R ! ra" "v \<noteq> ?R ! rb" and pv0: "?par ! v = v"
      by (auto split: if_splits)
    from r3[OF vk pv0] obtain c where c: "c < ?n" "rep_of s c = Some c" "?R ! c = v" by blast
    with nv have cne: "c \<noteq> ra" "c \<noteq> rb" by auto
    then have "c \<noteq> k" using k by auto
    with c cne root'[OF c(1)] R'[OF c(1)] show ?thesis by auto
  qed
  have D: "v < ?par' ! v \<and> ?n \<le> ?par' ! v \<and> ?par' ! v < Suc ?k"
    if v: "v < Suc ?k" and pv: "?par' ! v \<noteq> v" for v
  proof -
    have "v \<noteq> ?k"
    proof
      assume "v = ?k"
      moreover have "?par' ! ?k = ?k" using par'[OF klt] Ra(1) Rb(1) r5[OF order_refl klt] by simp
      ultimately show False using pv by simp
    qed
    with v have vk: "v < ?k" by simp
    then have v2: "v < 2 * ?n - 1" using klt by simp
    show ?thesis
    proof (cases "v = ?R ! ra \<or> v = ?R ! rb")
      case True
      with par'[OF v2] vk nn show ?thesis by simp
    next
      case False
      with par'[OF v2] pv have "?par ! v \<noteq> v" "?par' ! v = ?par ! v" by auto
      with r4[OF vk] show ?thesis by simp
    qed
  qed
  have E: "?par' ! v = v" if "Suc ?k \<le> v" "v < 2 * ?n - 1" for v
    using par'[OF that(2)] that Ra(1) Rb(1) r5[of v] by simp
  have F: "\<exists>c < v. ?par' ! c = v" if v: "?n \<le> v" "v < Suc ?k" for v
  proof (cases "v = ?k")
    case True
    have "?R ! ra < 2 * ?n - 1" using Ra(1) klt by simp
    from par'[OF this] have "?par' ! (?R ! ra) = ?k" by simp
    with True Ra(1) show ?thesis by blast
  next
    case False
    with v have vk: "v < ?k" by simp
    from r6[OF v(1) vk] obtain c where c: "c < v" "?par ! c = v" by blast
    then have "c \<noteq> ?R ! ra" "c \<noteq> ?R ! rb" using Ra(2) Rb(2) by auto
    moreover have "c < 2 * ?n - 1" using c(1) vk klt by simp
    ultimately have "?par' ! c = v" using par'[of c] c(2) by simp
    with c(1) show ?thesis by blast
  qed
  show ?thesis
    unfolding forest_inv_def Let_def merge_state_fields
    using lR lp A B C D E F by (simp del: One_nat_def)
qed

lemma levels_inv_skip: "levels_inv g w s \<Longrightarrow> levels_inv g w (skip_state s u')"
  unfolding levels_inv_def Let_def skip_state_fields by simp

lemma levels_inv_merge:
  assumes inv: "levels_inv g w s" and sinv: "scan_inv g se s"
    and cont: "st_num_edge_found s < num_vertices g - 1"
  shows "levels_inv g w (merge_state g w se s u' k ra rb)"
proof -
  let ?n = "num_vertices g"
  let ?f = "st_num_edge_found s"
  from sinv have nn: "st_num_nodes s = ?n + ?f" and lm: "length (st_mst_edge_map s) = ?n - 1"
    by (auto simp: scan_inv_def Let_def)
  from inv have ll: "length (st_levels s) = 2 * ?n - 1"
    and l0: "\<And>v. v < ?n \<Longrightarrow> st_levels s ! v = 0"
    and lj: "\<And>j. j < ?f \<Longrightarrow> st_levels s ! (?n + j) = w ! (st_mst_edge_map s ! j)"
    by (auto simp: levels_inv_def Let_def)
  have klt: "?n + ?f < length (st_levels s)" using ll cont by simp
  have flt: "?f < length (st_mst_edge_map s)" using lm cont by simp
  have A: "(st_levels s)[?n + ?f := w ! (se ! st_i s)] ! v = 0" if "v < ?n" for v
    using l0[OF that] that by simp
  have B: "(st_levels s)[?n + ?f := w ! (se ! st_i s)] ! (?n + j)
         = w ! ((st_mst_edge_map s)[?f := se ! st_i s] ! j)" if "j < Suc ?f" for j
  proof (cases "j = ?f")
    case True
    with klt flt show ?thesis by simp
  next
    case False
    with that have "j < ?f" by simp
    with lj[OF this] False show ?thesis by simp
  qed
  show ?thesis
    unfolding levels_inv_def Let_def merge_state_fields nn
    using ll A B by simp
qed

text \<open>One iteration keeps the invariant.\<close>

lemma bpt_step_inv:
  assumes ok: "graph_ok g" and se: "\<forall>e \<in> set se. e < num_edges g"
    and inv: "bpt_inv g w se s"
    and cont: "st_num_edge_found s < num_vertices g - 1" and i: "st_i s < length se"
  shows "\<exists>s'. bpt_step g w se s = Inr s' \<and> bpt_inv g w se s'"
proof -
  from inv have sinv: "scan_inv g se s" and finv: "forest_inv g s" and linv: "levels_inv g w s"
    by (simp_all add: bpt_inv_def)
  from ok se sinv i show ?thesis
  proof (cases rule: bpt_step_cases[where w = w])
    case (skip u')
    have "scan_inv g se (skip_state s u')"
      by (rule scan_inv_skip[OF se sinv i skip(2,3,4,5) cont])
    moreover have "forest_inv g (skip_state s u')"
      by (rule forest_inv_skip[OF finv skip(2)])
    moreover have "levels_inv g w (skip_state s u')"
      by (rule levels_inv_skip[OF linv])
    ultimately show ?thesis using skip(1) by (simp add: bpt_inv_def)
  next
    case (merge u' k ra rb)
    have "scan_inv g se (merge_state g w se s u' k ra rb)"
      by (rule scan_inv_merge[OF ok se sinv i merge(8,9,10,5,4,11,12,13) cont])
    moreover have "forest_inv g (merge_state g w se s u' k ra rb)"
      by (rule forest_inv_merge[OF finv sinv merge(2,3,4,5,6,7,10) cont])
    moreover have "levels_inv g w (merge_state g w se s u' k ra rb)"
      by (rule levels_inv_merge[OF linv sinv cont])
    ultimately show ?thesis using merge(1) by (simp add: bpt_inv_def)
  qed
qed

text \<open>The loop returns, in a state that satisfies the invariant and the exit condition.\<close>

lemma bpt_loop_inv:
  assumes ok: "graph_ok g" and se: "\<forall>e \<in> set se. e < num_edges g"
  shows "bpt_inv g w se s \<Longrightarrow>
         \<exists>s'. bpt_loop g w se (num_vertices g - 1) s = Inr s' \<and> bpt_inv g w se s' \<and>
              \<not> (st_num_edge_found s' < num_vertices g - 1 \<and> st_i s' < length se)"
proof (induction "length se - st_i s" arbitrary: s rule: less_induct)
  case less
  show ?case
  proof (cases "st_num_edge_found s < num_vertices g - 1 \<and> st_i s < length se")
    case True
    from bpt_step_inv[OF ok se less.prems] True obtain s1 where
      s1: "bpt_step g w se s = Inr s1" "bpt_inv g w se s1" by blast
    from bpt_step_i[OF s1(1)] True have "length se - st_i s1 < length se - st_i s" by arith
    from less.hyps[OF this s1(2)] obtain s' where
      "bpt_loop g w se (num_vertices g - 1) s1 = Inr s'" "bpt_inv g w se s'"
      "\<not> (st_num_edge_found s' < num_vertices g - 1 \<and> st_i s' < length se)" by blast
    moreover have "bpt_loop g w se (num_vertices g - 1) s = bpt_loop g w se (num_vertices g - 1) s1"
      using True s1(1) by (subst bpt_loop.simps) simp
    ultimately show ?thesis by auto
  next
    case False
    then have "bpt_loop g w se (num_vertices g - 1) s = Inr s"
      by (subst bpt_loop.simps) auto
    with less.prems False show ?thesis by auto
  qed
qed

section \<open>The result of bpt_canonical\<close>

lemma merges_from_sorted:
  "sorted (map f es) \<Longrightarrow> sorted (map f (merges_from g P es))"
proof (induction es arbitrary: P)
  case Nil
  then show ?case by simp
next
  case (Cons e es)
  then show ?case using merges_from_subset[of g "insert e P" es] by auto
qed

lemma kruskal_merges_prefix:
  "kruskal_merges g es =
     kruskal_merges g (take i es) @ merges_from g (set (take i es)) (drop i es)"
proof -
  have "kruskal_merges g es = kruskal_merges g (take i es @ drop i es)" by simp
  then show ?thesis unfolding kruskal_merges_def merges_from_append by simp
qed

lemma sorted_edges_indices_set:
  "set (sorted_edges_indices g w) = {..<num_edges g}"
  "distinct (sorted_edges_indices g w)"
  "length (sorted_edges_indices g w) = num_edges g"
  "sorted (map (\<lambda>e. w ! e) (sorted_edges_indices g w))"
  by (auto simp: sorted_edges_indices_def)

text \<open>
  The final state of the loop on a graph with a vertex: the invariant holds, and the
  loop has found \<open>n - 1\<close> edges exactly when the scan of all the edges performs \<open>n - 1\<close>
  merges.
\<close>

lemma bpt_loop_final:
  fixes w :: "('w::{linorder,zero}) list"
  assumes ok: "graph_ok g" and n: "0 < num_vertices g"
  defines "se \<equiv> sorted_edges_indices g w"
  shows "\<exists>s. bpt_loop g w se (num_vertices g - 1) (bpt_init g) = Inr s \<and> bpt_inv g w se s \<and>
           (st_num_edge_found s = num_vertices g - 1 \<longleftrightarrow>
              length (kruskal_merges g se) = num_vertices g - 1) \<and>
           (st_num_edge_found s = num_vertices g - 1 \<longrightarrow>
              st_mst_edge_map s = kruskal_merges g se)"
proof -
  let ?n = "num_vertices g"
  have se: "\<forall>e \<in> set se. e < num_edges g"
    unfolding se_def by (simp add: sorted_edges_indices_set)
  from bpt_loop_inv[OF ok se bpt_init_inv[OF n]] obtain s where
    loop: "bpt_loop g w se (?n - 1) (bpt_init g) = Inr s" and inv: "bpt_inv g w se s"
    and ex: "\<not> (st_num_edge_found s < ?n - 1 \<and> st_i s < length se)" by blast
  let ?f = "st_num_edge_found s"
  let ?K = "kruskal_merges g se"
  let ?Ki = "kruskal_merges g (take (st_i s) se)"
  from inv have i: "st_i s \<le> length se" and f: "?f = length ?Ki"
    and lm: "length (st_mst_edge_map s) = ?n - 1" and tk: "take ?f (st_mst_edge_map s) = ?Ki"
    by (auto simp: bpt_inv_def scan_inv_def Let_def)
  have K: "?K = ?Ki @ merges_from g (set (take (st_i s) se)) (drop (st_i s) se)"
    by (rule kruskal_merges_prefix)
  have bound: "length ?K \<le> ?n - 1" by (rule kruskal_merges_bound[OF ok se n])
  have le: "?f \<le> length ?K" unfolding f using K by (metis le_add1 length_append)
  have iff: "?f = ?n - 1 \<longleftrightarrow> length ?K = ?n - 1"
  proof
    assume "?f = ?n - 1"
    with le bound show "length ?K = ?n - 1" by simp
  next
    assume a: "length ?K = ?n - 1"
    show "?f = ?n - 1"
    proof (rule ccontr)
      assume "?f \<noteq> ?n - 1"
      with le a have "?f < ?n - 1" by simp
      with ex i have "st_i s = length se" by simp
      with f a \<open>?f \<noteq> ?n - 1\<close> show False by simp
    qed
  qed
  have "st_mst_edge_map s = ?K" if "?f = ?n - 1"
  proof -
    from that iff have "length ?K = length ?Ki" using f by simp
    with K have "?K = ?Ki" by (metis append_eq_conv_conj length_append add_diff_cancel_left'
          append_Nil2 length_0_conv diff_self_eq_0)
    with tk that lm show ?thesis by simp
  qed
  with loop inv iff show ?thesis by blast
qed

text \<open>When all the merges are found the parent vector is a tree.\<close>

lemma bpt_inv_tree_ok:
  assumes ok: "graph_ok g" and n: "0 < num_vertices g"
    and se: "\<forall>e \<in> set se. e < num_edges g"
    and inv: "bpt_inv g w se s" and f: "st_num_edge_found s = num_vertices g - 1"
  shows "tree_ok (st_parents s)"
proof -
  let ?n = "num_vertices g"
  let ?par = "st_parents s"
  let ?R = "st_roots s"
  from inv have sinv: "scan_inv g se s" and finv: "forest_inv g s" by (simp_all add: bpt_inv_def)
  from sinv f n have k: "st_num_nodes s = 2 * ?n - 1"
    and fl: "length (kruskal_merges g (take (st_i s) se)) = ?n - 1"
    and cn: "\<And>u v. u < ?n \<Longrightarrow> v < ?n \<Longrightarrow>
          (rep_of s u = rep_of s v) = ((u, v) \<in> conn g (set (take (st_i s) se)))"
    and uok: "uf_ok (uf_parent (st_uf s))" and len: "length (uf_parent (st_uf s)) = ?n"
    by (auto simp: scan_inv_def Let_def)
  from finv k have lp: "length ?par = 2 * ?n - 1"
    and r3: "\<And>v. v < 2 * ?n - 1 \<Longrightarrow> ?par ! v = v \<Longrightarrow> \<exists>c < ?n. rep_of s c = Some c \<and> ?R ! c = v"
    and r4: "\<And>v. v < 2 * ?n - 1 \<Longrightarrow> ?par ! v \<noteq> v \<Longrightarrow> v < ?par ! v \<and> ?par ! v < 2 * ?n - 1"
    by (auto simp: forest_inv_def Let_def)
  have sei: "\<forall>e \<in> set (take (st_i s) se). e < num_edges g"
    using se by (meson in_set_takeD)
  have "comps g (set (take (st_i s) se)) = 1"
    using kruskal_merges_length[OF ok sei] fl n by simp
  then have all: "(u, v) \<in> conn g (set (take (st_i s) se))" if "u < ?n" "v < ?n" for u v
    using comps_one_iff[OF n] that by blast
  have one: "c = d" if "c < ?n" "d < ?n" "rep_of s c = Some c" "rep_of s d = Some d" for c d
    using cn[OF that(1,2)] all[OF that(1,2)] that(3,4) by simp
  have last: "?par ! (2 * ?n - 2) = 2 * ?n - 2"
  proof (rule ccontr)
    assume a: "?par ! (2 * ?n - 2) \<noteq> 2 * ?n - 2"
    have "2 * ?n - 2 < 2 * ?n - 1" using n by arith
    from r4[OF this a] show False by arith
  qed
  have inner: "v < ?par ! v \<and> ?par ! v < 2 * ?n - 1" if v: "v < 2 * ?n - 2" for v
  proof (rule r4)
    show v1: "v < 2 * ?n - 1" using v by simp
    have l1: "2 * ?n - 2 < 2 * ?n - 1" using n by arith
    show "?par ! v \<noteq> v"
    proof
      assume pv: "?par ! v = v"
      from r3[OF v1 pv] obtain c where c: "c < ?n" "rep_of s c = Some c" "?R ! c = v" by blast
      from r3[OF l1 last] obtain d where d: "d < ?n" "rep_of s d = Some d" "?R ! d = 2 * ?n - 2"
        by blast
      from one[OF c(1) d(1) c(2) d(2)] c(3) d(3) v show False by simp
    qed
  qed
  have ne: "?par \<noteq> []" using lp n by auto
  have l1: "length ?par - 1 = 2 * ?n - 2" using lp by simp
  show ?thesis
    unfolding tree_ok_def l1 using ne last inner lp by simp
qed

text \<open>The result of \<open>bpt_canonical\<close> on a graph with a vertex and weights of the right
  length.\<close>

lemma bpt_canonical_result:
  fixes w :: "('w::{linorder,zero}) list"
  assumes ok: "graph_ok g" and n: "0 < num_vertices g" and lw: "length w = num_edges g"
  defines "se \<equiv> sorted_edges_indices g w"
  shows "(length (kruskal_merges g se) \<noteq> num_vertices g - 1 \<longrightarrow>
            bpt_canonical g w = Inl DisconnectedGraph) \<and>
         (length (kruskal_merges g se) = num_vertices g - 1 \<longrightarrow>
            (\<exists>s. bpt_loop g w se (num_vertices g - 1) (bpt_init g) = Inr s \<and>
                 bpt_inv g w se s \<and> st_num_edge_found s = num_vertices g - 1 \<and>
                 st_mst_edge_map s = kruskal_merges g se \<and> tree_ok (st_parents s) \<and>
                 bpt_canonical g w =
                   Inr \<lparr>tree = st_parents s, altitudes = st_levels s, mst = st_mst s,
                        mst_edge_map = st_mst_edge_map s\<rparr>))"
proof -
  let ?n = "num_vertices g"
  have se: "\<forall>e \<in> set se. e < num_edges g"
    unfolding se_def by (simp add: sorted_edges_indices_set)
  from bpt_loop_final[OF ok n, of w] obtain s where
    loop: "bpt_loop g w se (?n - 1) (bpt_init g) = Inr s" and inv: "bpt_inv g w se s"
    and iff: "st_num_edge_found s = ?n - 1 \<longleftrightarrow> length (kruskal_merges g se) = ?n - 1"
    and mem: "st_num_edge_found s = ?n - 1 \<Longrightarrow> st_mst_edge_map s = kruskal_merges g se"
    unfolding se_def by blast
  have bc: "bpt_canonical g w =
      (if st_num_edge_found s \<noteq> ?n - 1 then Inl DisconnectedGraph
       else case make_tree (st_parents s) of
              Inl err \<Rightarrow> Inl err
            | Inr t \<Rightarrow> Inr \<lparr>tree = t, altitudes = st_levels s, mst = st_mst s,
                           mst_edge_map = st_mst_edge_map s\<rparr>)"
    using n lw loop unfolding bpt_canonical_def Let_def se_def by simp
  show ?thesis
  proof (intro conjI impI)
    assume "length (kruskal_merges g se) \<noteq> ?n - 1"
    with iff bc show "bpt_canonical g w = Inl DisconnectedGraph" by simp
  next
    assume "length (kruskal_merges g se) = ?n - 1"
    with iff have f: "st_num_edge_found s = ?n - 1" by simp
    have t: "tree_ok (st_parents s)" by (rule bpt_inv_tree_ok[OF ok n se inv f])
    with bc f have "bpt_canonical g w =
        Inr \<lparr>tree = st_parents s, altitudes = st_levels s, mst = st_mst s,
             mst_edge_map = st_mst_edge_map s\<rparr>"
      by (simp add: make_tree_def)
    with loop inv f mem[OF f] t show "\<exists>s. bpt_loop g w se (?n - 1) (bpt_init g) = Inr s \<and>
                 bpt_inv g w se s \<and> st_num_edge_found s = ?n - 1 \<and>
                 st_mst_edge_map s = kruskal_merges g se \<and> tree_ok (st_parents s) \<and>
                 bpt_canonical g w =
                   Inr \<lparr>tree = st_parents s, altitudes = st_levels s, mst = st_mst s,
                        mst_edge_map = st_mst_edge_map s\<rparr>" by blast
  qed
qed

text \<open>
  Claim C3. On a graph with at least one vertex (without vertices the sizes wrap around
  and an allocation fails first) and weights of the right length:
  \<open>bpt_canonical\<close> fails with \<open>DisconnectedGraph\<close> exactly when the Kruskal scan of
  all the edges, in sorted order, performs fewer than \<open>n - 1\<close> merges, which is exactly
  when the graph is not connected; otherwise it returns a result, so that a failure
  carries no partial result; and on a connected graph the loop ends at the first index
  at which \<open>n - 1\<close> merges have been found.
\<close>

theorem bpt_canonical_disconnected:
  fixes w :: "('w::{linorder,zero}) list"
  assumes ok: "graph_ok g" and n: "0 < num_vertices g" and lw: "length w = num_edges g"
  shows "(bpt_canonical g w = Inl DisconnectedGraph \<longleftrightarrow>
            length (kruskal_merges g (sorted_edges_indices g w)) < num_vertices g - 1) \<and>
         (bpt_canonical g w = Inl DisconnectedGraph \<longleftrightarrow> \<not> connected_graph g) \<and>
         (bpt_canonical g w = Inl DisconnectedGraph \<or> (\<exists>r. bpt_canonical g w = Inr r)) \<and>
         (connected_graph g \<longrightarrow>
            (\<exists>s. bpt_loop g w (sorted_edges_indices g w) (num_vertices g - 1) (bpt_init g) = Inr s \<and>
                 length (kruskal_merges g (take (st_i s) (sorted_edges_indices g w)))
                   = num_vertices g - 1 \<and>
                 (\<forall>j < st_i s. length (kruskal_merges g (take j (sorted_edges_indices g w)))
                   < num_vertices g - 1)))"
proof -
  let ?n = "num_vertices g"
  let ?se = "sorted_edges_indices g w"
  let ?K = "kruskal_merges g ?se"
  have se: "\<forall>e \<in> set ?se. e < num_edges g" by (simp add: sorted_edges_indices_set)
  have bound: "length ?K \<le> ?n - 1" by (rule kruskal_merges_bound[OF ok se n])
  have con: "length ?K = ?n - 1 \<longleftrightarrow> connected_graph g"
    by (rule kruskal_merges_connected[OF ok sorted_edges_indices_set(1) n])
  note res = bpt_canonical_result[OF ok n lw]
  have 1: "bpt_canonical g w = Inl DisconnectedGraph \<longleftrightarrow> length ?K < ?n - 1"
  proof
    assume a: "bpt_canonical g w = Inl DisconnectedGraph"
    have "length ?K \<noteq> ?n - 1"
    proof
      assume "length ?K = ?n - 1"
      with res obtain r where "bpt_canonical g w = Inr r" by blast
      with a show False by simp
    qed
    with bound show "length ?K < ?n - 1" by simp
  next
    assume "length ?K < ?n - 1"
    with res show "bpt_canonical g w = Inl DisconnectedGraph" by simp
  qed
  have 2: "bpt_canonical g w = Inl DisconnectedGraph \<longleftrightarrow> \<not> connected_graph g"
    unfolding 1 con[symmetric] using bound by auto
  have 3: "bpt_canonical g w = Inl DisconnectedGraph \<or> (\<exists>r. bpt_canonical g w = Inr r)"
    using res by (cases "length ?K = ?n - 1") auto
  have 4: "\<exists>s. bpt_loop g w ?se (?n - 1) (bpt_init g) = Inr s \<and>
             length (kruskal_merges g (take (st_i s) ?se)) = ?n - 1 \<and>
             (\<forall>j < st_i s. length (kruskal_merges g (take j ?se)) < ?n - 1)"
    if "connected_graph g"
  proof -
    from that con have "length ?K = ?n - 1" by simp
    with res obtain s where s: "bpt_loop g w ?se (?n - 1) (bpt_init g) = Inr s"
      "bpt_inv g w ?se s" "st_num_edge_found s = ?n - 1" by blast
    from s(2,3) have "length (kruskal_merges g (take (st_i s) ?se)) = ?n - 1"
      "\<forall>j < st_i s. length (kruskal_merges g (take j ?se)) < ?n - 1"
      by (auto simp: bpt_inv_def scan_inv_def Let_def)
    with s(1) show ?thesis by blast
  qed
  from 1 2 3 4 show ?thesis by blast
qed

theorem bpt_canonical_disconnected_witness:
  "bpt_canonical \<lparr>num_vertices = 3, edge_list = [(0, 1)]\<rparr> [5::int] = Inl DisconnectedGraph \<and>
   \<not> connected_graph \<lparr>num_vertices = 3, edge_list = [(0, 1)]\<rparr>"
proof -
  let ?g = "\<lparr>num_vertices = 3, edge_list = [(0, 1)]\<rparr>"
  have ok: "graph_ok ?g" by (simp add: graph_ok_def source_def target_def)
  have n: "0 < num_vertices ?g" by simp
  have lw: "length [5::int] = num_edges ?g" by (simp add: num_edges_def)
  have "bpt_canonical ?g [5::int] = Inl DisconnectedGraph" by code_simp
  with bpt_canonical_disconnected[OF ok n lw] show ?thesis by blast
qed

text \<open>The leaves of the tree of \<open>bpt_canonical\<close> are the vertices of the graph.\<close>

lemma forest_inv_leaves:
  assumes finv: "forest_inv g s" and k: "st_num_nodes s = 2 * num_vertices g - 1"
    and t: "tree_ok (st_parents s)" and v: "v < 2 * num_vertices g - 1"
  shows "is_leaf v (st_parents s) \<longleftrightarrow> v < num_vertices g"
proof -
  let ?n = "num_vertices g"
  let ?par = "st_parents s"
  from finv k have lp: "length ?par = 2 * ?n - 1"
    and r4: "\<And>v. v < 2 * ?n - 1 \<Longrightarrow> ?par ! v \<noteq> v \<Longrightarrow> ?n \<le> ?par ! v"
    and r6: "\<And>v. ?n \<le> v \<Longrightarrow> v < 2 * ?n - 1 \<Longrightarrow> \<exists>c < v. ?par ! c = v"
    by (auto simp: forest_inv_def Let_def)
  show ?thesis
  proof
    assume leaf: "is_leaf v ?par"
    show "v < ?n"
    proof (rule ccontr)
      assume "\<not> v < ?n"
      with r6[of v] v obtain c where c: "c < v" "?par ! c = v" by auto
      with v lp have "c < length ?par - 1" by simp
      with leaf c(2) show False by (simp add: is_leaf_iff)
    qed
  next
    assume vn: "v < ?n"
    have "?par ! c \<noteq> v" if "c < length ?par - 1" for c
    proof
      assume e: "?par ! c = v"
      from tree_ok_parent_gt[OF t that] e have "?par ! c \<noteq> c" by simp
      moreover have "c < 2 * ?n - 1" using that lp by simp
      ultimately have "?n \<le> ?par ! c" by (intro r4)
      with e vn show False by simp
    qed
    then show "is_leaf v ?par" by (simp add: is_leaf_iff)
  qed
qed

text \<open>
  Claim C2, as the code has it. On a connected graph \<open>bpt_canonical\<close> returns a tree
  with \<open>2n - 1\<close> nodes whose leaves are the \<open>n\<close> vertices; the altitude of every leaf
  is \<open>0\<close>; the altitude of the inner node \<open>n + j\<close>, created by the \<open>j\<close>-th fusion, is the
  weight of the edge \<open>mst_edge_map[j]\<close> of that fusion; the altitude of an inner node is
  at most the altitude of its parent; and when no weight is negative the same holds for
  the leaves, so that the altitudes do not decrease along any path to the root.
\<close>

theorem bpt_canonical_altitudes:
  fixes w :: "('w::{linorder,zero}) list"
  assumes ok: "graph_ok g" and con: "connected_graph g" and lw: "length w = num_edges g"
  shows "\<exists>r. bpt_canonical g w = Inr r \<and> tree_ok (tree r) \<and>
           length (tree r) = 2 * num_vertices g - 1 \<and>
           length (altitudes r) = 2 * num_vertices g - 1 \<and>
           (\<forall>v < 2 * num_vertices g - 1. is_leaf v (tree r) \<longleftrightarrow> v < num_vertices g) \<and>
           (\<forall>v < num_vertices g. altitudes r ! v = 0) \<and>
           (\<forall>j < num_vertices g - 1.
              altitudes r ! (num_vertices g + j) = w ! (mst_edge_map r ! j)) \<and>
           (\<forall>v < 2 * num_vertices g - 2.
              num_vertices g \<le> v \<longrightarrow> altitudes r ! v \<le> altitudes r ! (tree r ! v)) \<and>
           ((\<forall>e < num_edges g. 0 \<le> w ! e) \<longrightarrow>
              (\<forall>v < 2 * num_vertices g - 2. altitudes r ! v \<le> altitudes r ! (tree r ! v)))"
proof -
  let ?n = "num_vertices g"
  let ?se = "sorted_edges_indices g w"
  let ?K = "kruskal_merges g ?se"
  from con have n: "0 < ?n" by (simp add: connected_graph_def)
  have se: "\<forall>e \<in> set ?se. e < num_edges g" by (simp add: sorted_edges_indices_set)
  have "length ?K = ?n - 1"
    using kruskal_merges_connected[OF ok sorted_edges_indices_set(1) n] con by simp
  with bpt_canonical_result[OF ok n lw] obtain s where
    inv: "bpt_inv g w ?se s" and f: "st_num_edge_found s = ?n - 1"
    and mem: "st_mst_edge_map s = ?K" and t: "tree_ok (st_parents s)"
    and bc: "bpt_canonical g w =
       Inr \<lparr>tree = st_parents s, altitudes = st_levels s, mst = st_mst s,
            mst_edge_map = st_mst_edge_map s\<rparr>" by blast
  let ?par = "st_parents s"
  let ?lev = "st_levels s"
  from inv have sinv: "scan_inv g ?se s" and finv: "forest_inv g s" and linv: "levels_inv g w s"
    by (simp_all add: bpt_inv_def)
  from sinv f n have k: "st_num_nodes s = 2 * ?n - 1" by (auto simp: scan_inv_def Let_def)
  from finv k have lp: "length ?par = 2 * ?n - 1"
    and r4: "\<And>v. v < 2 * ?n - 1 \<Longrightarrow> ?par ! v \<noteq> v \<Longrightarrow> ?n \<le> ?par ! v"
    by (auto simp: forest_inv_def Let_def)
  from linv f have ll: "length ?lev = 2 * ?n - 1"
    and l0: "\<And>v. v < ?n \<Longrightarrow> ?lev ! v = 0"
    and lj: "\<And>j. j < ?n - 1 \<Longrightarrow> ?lev ! (?n + j) = w ! (st_mst_edge_map s ! j)"
    by (auto simp: levels_inv_def Let_def)
  have leaves: "is_leaf v ?par \<longleftrightarrow> v < ?n" if "v < 2 * ?n - 1" for v
    by (rule forest_inv_leaves[OF finv k t that])
  have srt: "sorted (map (\<lambda>e. w ! e) ?K)"
    unfolding kruskal_merges_def
    by (rule merges_from_sorted) (rule sorted_edges_indices_set(4))
  have lK: "length ?K = ?n - 1" by fact
  have par: "v < ?par ! v \<and> ?par ! v < 2 * ?n - 1 \<and> ?n \<le> ?par ! v" if v: "v < 2 * ?n - 2" for v
  proof -
    have "v < length ?par - 1" using v lp by simp
    from tree_ok_parent_gt[OF t this] lp have a: "v < ?par ! v" "?par ! v < 2 * ?n - 1" by auto
    from r4[of v] a v show ?thesis by simp
  qed
  have inner: "?lev ! v \<le> ?lev ! (?par ! v)" if v: "v < 2 * ?n - 2" and vn: "?n \<le> v" for v
  proof -
    from par[OF v] have p: "v < ?par ! v" "?par ! v < 2 * ?n - 1" by auto
    define j where "j = v - ?n"
    define j' where "j' = ?par ! v - ?n"
    have j: "v = ?n + j" "?par ! v = ?n + j'" "j < j'" "j' < ?n - 1"
      using vn p by (auto simp: j_def j'_def)
    have "w ! (?K ! j) \<le> w ! (?K ! j')"
      using sorted_nth_mono[OF srt, of j j'] j lK by simp
    moreover have "?lev ! v = w ! (?K ! j)"
      using lj[of j] j(1,3,4) mem by simp
    moreover have "?lev ! (?par ! v) = w ! (?K ! j')"
      using lj[of j'] j(2,4) mem by simp
    ultimately show ?thesis by simp
  qed
  have leaf: "?lev ! v \<le> ?lev ! (?par ! v)"
    if v: "v < 2 * ?n - 2" and vn: "v < ?n" and pos: "\<forall>e < num_edges g. 0 \<le> w ! e" for v
  proof -
    from par[OF v] have p: "?n \<le> ?par ! v" "?par ! v < 2 * ?n - 1" by auto
    define j' where "j' = ?par ! v - ?n"
    have j: "?par ! v = ?n + j'" "j' < ?n - 1" using p by (auto simp: j'_def)
    have "?K ! j' \<in> set ?K" using j(2) lK by simp
    then have "?K ! j' \<in> set ?se"
      using merges_from_subset[of g "{}" ?se] by (auto simp: kruskal_merges_def)
    then have "?K ! j' < num_edges g" using se by blast
    with pos have "0 \<le> w ! (?K ! j')" by simp
    moreover have "?lev ! (?par ! v) = w ! (?K ! j')"
      using lj[of j'] j mem by simp
    ultimately show ?thesis using l0[OF vn] by simp
  qed
  have all: "?lev ! v \<le> ?lev ! (?par ! v)"
    if "\<forall>e < num_edges g. 0 \<le> w ! e" "v < 2 * ?n - 2" for v
    using inner[OF that(2)] leaf[OF that(2) _ that(1)] by (cases "v < ?n") auto
  show ?thesis
    unfolding bc using t lp ll leaves l0 lj inner all by simp
qed

lemma bpt_canonical_Inr_connected:
  fixes w :: "('w::{linorder,zero}) list"
  assumes ok: "graph_ok g" and n: "0 < num_vertices g" and lw: "length w = num_edges g"
    and r: "bpt_canonical g w = Inr r"
  shows "connected_graph g"
proof -
  have "length (kruskal_merges g (sorted_edges_indices g w)) = num_vertices g - 1"
    using bpt_canonical_result[OF ok n lw] r by auto
  then show ?thesis
    using kruskal_merges_connected[OF ok sorted_edges_indices_set(1)[of g w] n] by simp
qed

theorem bpt_canonical_altitudes_counterexample:
  "graph_ok \<lparr>num_vertices = 2, edge_list = [(0, 1)]\<rparr> \<and>
   connected_graph \<lparr>num_vertices = 2, edge_list = [(0, 1)]\<rparr> \<and>
   bpt_canonical \<lparr>num_vertices = 2, edge_list = [(0, 1)]\<rparr> [- 1 :: int] =
     Inr \<lparr>tree = [2, 2, 2], altitudes = [0, 0, - 1],
          mst = \<lparr>num_vertices = 2, edge_list = [(0, 1)]\<rparr>, mst_edge_map = [0]\<rparr> \<and>
   [0, 0, - 1 :: int] ! ([2, 2, 2] ! 0) < [0, 0, - 1] ! 0"
proof -
  let ?g = "\<lparr>num_vertices = 2, edge_list = [(0, 1)]\<rparr>"
  have ok: "graph_ok ?g" by (simp add: graph_ok_def source_def target_def)
  have bc: "bpt_canonical ?g [- 1 :: int] =
     Inr \<lparr>tree = [2, 2, 2], altitudes = [0, 0, - 1],
          mst = \<lparr>num_vertices = 2, edge_list = [(0, 1)]\<rparr>, mst_edge_map = [0]\<rparr>"
    by code_simp
  have "connected_graph ?g"
    by (rule bpt_canonical_Inr_connected[OF ok _ _ bc]) (simp_all add: num_edges_def)
  with ok bc show ?thesis by simp
qed

theorem bpt_canonical_altitudes_witness:
  "\<exists>r. bpt_canonical
          \<lparr>num_vertices = 6, edge_list = [(0,1),(0,3),(1,2),(1,4),(2,5),(3,4),(4,5)]\<rparr>
          [1, 0, 2, 1, 1, 1, 2::int] = Inr r \<and>
        altitudes r ! 0 = 0 \<and> altitudes r ! (6 + 4) = [1, 0, 2, 1, 1, 1, 2] ! (mst_edge_map r ! 4) \<and>
        altitudes r ! 7 \<le> altitudes r ! (tree r ! 7) \<and>
        altitudes r ! 0 \<le> altitudes r ! (tree r ! 0)"
proof -
  let ?g = "\<lparr>num_vertices = 6, edge_list = [(0,1),(0,3),(1,2),(1,4),(2,5),(3,4),(4,5)]\<rparr>"
  let ?w = "[1, 0, 2, 1, 1, 1, 2::int]"
  have ok: "graph_ok ?g" by (simp add: graph_ok_def source_def target_def)
  have lw: "length ?w = num_edges ?g" by (simp add: num_edges_def)
  have bc: "bpt_canonical ?g ?w =
     Inr \<lparr>tree = [6, 7, 9, 6, 8, 9, 7, 8, 10, 10, 10],
          altitudes = [0, 0, 0, 0, 0, 0, 0, 1, 1, 1, 2],
          mst = \<lparr>num_vertices = 6, edge_list = [(0, 3), (0, 1), (1, 4), (2, 5), (1, 2)]\<rparr>,
          mst_edge_map = [1, 0, 3, 4, 2]\<rparr>"
    by code_simp
  have con: "connected_graph ?g"
    by (rule bpt_canonical_Inr_connected[OF ok _ lw bc]) simp
  have pos: "\<forall>e < num_edges ?g. 0 \<le> ?w ! e"
    by (simp add: num_edges_def nth_Cons' )
  from bpt_canonical_altitudes[OF ok con lw] pos obtain r where
    r: "bpt_canonical ?g ?w = Inr r"
    and l0: "\<forall>v < 6. altitudes r ! v = 0"
    and lj: "\<forall>j < 5. altitudes r ! (6 + j) = ?w ! (mst_edge_map r ! j)"
    and mono: "\<forall>v < 10. altitudes r ! v \<le> altitudes r ! (tree r ! v)"
    by auto
  from l0 have 1: "altitudes r ! 0 = 0" by simp
  have "(4::nat) < 5" by simp
  with lj have 2: "altitudes r ! (6 + 4) = ?w ! (mst_edge_map r ! 4)" by blast
  from mono have 3: "altitudes r ! 7 \<le> altitudes r ! (tree r ! 7)" by simp
  from mono have 4: "altitudes r ! 0 \<le> altitudes r ! (tree r ! 0)" by simp
  from r 1 2 3 4 show ?thesis by blast
qed

section \<open>The minimum spanning tree\<close>

text \<open>
  A spanning tree of the graph, as a set of edge ids: \<open>n - 1\<close> edges that connect all
  the vertices. Its weight is the sum of the weights of its edges.
\<close>

definition spanning_tree :: "graph \<Rightarrow> nat set \<Rightarrow> bool" where
  "spanning_tree g T =
     (T \<subseteq> {..<num_edges g} \<and> card T = num_vertices g - 1 \<and>
      (\<forall>u < num_vertices g. \<forall>v < num_vertices g. (u, v) \<in> conn g T))"

definition total_weight :: "('w::comm_monoid_add) list \<Rightarrow> nat set \<Rightarrow> 'w" where
  "total_weight w T = (\<Sum>e \<in> T. w ! e)"

lemma merges_from_length: "length (merges_from g P es) \<le> length es"
  by (induction es arbitrary: P) (auto simp: le_SucI)

text \<open>More edges, fewer components: one fewer per edge at most.\<close>

lemma comps_subset:
  assumes ok: "graph_ok g" and AB: "A \<subseteq> B" and B: "B \<subseteq> {..<num_edges g}"
  shows "comps g B \<le> comps g A \<and> comps g A \<le> comps g B + card (B - A)"
proof -
  have fin: "finite (B - A)" using B by (meson finite_Diff finite_lessThan finite_subset)
  define xs where "xs = sorted_list_of_set (B - A)"
  have xs: "set xs = B - A" "length xs = card (B - A)"
    using fin by (simp_all add: xs_def)
  have lt: "\<forall>e \<in> set xs. e < num_edges g" using xs(1) B by auto
  have un: "A \<union> set xs = B" using xs(1) AB by auto
  from merges_from_comps[OF ok lt, of A] merges_from_length[of g A xs]
  show ?thesis unfolding un xs(2) by simp
qed

lemma spanning_tree_subset:
  assumes ok: "graph_ok g" and n: "0 < num_vertices g"
    and T: "spanning_tree g T" and F: "F \<subseteq> T"
  shows "card F + comps g F = num_vertices g"
proof -
  let ?n = "num_vertices g"
  from T have Tm: "T \<subseteq> {..<num_edges g}" and cT: "card T = ?n - 1"
    and all: "\<forall>u < ?n. \<forall>v < ?n. (u, v) \<in> conn g T"
    by (auto simp: spanning_tree_def)
  have finT: "finite T" using Tm by (meson finite_lessThan finite_subset)
  have c1: "comps g T = 1" using comps_one_iff[OF n] all by simp
  have Fm: "F \<subseteq> {..<num_edges g}" using F Tm by simp
  from comps_subset[OF ok _ Fm, of "{}"] have 1: "?n \<le> comps g F + card F"
    by (simp add: comps_empty)
  have "card (T - F) = card T - card F"
    using F finT by (simp add: card_Diff_subset finite_subset)
  moreover have "card F \<le> card T" using F finT by (simp add: card_mono)
  moreover from comps_subset[OF ok F Tm] have "comps g F \<le> comps g T + card (T - F)" by simp
  ultimately have 2: "comps g F + card F \<le> ?n" using c1 cT n by simp
  from 1 2 show ?thesis by simp
qed

text \<open>Among the first \<open>k\<close> edges of any list, a spanning tree has at most as many edges
  as the scan has merged.\<close>

lemma spanning_tree_prefix:
  assumes ok: "graph_ok g" and n: "0 < num_vertices g"
    and T: "spanning_tree g T" and es: "\<forall>e \<in> set es. e < num_edges g"
  shows "card (T \<inter> set es) \<le> length (kruskal_merges g es)"
proof -
  have P: "set es \<subseteq> {..<num_edges g}" using es by auto
  have "card (T \<inter> set es) + comps g (T \<inter> set es) = num_vertices g"
    by (rule spanning_tree_subset[OF ok n T]) simp
  moreover have "comps g (set es) \<le> comps g (T \<inter> set es)"
    using comps_subset[OF ok _ P, of "T \<inter> set es"] by simp
  moreover have "length (kruskal_merges g es) + comps g (set es) = num_vertices g"
    by (rule kruskal_merges_length[OF ok es])
  ultimately show ?thesis by simp
qed

lemma kruskal_merges_inter_prefix:
  assumes "distinct es"
  shows "set (kruskal_merges g es) \<inter> set (take k es) = set (kruskal_merges g (take k es))"
proof -
  let ?rest = "merges_from g (set (take k es)) (drop k es)"
  have K: "kruskal_merges g es = kruskal_merges g (take k es) @ ?rest"
    by (rule kruskal_merges_prefix)
  have 1: "set (kruskal_merges g (take k es)) \<subseteq> set (take k es)"
    unfolding kruskal_merges_def by (rule merges_from_subset)
  have "set ?rest \<subseteq> set (drop k es)" by (rule merges_from_subset)
  moreover have "set (take k es) \<inter> set (drop k es) = {}"
    using assms by (metis append_take_drop_id distinct_append)
  ultimately have 2: "set ?rest \<inter> set (take k es) = {}" by auto
  show ?thesis unfolding K using 1 2 by auto
qed

lemma kruskal_merges_distinct: "distinct es \<Longrightarrow> distinct (kruskal_merges g es)"
  unfolding kruskal_merges_def by (rule merges_from_distinct)

subsection \<open>The greedy choice is lightest\<close>

lemma filter_length_card:
  "distinct xs \<Longrightarrow> length (filter (\<lambda>e. e \<in> A) xs) = card (A \<inter> set xs)"
proof -
  assume d: "distinct xs"
  have "length (filter (\<lambda>e. e \<in> A) xs) = card (set (filter (\<lambda>e. e \<in> A) xs))"
    by (rule distinct_card[symmetric]) (simp add: d)
  also have "set (filter (\<lambda>e. e \<in> A) xs) = A \<inter> set xs" by auto
  finally show ?thesis .
qed

lemma prefix_dominance_weight:
  fixes f :: "nat \<Rightarrow> 'a::linordered_idom"
  assumes "sorted (map f xs)"
    and "\<forall>k \<le> length xs. length (filter T (take k xs)) \<le> length (filter K (take k xs))"
    and "\<forall>x \<in> set xs. f x \<le> c"
  shows "sum_list (map f (filter K xs)) + of_nat (length (filter T xs)) * c
       \<le> sum_list (map f (filter T xs)) + of_nat (length (filter K xs)) * c"
  using assms
proof (induction xs arbitrary: c rule: rev_induct)
  case Nil
  then show ?case by simp
next
  case (snoc x xs)
  let ?a = "sum_list (map f (filter K xs))"
  let ?b = "sum_list (map f (filter T xs))"
  let ?p = "length (filter K xs)"
  let ?q = "length (filter T xs)"
  from snoc.prems(1) have srt: "sorted (map f xs)" and le: "\<forall>y \<in> set xs. f y \<le> f x"
    by (auto simp: sorted_append)
  have dom: "\<forall>k \<le> length xs. length (filter T (take k xs)) \<le> length (filter K (take k xs))"
  proof (intro allI impI)
    fix k assume k: "k \<le> length xs"
    then have "k \<le> length (xs @ [x])" by simp
    with snoc.prems(2) have
      "length (filter T (take k (xs @ [x]))) \<le> length (filter K (take k (xs @ [x])))"
      by blast
    with k show "length (filter T (take k xs)) \<le> length (filter K (take k xs))" by simp
  qed
  from snoc.prems(2) have domx:
    "length (filter T (xs @ [x])) \<le> length (filter K (xs @ [x]))"
    by (metis le_refl take_all)
  from snoc.prems(3) have cx: "f x \<le> c" and cxs: "\<forall>y \<in> set xs. f y \<le> c" by auto
  have IHc: "?a + of_nat ?q * c \<le> ?b + of_nat ?p * c"
    by (rule snoc.IH[OF srt dom cxs])
  have IHx: "?a + of_nat ?q * f x \<le> ?b + of_nat ?p * f x"
    by (rule snoc.IH[OF srt dom le])
  show ?case
  proof (cases "K x")
    case True
    then show ?thesis using IHc cx by (cases "T x") (simp_all add: algebra_simps)
  next
    case False
    show ?thesis
    proof (cases "T x")
      case F: False
      with False IHc show ?thesis by simp
    next
      case True
      with False domx have "Suc ?q \<le> ?p" by simp
      then obtain d where d: "?p = Suc ?q + d" using le_Suc_ex by blast
      have "of_nat d * f x \<le> of_nat d * c"
        by (rule mult_left_mono[OF cx]) simp
      moreover from IHx have "?a \<le> ?b + f x + of_nat d * f x"
        unfolding d by (simp add: algebra_simps)
      ultimately have *: "?a \<le> ?b + f x + of_nat d * c" by simp
      have e1: "length (filter K (xs @ [x])) = Suc ?q + d" using False d by simp
      have e2: "length (filter T (xs @ [x])) = Suc ?q" using True by simp
      have e3: "sum_list (map f (filter K (xs @ [x]))) = ?a" using False by simp
      have e4: "sum_list (map f (filter T (xs @ [x]))) = ?b + f x" using True by simp
      show ?thesis unfolding e1 e2 e3 e4 using * by (simp add: algebra_simps)
    qed
  qed
qed

lemma list_upper_bound:
  fixes f :: "nat \<Rightarrow> 'a::linorder"
  shows "\<exists>c. \<forall>x \<in> set xs. f x \<le> c"
proof (induction xs)
  case Nil
  then show ?case by simp
next
  case (Cons x xs)
  then obtain c where "\<forall>y \<in> set xs. f y \<le> c" by blast
  then have "\<forall>y \<in> set (x # xs). f y \<le> max c (f x)" by (auto simp: max_def)
  then show ?case by blast
qed

text \<open>The merging edges of a scan in non-decreasing weight order weigh at most as much
  as any spanning tree.\<close>

lemma kruskal_merges_minimal:
  fixes w :: "('w::linordered_idom) list"
  assumes ok: "graph_ok g" and n: "0 < num_vertices g"
    and es: "set es = {..<num_edges g}" and d: "distinct es"
    and srt: "sorted (map (\<lambda>e. w ! e) es)"
    and full: "length (kruskal_merges g es) = num_vertices g - 1"
    and T: "spanning_tree g T"
  shows "sum_list (map (\<lambda>e. w ! e) (kruskal_merges g es)) \<le> total_weight w T"
proof -
  let ?K = "kruskal_merges g es"
  let ?inK = "\<lambda>e. e \<in> set ?K"
  let ?inT = "\<lambda>e. e \<in> T"
  let ?f = "\<lambda>e. w ! e"
  have lt: "\<forall>e \<in> set es. e < num_edges g" using es by simp
  have dK: "distinct ?K" by (rule kruskal_merges_distinct[OF d])
  have subK: "set ?K \<subseteq> set es" unfolding kruskal_merges_def by (rule merges_from_subset)
  from T have Tm: "T \<subseteq> set es" and cT: "card T = num_vertices g - 1"
    by (auto simp: spanning_tree_def es)
  have dom: "\<forall>k \<le> length es. length (filter ?inT (take k es)) \<le> length (filter ?inK (take k es))"
  proof (intro allI impI)
    fix k assume "k \<le> length es"
    have dk: "distinct (take k es)" using d by simp
    have ltk: "\<forall>e \<in> set (take k es). e < num_edges g" using lt by (meson in_set_takeD)
    have "length (filter ?inT (take k es)) = card (T \<inter> set (take k es))"
      by (rule filter_length_card[OF dk])
    also have "\<dots> \<le> length (kruskal_merges g (take k es))"
      by (rule spanning_tree_prefix[OF ok n T ltk])
    also have "\<dots> = card (set (kruskal_merges g (take k es)))"
      using kruskal_merges_distinct[OF dk] by (simp add: distinct_card)
    also have "\<dots> = card (set ?K \<inter> set (take k es))"
      by (simp only: kruskal_merges_inter_prefix[OF d])
    also have "\<dots> = length (filter ?inK (take k es))"
      by (rule filter_length_card[OF dk, symmetric])
    finally show "length (filter ?inT (take k es)) \<le> length (filter ?inK (take k es))" .
  qed
  obtain c where c: "\<forall>x \<in> set es. ?f x \<le> c" using list_upper_bound[where f = ?f and xs = es] by blast
  note main = prefix_dominance_weight[OF srt dom c]
  have cntT: "length (filter ?inT es) = num_vertices g - 1"
    using filter_length_card[OF d, of T] Tm cT by (simp add: Int_absorb2)
  have cntK: "length (filter ?inK es) = num_vertices g - 1"
    using filter_length_card[OF d, of "set ?K"] subK dK full
    by (simp add: Int_absorb2 distinct_card)
  from main have le: "sum_list (map ?f (filter ?inK es)) \<le> sum_list (map ?f (filter ?inT es))"
    unfolding cntT cntK by simp
  have "sum_list (map ?f (filter ?inK es)) = sum ?f (set (filter ?inK es))"
    using d by (intro sum_list_distinct_conv_sum_set) simp
  also have "set (filter ?inK es) = set ?K" using subK by auto
  also have "sum ?f (set ?K) = sum_list (map ?f ?K)"
    using dK by (rule sum_list_distinct_conv_sum_set[symmetric])
  finally have 1: "sum_list (map ?f (filter ?inK es)) = sum_list (map ?f ?K)" .
  have "sum_list (map ?f (filter ?inT es)) = sum ?f (set (filter ?inT es))"
    using d by (intro sum_list_distinct_conv_sum_set) simp
  also have "set (filter ?inT es) = T" using Tm by auto
  finally have 2: "sum_list (map ?f (filter ?inT es)) = total_weight w T"
    by (simp add: total_weight_def)
  from le show ?thesis unfolding 1 2 .
qed

text \<open>
  Claim C1. On a connected graph \<open>bpt_canonical\<close> returns a graph \<open>mst\<close> on the same
  vertices with exactly \<open>n - 1\<close> edges, the edges of the input that \<open>mst_edge_map\<close>
  selects, in that order; these edges are pairwise distinct and form a spanning tree of
  the input, and the sum of their weights is the weight of that spanning tree and at
  most the weight of any spanning tree: it is the weight of a minimum spanning tree.
\<close>

theorem bpt_canonical_mst:
  fixes w :: "('w::linordered_idom) list"
  assumes ok: "graph_ok g" and con: "connected_graph g" and lw: "length w = num_edges g"
  shows "\<exists>r. bpt_canonical g w = Inr r \<and>
           num_vertices (mst r) = num_vertices g \<and>
           num_edges (mst r) = num_vertices g - 1 \<and>
           edge_list (mst r) = map (\<lambda>e. edge_from_index e g) (mst_edge_map r) \<and>
           distinct (mst_edge_map r) \<and>
           spanning_tree g (set (mst_edge_map r)) \<and>
           sum_list (map (\<lambda>e. w ! e) (mst_edge_map r)) = total_weight w (set (mst_edge_map r)) \<and>
           (\<forall>T. spanning_tree g T \<longrightarrow>
              sum_list (map (\<lambda>e. w ! e) (mst_edge_map r)) \<le> total_weight w T)"
proof -
  let ?n = "num_vertices g"
  let ?se = "sorted_edges_indices g w"
  let ?K = "kruskal_merges g ?se"
  from con have n: "0 < ?n"
    and all: "\<forall>u < ?n. \<forall>v < ?n. (u, v) \<in> conn g {..<num_edges g}"
    by (simp_all add: connected_graph_def)
  note ses = sorted_edges_indices_set[where g = g and w = w]
  have se: "\<forall>e \<in> set ?se. e < num_edges g" by (simp add: ses)
  have lK: "length ?K = ?n - 1"
    using kruskal_merges_connected[OF ok ses(1) n] con by simp
  with bpt_canonical_result[OF ok n lw] obtain s where
    inv: "bpt_inv g w ?se s" and f: "st_num_edge_found s = ?n - 1"
    and mem: "st_mst_edge_map s = ?K"
    and bc: "bpt_canonical g w =
       Inr \<lparr>tree = st_parents s, altitudes = st_levels s, mst = st_mst s,
            mst_edge_map = st_mst_edge_map s\<rparr>" by blast
  from inv f have lm: "length (st_mst_edge_map s) = ?n - 1"
    and tk: "take (?n - 1) (st_mst_edge_map s) = kruskal_merges g (take (st_i s) ?se)"
    and mst: "st_mst s = \<lparr>num_vertices = ?n,
         edge_list = map (\<lambda>e. edge_list g ! e) (kruskal_merges g (take (st_i s) ?se))\<rparr>"
    by (auto simp: bpt_inv_def scan_inv_def Let_def)
  from tk lm mem have Ki: "kruskal_merges g (take (st_i s) ?se) = ?K" by simp
  have dK: "distinct ?K" by (rule kruskal_merges_distinct[OF ses(2)])
  have subK: "set ?K \<subseteq> {..<num_edges g}"
    using merges_from_subset[of g "{}" ?se] ses(1) by (simp add: kruskal_merges_def)
  have "conn g (set ?K) = conn g {..<num_edges g}"
    using kruskal_merges_conn[OF se] ses(1) by simp
  with all subK dK lK have sp: "spanning_tree g (set ?K)"
    by (simp add: spanning_tree_def distinct_card)
  have sum: "sum_list (map (\<lambda>e. w ! e) ?K) = total_weight w (set ?K)"
    unfolding total_weight_def using dK by (rule sum_list_distinct_conv_sum_set)
  have min: "sum_list (map (\<lambda>e. w ! e) ?K) \<le> total_weight w T" if "spanning_tree g T" for T
    by (rule kruskal_merges_minimal[OF ok n ses(1,2,4) lK that])
  show ?thesis
    unfolding bc using mst Ki mem lK dK sp sum min
    by (simp add: num_edges_def edge_from_index_def)
qed

theorem bpt_canonical_mst_witness:
  "\<exists>r. bpt_canonical
          \<lparr>num_vertices = 6, edge_list = [(0,1),(0,3),(1,2),(1,4),(2,5),(3,4),(4,5)]\<rparr>
          [1, 0, 2, 1, 1, 1, 2::int] = Inr r \<and>
        spanning_tree
          \<lparr>num_vertices = 6, edge_list = [(0,1),(0,3),(1,2),(1,4),(2,5),(3,4),(4,5)]\<rparr>
          {0, 1, 2, 3, 6} \<and>
        sum_list (map (\<lambda>e. [1, 0, 2, 1, 1, 1, 2::int] ! e) (mst_edge_map r))
          \<le> total_weight [1, 0, 2, 1, 1, 1, 2::int] {0, 1, 2, 3, 6}"
proof -
  let ?g = "\<lparr>num_vertices = 6, edge_list = [(0,1),(0,3),(1,2),(1,4),(2,5),(3,4),(4,5)]\<rparr>"
  let ?w = "[1, 0, 2, 1, 1, 1, 2::int]"
  let ?T = "{0, 1, 2, 3, 6::nat}"
  have ok: "graph_ok ?g" by (simp add: graph_ok_def source_def target_def)
  have lw: "length ?w = num_edges ?g" by (simp add: num_edges_def)
  have bc: "bpt_canonical ?g ?w =
     Inr \<lparr>tree = [6, 7, 9, 6, 8, 9, 7, 8, 10, 10, 10],
          altitudes = [0, 0, 0, 0, 0, 0, 0, 1, 1, 1, 2],
          mst = \<lparr>num_vertices = 6, edge_list = [(0, 3), (0, 1), (1, 4), (2, 5), (1, 2)]\<rparr>,
          mst_edge_map = [1, 0, 3, 4, 2]\<rparr>"
    by code_simp
  have con: "connected_graph ?g"
    by (rule bpt_canonical_Inr_connected[OF ok _ lw bc]) simp
  have e: "(source (edge_list ?g ! e), target (edge_list ?g ! e)) \<in> conn ?g ?T"
    if "e \<in> ?T" for e
    using that by (intro conn_edge) (auto simp: num_edges_def)
  have c01: "(0, 1) \<in> conn ?g ?T" using e[of 0] by (simp add: source_def target_def)
  have c03: "(0, 3) \<in> conn ?g ?T" using e[of 1] by (simp add: source_def target_def)
  have c12: "(1, 2) \<in> conn ?g ?T" using e[of 2] by (simp add: source_def target_def)
  have c14: "(1, 4) \<in> conn ?g ?T" using e[of 3] by (simp add: source_def target_def)
  have c45: "(4, 5) \<in> conn ?g ?T" using e[of 6] by (simp add: source_def target_def)
  have c02: "(0, 2) \<in> conn ?g ?T" by (rule conn_trans[OF c01 c12])
  have c04: "(0, 4) \<in> conn ?g ?T" by (rule conn_trans[OF c01 c14])
  have c05: "(0, 5) \<in> conn ?g ?T" by (rule conn_trans[OF c04 c45])
  have z: "(0, v) \<in> conn ?g ?T" if "v < 6" for v
  proof -
    from that have "v \<in> {0, 1, 2, 3, 4, 5}" by auto
    with c01 c02 c03 c04 c05 show ?thesis by auto
  qed
  have "(u, v) \<in> conn ?g ?T" if "u < 6" "v < 6" for u v
    by (rule conn_trans[OF conn_sym[OF z[OF that(1)]] z[OF that(2)]])
  then have sp: "spanning_tree ?g ?T"
    by (simp add: spanning_tree_def num_edges_def)
  from bpt_canonical_mst[OF ok con lw] sp show ?thesis by blast
qed

section \<open>Saliency of a simplified tree\<close>

lemma ancestors_step:
  "tree_ok t \<Longrightarrow> v < length t - 1 \<Longrightarrow> ancestors t v = v # ancestors t (t ! v)"
  using tree_ok_parent_gt[of t v] by (subst ancestors.simps) simp

lemma ancestors_root:
  "tree_ok t \<Longrightarrow> ancestors t (length t - 1) = [length t - 1]"
  by (subst ancestors.simps) (simp add: tree_ok_def)

lemma ancestors_cases:
  assumes "tree_ok t" "v < length t"
  obtains (inner) "v < length t - 1" "v < t ! v" "t ! v < length t"
      "ancestors t v = v # ancestors t (t ! v)"
    | (root) "v = length t - 1" "ancestors t v = [v]"
proof (cases "v < length t - 1")
  case True
  with tree_ok_parent_gt[OF assms(1) True] ancestors_step[OF assms(1) True] inner
  show ?thesis by blast
next
  case False
  with assms(2) have "v = length t - 1" by simp
  with ancestors_root[OF assms(1)] root show ?thesis by simp
qed

lemma find_ancestors_hd:
  "P v \<Longrightarrow> List.find P (ancestors t v) = Some v"
  by (subst ancestors.simps) simp

lemma ancestors_self: "v \<in> set (ancestors t v)"
  by (subst ancestors.simps) simp

lemma ancestors_parent_closed:
  assumes ok: "tree_ok t"
  shows "v < length t \<Longrightarrow> y \<in> set (ancestors t v) \<Longrightarrow> t ! y \<in> set (ancestors t v)"
proof (induction "length t - v" arbitrary: v rule: less_induct)
  case less
  from ok less.prems(1) show ?case
  proof (cases rule: ancestors_cases)
    case inner
    show ?thesis
    proof (cases "y = v")
      case True
      then show ?thesis using inner(4) ancestors_self[of "t ! v" t] by simp
    next
      case False
      with less.prems(2) inner(4) have "y \<in> set (ancestors t (t ! v))" by simp
      moreover have "length t - t ! v < length t - v" using inner(2,3) by arith
      ultimately have "t ! y \<in> set (ancestors t (t ! v))"
        using less.hyps[of "t ! v"] inner(3) by blast
      then show ?thesis using inner(4) by simp
    qed
  next
    case root
    with less.prems(2) have "y = length t - 1" by simp
    then have "t ! y = y" using ok by (simp add: tree_ok_def)
    with less.prems(2) show ?thesis by simp
  qed
qed

text \<open>The surviving ancestors of the parent of a node are those of its surviving parent.\<close>

lemma filter_surviving_parent:
  assumes ok: "tree_ok t"
  shows "c < length t - 1 \<Longrightarrow>
    filter (\<lambda>x. \<not> deleted t criterion x) (ancestors t (t ! c)) =
    filter (\<lambda>x. \<not> deleted t criterion x) (ancestors t (surviving_parent t criterion c))"
proof (induction "length t - c" arbitrary: c rule: less_induct)
  case less
  have tc: "c < t ! c" "t ! c < length t"
    using tree_ok_parent_gt[OF ok less.prems] by auto
  show ?case
  proof (cases "deleted t criterion (t ! c)")
    case True
    then have lt: "t ! c < length t - 1" by (simp add: deleted_def)
    have m: "length t - t ! c < length t - c" using tc by arith
    have sp: "surviving_parent t criterion c = surviving_parent t criterion (t ! c)"
      using True tc by (subst surviving_parent.simps) simp
    have "filter (\<lambda>x. \<not> deleted t criterion x) (ancestors t (t ! c)) =
          filter (\<lambda>x. \<not> deleted t criterion x) (ancestors t (t ! (t ! c)))"
      unfolding ancestors_step[OF ok lt] using True by simp
    also have "\<dots> = filter (\<lambda>x. \<not> deleted t criterion x)
        (ancestors t (surviving_parent t criterion (t ! c)))"
      by (rule less.hyps[OF m lt])
    finally show ?thesis unfolding sp .
  next
    case False
    have "surviving_parent t criterion c = t ! c"
      using False by (subst surviving_parent.simps) simp
    then show ?thesis by simp
  qed
qed

lemma simplified_parents_length:
  "length (simplified_parents t criterion) = Suc (length (survivors t criterion))"
  by (simp add: simplified_parents_def)

lemma simplified_parents_nth:
  assumes "i < length t - 1" "\<not> deleted t criterion i"
  shows "simplified_parents t criterion ! new_index t criterion i =
         new_index t criterion (surviving_parent t criterion i)"
  using survivors_nth_new_index[OF assms]
  by (simp add: simplified_parents_def nth_append)

text \<open>The walk to the root in the simplified tree visits the surviving nodes of the walk
  in the tree.\<close>

lemma ancestors_simplified:
  assumes ok: "tree_ok t"
  shows "x < length t \<Longrightarrow> \<not> deleted t criterion x \<Longrightarrow>
    ancestors (simplified_parents t criterion) (new_index t criterion x) =
    map (new_index t criterion) (filter (\<lambda>y. \<not> deleted t criterion y) (ancestors t x))"
proof (induction "length t - x" arbitrary: x rule: less_induct)
  case less
  let ?t' = "simplified_parents t criterion"
  let ?S = "survivors t criterion"
  note ok' = simplified_parents_ok[OF ok, of criterion]
  have len: "length ?t' - 1 = length ?S" by (simp add: simplified_parents_length)
  from ok less.prems(1) show ?case
  proof (cases rule: ancestors_cases)
    case inner
    note sp = surviving_parent_props[OF ok inner(1), of criterion]
    let ?p = "surviving_parent t criterion x"
    have j: "new_index t criterion x < length ?t' - 1"
      unfolding len using survivors_nth_new_index[OF inner(1) less.prems(2)] by simp
    have m: "length t - ?p < length t - x" using sp by arith
    have "ancestors ?t' (new_index t criterion x) =
       new_index t criterion x # ancestors ?t' (?t' ! new_index t criterion x)"
      by (rule ancestors_step[OF ok' j])
    also have "?t' ! new_index t criterion x = new_index t criterion ?p"
      by (rule simplified_parents_nth[OF inner(1) less.prems(2)])
    also have "ancestors ?t' (new_index t criterion ?p) =
       map (new_index t criterion) (filter (\<lambda>y. \<not> deleted t criterion y) (ancestors t ?p))"
      using less.hyps[OF m] sp by blast
    also have "filter (\<lambda>y. \<not> deleted t criterion y) (ancestors t ?p) =
       filter (\<lambda>y. \<not> deleted t criterion y) (ancestors t (t ! x))"
      by (rule filter_surviving_parent[OF ok inner(1), symmetric])
    finally show ?thesis unfolding inner(4) using less.prems(2) by simp
  next
    case root
    have "new_index t criterion x = length ?t' - 1"
      unfolding len root(1) by (rule new_index_root)
    then have "ancestors ?t' (new_index t criterion x) = [new_index t criterion x]"
      using ancestors_root[OF ok'] by simp
    then show ?thesis unfolding root(2) using less.prems(2) by simp
  qed
qed

lemma new_index_inj:
  assumes "\<not> deleted t criterion i" "\<not> deleted t criterion j"
    and "new_index t criterion i = new_index t criterion j"
  shows "i = j"
proof (rule ccontr)
  assume "i \<noteq> j"
  then consider "i < j" | "j < i" by arith
  then show False
  proof cases
    case 1
    from new_index_less[OF 1 assms(1)] assms(3) show False by simp
  next
    case 2
    from new_index_less[OF 2 assms(2)] assms(3) show False by simp
  qed
qed

text \<open>Along a walk to the root, the first node with a property that is kept by the
  parent and the first surviving such node have the same altitude, when every deleted
  node has the altitude of its parent.\<close>

lemma find_plateau:
  assumes ok: "tree_ok t"
    and P: "\<And>y. y < length t \<Longrightarrow> P y \<Longrightarrow> P (t ! y)"
    and Pr: "P (length t - 1)"
    and pl: "\<And>y. deleted t criterion y \<Longrightarrow> a ! y = a ! (t ! y)"
  shows "x < length t \<Longrightarrow>
    \<exists>a0 b. List.find P (ancestors t x) = Some a0 \<and> a0 < length t \<and>
           List.find P (filter (\<lambda>y. \<not> deleted t criterion y) (ancestors t x)) = Some b \<and>
           b < length t \<and> \<not> deleted t criterion b \<and> a ! a0 = a ! b"
proof (induction "length t - x" arbitrary: x rule: less_induct)
  case less
  from ok less.prems(1) show ?case
  proof (cases rule: ancestors_cases)
    case inner
    have m: "length t - t ! x < length t - x" using inner(2,3) by arith
    from less.hyps[OF m inner(3)] obtain a0 b where
      ih: "List.find P (ancestors t (t ! x)) = Some a0" "a0 < length t"
        "List.find P (filter (\<lambda>y. \<not> deleted t criterion y) (ancestors t (t ! x))) = Some b"
        "b < length t" "\<not> deleted t criterion b" "a ! a0 = a ! b"
      by blast
    show ?thesis
    proof (cases "P x")
      case Px: True
      show ?thesis
      proof (cases "deleted t criterion x")
        case True
        have "P (t ! x)" by (rule P[OF less.prems Px])
        then have "List.find P (ancestors t (t ! x)) = Some (t ! x)"
          by (rule find_ancestors_hd)
        with ih(1) have "a0 = t ! x" by simp
        with ih(6) pl[OF True] have "a ! x = a ! b" by simp
        with ih(3,4,5) Px True less.prems show ?thesis
          unfolding inner(4) by simp
      next
        case False
        with Px less.prems show ?thesis unfolding inner(4) by simp
      qed
    next
      case False
      with ih show ?thesis unfolding inner(4) by simp
    qed
  next
    case root
    have "\<not> deleted t criterion x" using root(1) by (simp add: deleted_def)
    with Pr root less.prems show ?thesis by simp
  qed
qed

lemma find_map_inj:
  assumes "\<And>x. x \<in> set xs \<Longrightarrow> Q (f x) = P x"
  shows "List.find Q (map f xs) = map_option f (List.find P xs)"
  using assms by (induction xs) auto

text \<open>
  The lowest common ancestor of two surviving nodes in the simplified tree is the new
  index of a surviving node with the altitude of their lowest common ancestor in the
  tree.
\<close>

lemma lca_simplified:
  assumes ok: "tree_ok t" and u: "u < length t" and v: "v < length t"
    and du: "\<not> deleted t criterion u" and dv: "\<not> deleted t criterion v"
    and pl: "\<And>y. deleted t criterion y \<Longrightarrow> a ! y = a ! (t ! y)"
  shows "\<exists>a0 b. lca t u v = Some a0 \<and> a0 < length t \<and>
           lca (simplified_parents t criterion) (new_index t criterion u)
               (new_index t criterion v) = Some (new_index t criterion b) \<and>
           b < length t \<and> \<not> deleted t criterion b \<and> a ! a0 = a ! b"
proof -
  let ?t' = "simplified_parents t criterion"
  let ?ni = "new_index t criterion"
  let ?nd = "\<lambda>y. \<not> deleted t criterion y"
  let ?P = "\<lambda>y. y \<in> set (ancestors t v)"
  have P: "\<And>y. y < length t \<Longrightarrow> ?P y \<Longrightarrow> ?P (t ! y)"
    by (rule ancestors_parent_closed[OF ok v])
  have Pr: "?P (length t - 1)"
    using root_in_ancestors[OF ok v] by (simp add: root_def)
  from find_plateau[of t ?P criterion a, OF ok P Pr pl u] obtain a0 b where
    f: "List.find ?P (ancestors t u) = Some a0" "a0 < length t"
       "List.find ?P (filter ?nd (ancestors t u)) = Some b"
       "b < length t" "?nd b" "a ! a0 = a ! b"
    by blast
  have niu: "?ni u < length ?t'" 
  proof (cases "u < length t - 1")
    case True
    from survivors_nth_new_index[OF True du] show ?thesis
      by (simp add: simplified_parents_length)
  next
    case False
    with u have "u = length t - 1" by simp
    then show ?thesis
      unfolding simplified_parents_length using new_index_root[of t criterion]
      by (simp del: One_nat_def)
  qed
  have niv: "?ni v < length ?t'" 
  proof (cases "v < length t - 1")
    case True
    from survivors_nth_new_index[OF True dv] show ?thesis
      by (simp add: simplified_parents_length)
  next
    case False
    with v have "v = length t - 1" by simp
    then show ?thesis
      unfolding simplified_parents_length using new_index_root[of t criterion]
      by (simp del: One_nat_def)
  qed
  have mem: "(?ni x \<in> set (ancestors ?t' (?ni v))) = ?P x"
    if "x \<in> set (filter ?nd (ancestors t u))" for x
  proof -
    from that have dx: "?nd x" by simp
    show ?thesis
      unfolding ancestors_simplified[OF ok v dv]
    proof
      assume "?ni x \<in> set (map ?ni (filter ?nd (ancestors t v)))"
      then obtain y where y: "y \<in> set (ancestors t v)" "?nd y" "?ni x = ?ni y" by auto
      from new_index_inj[OF dx y(2,3)] y(1) show "?P x" by simp
    next
      assume "?P x"
      with dx show "?ni x \<in> set (map ?ni (filter ?nd (ancestors t v)))" by simp
    qed
  qed
  have "lca ?t' (?ni u) (?ni v) =
      List.find (\<lambda>z. z \<in> set (ancestors ?t' (?ni v))) (ancestors ?t' (?ni u))"
    using niu niv by (simp add: lca_def)
  also have "ancestors ?t' (?ni u) = map ?ni (filter ?nd (ancestors t u))"
    by (rule ancestors_simplified[OF ok u du])
  also have "List.find (\<lambda>z. z \<in> set (ancestors ?t' (?ni v))) (map ?ni (filter ?nd (ancestors t u)))
      = map_option ?ni (List.find ?P (filter ?nd (ancestors t u)))"
    by (rule find_map_inj) (rule mem)
  finally have "lca ?t' (?ni u) (?ni v) = Some (?ni b)" using f(3) by simp
  moreover have "lca t u v = Some a0" using f(1) u v by (simp add: lca_def)
  ultimately show ?thesis using f by blast
qed

lemma saliency_map_Inr:
  assumes "\<And>e. e \<in> set (edge_list g) \<Longrightarrow>
     \<exists>x. lca t (source e) (target e) = Some x \<and> x < length alts \<and> alts ! x = f e"
  shows "saliency_map g t alts = Inr (map f (edge_list g))"
proof -
  have a: "list_all (\<lambda>a. case a of None \<Rightarrow> False | Some x \<Rightarrow> x < length alts)
      (map (\<lambda>e. lca t (source e) (target e)) (edge_list g))"
    unfolding list_all_iff using assms by fastforce
  have b: "map (\<lambda>a. alts ! the a) (map (\<lambda>e. lca t (source e) (target e)) (edge_list g))
      = map f (edge_list g)"
    unfolding map_map using assms by (intro map_cong[OF refl]) fastforce
  show ?thesis
    unfolding saliency_map_def Let_def using a b by simp
qed

lemma node_map_altitude:
  assumes b: "b < length t" and nd: "\<not> deleted t criterion b" and t: "t \<noteq> []"
  shows "new_index t criterion b < Suc (length (survivors t criterion)) \<and>
         map (\<lambda>i. a ! i) (survivors t criterion @ [root t]) ! new_index t criterion b = a ! b"
proof (cases "b < length t - 1")
  case True
  from survivors_nth_new_index[OF True nd] show ?thesis
    by (simp add: nth_append)
next
  case False
  with b have e: "b = length t - 1" by simp
  have "new_index t criterion b = length (survivors t criterion)"
    unfolding e by (rule new_index_root)
  then show ?thesis using e by (simp add: nth_append root_def)
qed

lemma new_index_leaves:
  assumes "\<And>k. k < u \<Longrightarrow> \<not> deleted t criterion k"
  shows "new_index t criterion u = u"
proof -
  have "filter (\<lambda>k. \<not> deleted t criterion k) [0..<u] = [0..<u]"
    using assms by (intro filter_True) simp
  then show ?thesis by (simp add: new_index_def)
qed

text \<open>The tree of \<open>bpt_canonical\<close> on a connected graph: a valid tree on \<open>2n - 1\<close> nodes
  whose leaves are the vertices.\<close>

lemma bpt_canonical_tree:
  fixes w :: "('w::{linorder,zero}) list"
  assumes ok: "graph_ok g" and con: "connected_graph g" and lw: "length w = num_edges g"
  shows "\<exists>r. bpt_canonical g w = Inr r \<and> tree_ok (tree r) \<and>
           length (tree r) = 2 * num_vertices g - 1 \<and>
           length (altitudes r) = 2 * num_vertices g - 1 \<and>
           (\<forall>v < 2 * num_vertices g - 1. is_leaf v (tree r) \<longleftrightarrow> v < num_vertices g)"
proof -
  let ?n = "num_vertices g"
  let ?se = "sorted_edges_indices g w"
  from con have n: "0 < ?n" by (simp add: connected_graph_def)
  have "length (kruskal_merges g ?se) = ?n - 1"
    using kruskal_merges_connected[OF ok sorted_edges_indices_set(1)[of g w] n] con by simp
  with bpt_canonical_result[OF ok n lw] obtain s where
    inv: "bpt_inv g w ?se s" and f: "st_num_edge_found s = ?n - 1"
    and t: "tree_ok (st_parents s)"
    and bc: "bpt_canonical g w =
       Inr \<lparr>tree = st_parents s, altitudes = st_levels s, mst = st_mst s,
            mst_edge_map = st_mst_edge_map s\<rparr>" by blast
  from inv have finv: "forest_inv g s" by (simp add: bpt_inv_def)
  from inv f n have k: "st_num_nodes s = 2 * ?n - 1"
    by (auto simp: bpt_inv_def scan_inv_def Let_def)
  from inv have ll: "length (st_levels s) = 2 * ?n - 1"
    by (simp add: bpt_inv_def levels_inv_def Let_def)
  from finv have lp: "length (st_parents s) = 2 * ?n - 1"
    by (simp add: forest_inv_def Let_def)
  have "\<forall>v < 2 * ?n - 1. is_leaf v (st_parents s) \<longleftrightarrow> v < ?n"
    using forest_inv_leaves[OF finv k t] by blast
  with bc t lp ll show ?thesis by simp
qed

text \<open>
  Claim C5. On a connected graph, with one weight per edge, \<open>bpt_canonical\<close> and
  \<open>quasi_flat_zones_hierarchy\<close> both return a hierarchy, \<open>saliency_map\<close> returns a
  vector with one entry per edge of the graph for each of them, and the two vectors are
  the same.
\<close>

theorem saliency_map_bpt_qfz:
  fixes w :: "('w::{linorder,zero}) list"
  assumes ok: "graph_ok g" and con: "connected_graph g" and lw: "length w = num_edges g"
  shows "\<exists>b q s. bpt_canonical g w = Inr b \<and> quasi_flat_zones_hierarchy g w = Inr q \<and>
           saliency_map g (tree b) (altitudes b) = Inr s \<and>
           saliency_map g (nw_tree q) (nw_altitudes q) = Inr s \<and>
           length s = num_edges g"
proof -
  let ?n = "num_vertices g"
  from con have n: "0 < ?n" by (simp add: connected_graph_def)
  from bpt_canonical_tree[OF ok con lw] obtain r where
    bc: "bpt_canonical g w = Inr r" and t: "tree_ok (tree r)"
    and lt: "length (tree r) = 2 * ?n - 1" and la: "length (altitudes r) = 2 * ?n - 1"
    and leaves: "\<And>v. v < 2 * ?n - 1 \<Longrightarrow> is_leaf v (tree r) \<longleftrightarrow> v < ?n"
    by blast
  let ?t = "tree r"
  let ?a = "altitudes r"
  let ?c = "\<lambda>i. ?a ! i = propagate_parallel ?t ?a ! i"
  let ?t' = "simplified_parents ?t ?c"
  let ?a' = "map (\<lambda>i. ?a ! i) (survivors ?t ?c @ [root ?t])"
  let ?f = "\<lambda>e. ?a ! the (lca ?t (source e) (target e))"
  have ne: "?t \<noteq> []" using t by (simp add: tree_ok_def)
  have qfz: "quasi_flat_zones_hierarchy g w = Inr \<lparr>nw_tree = ?t', nw_altitudes = ?a'\<rparr>"
    unfolding quasi_flat_zones_hierarchy_def Let_def bc
    using lw simplify_tree_ok[OF t, of ?c] by simp
  have pl: "?a ! y = ?a ! (?t ! y)" if "deleted ?t ?c y" for y
  proof -
    from that have "y < length ?t" "?a ! y = propagate_parallel ?t ?a ! y"
      by (auto simp: deleted_def)
    then show ?thesis by (simp add: propagate_parallel_def)
  qed
  have vertex: "\<not> deleted ?t ?c v" if "v < ?n" for v
  proof -
    from that have "v < 2 * ?n - 1" by arith
    from leaves[OF this] that show ?thesis by (simp add: deleted_def)
  qed
  have ni: "new_index ?t ?c v = v" if "v < ?n" for v
  proof (rule new_index_leaves)
    fix k assume "k < v"
    with that have "k < ?n" by simp
    then show "\<not> deleted ?t ?c k" by (rule vertex)
  qed
  have edge: "\<exists>a0 b. lca ?t (source e) (target e) = Some a0 \<and> a0 < length ?a \<and>
      lca ?t' (source e) (target e) = Some b \<and> b < length ?a' \<and> ?a' ! b = ?a ! a0"
    if e: "e \<in> set (edge_list g)" for e
  proof -
    from ok e have st: "source e < ?n" "target e < ?n"
      by (auto simp: graph_ok_def list_all_iff)
    then have st': "source e < length ?t" "target e < length ?t"
      unfolding lt by arith+
    from lca_simplified[of ?t "source e" "target e" ?c ?a,
        OF t st' vertex[OF st(1)] vertex[OF st(2)] pl]
    obtain a0 b where
      l: "lca ?t (source e) (target e) = Some a0" "a0 < length ?t"
         "lca ?t' (new_index ?t ?c (source e)) (new_index ?t ?c (target e))
            = Some (new_index ?t ?c b)"
         "b < length ?t" "\<not> deleted ?t ?c b" "?a ! a0 = ?a ! b"
      by blast
    note nm = node_map_altitude[OF l(4,5) ne, of ?a]
    from l(3) have "lca ?t' (source e) (target e) = Some (new_index ?t ?c b)"
      unfolding ni[OF st(1)] ni[OF st(2)] .
    moreover have "new_index ?t ?c b < length ?a'" using nm by simp
    moreover have "?a' ! new_index ?t ?c b = ?a ! a0" using nm l(6) by simp
    moreover have "a0 < length ?a" using l(2) lt la by simp
    ultimately show ?thesis using l(1) by blast
  qed
  have s1: "saliency_map g ?t ?a = Inr (map ?f (edge_list g))"
  proof (rule saliency_map_Inr)
    fix e assume "e \<in> set (edge_list g)"
    from edge[OF this] show "\<exists>x. lca ?t (source e) (target e) = Some x \<and> x < length ?a \<and>
        ?a ! x = ?f e" by auto
  qed
  have s2: "saliency_map g ?t' ?a' = Inr (map ?f (edge_list g))"
  proof (rule saliency_map_Inr)
    fix e assume "e \<in> set (edge_list g)"
    from edge[OF this] show "\<exists>x. lca ?t' (source e) (target e) = Some x \<and> x < length ?a' \<and>
        ?a' ! x = ?f e" by auto
  qed
  show ?thesis
    unfolding bc qfz using s1 s2 by (simp add: num_edges_def)
qed

theorem saliency_map_bpt_qfz_witness:
  "\<exists>b q. bpt_canonical
          \<lparr>num_vertices = 6, edge_list = [(0,1),(0,3),(1,2),(1,4),(2,5),(3,4),(4,5)]\<rparr>
          [1, 0, 2, 1, 1, 1, 2::int] = Inr b \<and>
        quasi_flat_zones_hierarchy
          \<lparr>num_vertices = 6, edge_list = [(0,1),(0,3),(1,2),(1,4),(2,5),(3,4),(4,5)]\<rparr>
          [1, 0, 2, 1, 1, 1, 2::int] = Inr q \<and>
        saliency_map
          \<lparr>num_vertices = 6, edge_list = [(0,1),(0,3),(1,2),(1,4),(2,5),(3,4),(4,5)]\<rparr>
          (tree b) (altitudes b) = Inr [1, 0, 2, 1, 1, 1, 2] \<and>
        saliency_map
          \<lparr>num_vertices = 6, edge_list = [(0,1),(0,3),(1,2),(1,4),(2,5),(3,4),(4,5)]\<rparr>
          (nw_tree q) (nw_altitudes q) = Inr [1, 0, 2, 1, 1, 1, 2]"
proof -
  let ?g = "\<lparr>num_vertices = 6, edge_list = [(0,1),(0,3),(1,2),(1,4),(2,5),(3,4),(4,5)]\<rparr>"
  let ?w = "[1, 0, 2, 1, 1, 1, 2::int]"
  have ok: "graph_ok ?g" by (simp add: graph_ok_def source_def target_def)
  have lw: "length ?w = num_edges ?g" by (simp add: num_edges_def)
  have bc: "bpt_canonical ?g ?w =
     Inr \<lparr>tree = [6, 7, 9, 6, 8, 9, 7, 8, 10, 10, 10],
          altitudes = [0, 0, 0, 0, 0, 0, 0, 1, 1, 1, 2],
          mst = \<lparr>num_vertices = 6, edge_list = [(0, 3), (0, 1), (1, 4), (2, 5), (1, 2)]\<rparr>,
          mst_edge_map = [1, 0, 3, 4, 2]\<rparr>"
    by code_simp
  have con: "connected_graph ?g"
    by (rule bpt_canonical_Inr_connected[OF ok _ lw bc]) simp
  have sm: "saliency_map ?g [6, 7, 9, 6, 8, 9, 7, 8, 10, 10, 10]
      [0, 0, 0, 0, 0, 0, 0, 1, 1, 1, 2::int] = Inr [1, 0, 2, 1, 1, 1, 2]"
    by code_simp
  from saliency_map_bpt_qfz[OF ok con lw] obtain b q s where
    r: "bpt_canonical ?g ?w = Inr b" "quasi_flat_zones_hierarchy ?g ?w = Inr q"
       "saliency_map ?g (tree b) (altitudes b) = Inr s"
       "saliency_map ?g (nw_tree q) (nw_altitudes q) = Inr s"
    by blast
  from r(1) bc have b: "tree b = [6, 7, 9, 6, 8, 9, 7, 8, 10, 10, 10]"
    "altitudes b = [0, 0, 0, 0, 0, 0, 0, 1, 1, 1, 2]" by simp_all
  from r(3) sm have "s = [1, 0, 2, 1, 1, 1, 2]" unfolding b by simp
  with r show ?thesis by blast
qed

section \<open>Binary partition tree\<close>

text \<open>
  Modelled from the spec: the working graph \<^verbatim>\<open>undirected_graph<hash_setS>\<close> of
  \<^verbatim>\<open>higra/graph.hpp\<close> is not part of the sources. Its edges keep their index; a removed
  edge is \<open>None\<close>; \<^verbatim>\<open>set_edge\<close> gives an edge its two end points. The out-edges of a vertex
  are the edges present at it; a hash set fixes no order, the model lists them by
  increasing index.
\<close>

record ugraph =
  ug_num_vertices :: nat
  ug_edges :: "(nat \<times> nat) option list"

definition copy_graph :: "graph \<Rightarrow> ugraph" where
  "copy_graph g = \<lparr>ug_num_vertices = num_vertices g, ug_edges = map Some (edge_list g)\<rparr>"

definition add_vertex :: "ugraph \<Rightarrow> nat \<times> ugraph" where
  "add_vertex g = (ug_num_vertices g, g\<lparr>ug_num_vertices := ug_num_vertices g + 1\<rparr>)"

definition remove_edge :: "nat \<Rightarrow> ugraph \<Rightarrow> ugraph" where
  "remove_edge ei g = g\<lparr>ug_edges := (ug_edges g)[ei := None]\<rparr>"

definition set_edge :: "nat \<Rightarrow> nat \<Rightarrow> nat \<Rightarrow> ugraph \<Rightarrow> ugraph" where
  "set_edge ei v1 v2 g = g\<lparr>ug_edges := (ug_edges g)[ei := Some (v1, v2)]\<rparr>"

definition incident :: "nat \<Rightarrow> (nat \<times> nat) option \<Rightarrow> bool" where
  "incident v e = (case e of None \<Rightarrow> False | Some (a, b) \<Rightarrow> a = v \<or> b = v)"

definition out_edges :: "nat \<Rightarrow> ugraph \<Rightarrow> nat list" where
  "out_edges v g = filter (\<lambda>e. incident v (ug_edges g ! e)) [0..<length (ug_edges g)]"

definition other_vertex :: "nat \<times> nat \<Rightarrow> nat \<Rightarrow> nat" where
  "other_vertex e v = (if source e = v then target e else source e)"

text \<open>
  Modelled from the spec: \<^verbatim>\<open>fibonacci_heap\<close> of \<^verbatim>\<open>higra/structure/fibonacci_heap.hpp\<close> is
  not part of the sources. The heap is the list of its elements, in the order of their
  insertion. An element is compared by its value alone, and the spec leaves open which
  of the elements of least value \<^verbatim>\<open>top\<close> returns: the parameter \<open>tie\<close> makes the choice,
  from the size of the heap. The handle of an element is the edge index it carries: each
  edge is pushed once, and an update keeps the index.
\<close>

record 'w heap_element =
  he_value :: 'w
  he_index :: nat

type_synonym 'w heap = "'w heap_element list"

definition heap_push :: "'w heap \<Rightarrow> 'w heap_element \<Rightarrow> 'w heap" where
  "heap_push h x = h @ [x]"

definition heap_min :: "('w::linorder) heap \<Rightarrow> 'w" where
  "heap_min h = fold min (map he_value (tl h)) (he_value (hd h))"

definition heap_top :: "(nat \<Rightarrow> nat) \<Rightarrow> ('w::linorder) heap \<Rightarrow> 'w heap_element" where
  "heap_top tie h =
     (let candidates = filter (\<lambda>x. he_value x = heap_min h) h
      in candidates ! (tie (length h) mod length candidates))"

definition heap_pop :: "(nat \<Rightarrow> nat) \<Rightarrow> ('w::linorder) heap \<Rightarrow> 'w heap" where
  "heap_pop tie h = remove1 (heap_top tie h) h"

definition heap_update :: "'w heap \<Rightarrow> nat \<Rightarrow> 'w heap_element \<Rightarrow> 'w heap option" where
  "heap_update h handle x =
     (if handle \<in> he_index ` set h
      then Some (map (\<lambda>y. if he_index y = handle then x else y) h)
      else None)"

text \<open>The local variables of \<^verbatim>\<open>binary_partition_tree\<close>; \<open>bp_rule\<close> is the state of the
  linkage rule.\<close>

record ('w, 'r) bp_state =
  bp_g :: ugraph
  bp_parents :: "nat list"
  bp_levels :: "'w list"
  bp_new_neighbour_indices :: "nat option list"
  bp_active :: "bool list"
  bp_heap :: "'w heap"
  bp_current_num_nodes_tree :: nat
  bp_rule :: 'r

type_synonym ('w, 'r) weighter =
  "'r \<Rightarrow> ugraph \<Rightarrow> nat \<Rightarrow> nat \<Rightarrow> nat \<Rightarrow> nat \<Rightarrow> 'w new_neighbour list \<Rightarrow>
   error + ('r \<times> 'w new_neighbour list)"

text \<open>The initial heap: every edge met at a vertex is pushed once.\<close>

definition init_heap_step ::
  "'w list \<Rightarrow> nat \<Rightarrow> 'w heap \<times> bool list \<Rightarrow> 'w heap \<times> bool list" where
  "init_heap_step edge_weights e ha =
     (case ha of (heap, active) \<Rightarrow>
        if \<not> active ! e
        then (heap_push heap \<lparr>he_value = edge_weights ! e, he_index = e\<rparr>, active[e := True])
        else (heap, active))"

definition init_heap :: "graph \<Rightarrow> ugraph \<Rightarrow> 'w list \<Rightarrow> 'w heap \<times> bool list" where
  "init_heap graph g edge_weights =
     fold (\<lambda>v. fold (init_heap_step edge_weights) (out_edges v g))
       [0..<num_vertices graph] ([], replicate (length (ug_edges g)) False)"

text \<open>
  \<^verbatim>\<open>explore_region\<close>: the loop over the out-edges of a region. A neighbour outside
  \<open>new_neighbour_indices\<close>, or an index outside \<open>new_neighbours\<close>, is an access outside
  an array.
\<close>

definition explore_step ::
  "ugraph \<Rightarrow> nat \<Rightarrow> nat \<Rightarrow> 'w new_neighbour list \<times> nat option list \<Rightarrow>
   error + ('w new_neighbour list \<times> nat option list)" where
  "explore_step g region e st =
     (case st of (new_neighbours, new_neighbour_indices) \<Rightarrow>
        (case ug_edges g ! e of
           None \<Rightarrow> Inl NoReturn
         | Some ed \<Rightarrow>
             (let n = other_vertex ed region in
              if \<not> n < length new_neighbour_indices then Inl NoReturn
              else
                (case new_neighbour_indices ! n of
                   Some k \<Rightarrow>
                     if k < length new_neighbours
                     then Inr (new_neighbours[k := (new_neighbours ! k)\<lparr>second_edge_index := Some e\<rparr>],
                               new_neighbour_indices)
                     else Inl NoReturn
                 | None \<Rightarrow>
                     Inr (new_neighbours @ [make_new_neighbour n e],
                          new_neighbour_indices[n := Some (length new_neighbours)])))))"

fun explore_edges ::
  "ugraph \<Rightarrow> nat \<Rightarrow> nat list \<Rightarrow> 'w new_neighbour list \<times> nat option list \<Rightarrow>
   error + ('w new_neighbour list \<times> nat option list)" where
  "explore_edges g region [] st = Inr st"
| "explore_edges g region (e # es) st =
     (case explore_step g region e st of
        Inl err \<Rightarrow> Inl err
      | Inr st1 \<Rightarrow> explore_edges g region es st1)"

definition explore_region ::
  "ugraph \<Rightarrow> nat \<Rightarrow> 'w new_neighbour list \<times> nat option list \<Rightarrow>
   error + ('w new_neighbour list \<times> nat option list)" where
  "explore_region g region st = explore_edges g region (out_edges region g) st"

text \<open>
  The loop that processes the new weights. An update through a handle that is null, or
  with a weight the rule has not written, does not return.
\<close>

definition process_step ::
  "nat \<Rightarrow> 'w new_neighbour \<Rightarrow> ugraph \<times> bool list \<times> 'w heap \<Rightarrow>
   error + (ugraph \<times> bool list \<times> 'w heap)" where
  "process_step new_parent nn st =
     (case st of (g, active, heap) \<Rightarrow>
        (let (active1, g1) =
               (if 1 < nn_num_edges nn
                then (active[the (second_edge_index nn) := False],
                      remove_edge (the (second_edge_index nn)) g)
                else (active, g));
             g2 = set_edge (first_edge_index nn) (neighbour_vertex nn) new_parent g1
         in case new_edge_weight nn of
              None \<Rightarrow> Inl NoReturn
            | Some nw \<Rightarrow>
                (case heap_update heap (first_edge_index nn)
                        \<lparr>he_value = nw, he_index = first_edge_index nn\<rparr> of
                   None \<Rightarrow> Inl NoReturn
                 | Some heap1 \<Rightarrow> Inr (g2, active1[first_edge_index nn := True], heap1))))"

fun process_loop ::
  "nat \<Rightarrow> 'w new_neighbour list \<Rightarrow> ugraph \<times> bool list \<times> 'w heap \<Rightarrow>
   error + (ugraph \<times> bool list \<times> 'w heap)" where
  "process_loop new_parent [] st = Inr st"
| "process_loop new_parent (nn # nns) st =
     (case process_step new_parent nn st of
        Inl err \<Rightarrow> Inl err
      | Inr st1 \<Rightarrow> process_loop new_parent nns st1)"

text \<open>
  The body of the main loop for an active fusion edge. The descriptors are constant for
  the rule, their weight apart: only the weights it returns are kept.
\<close>

definition fuse ::
  "('w, 'r) weighter \<Rightarrow> nat \<Rightarrow> 'w \<Rightarrow> ('w, 'r) bp_state \<Rightarrow> error + ('w, 'r) bp_state" where
  "fuse weight_function fusion_edge_index fusion_edge_weight s =
     (let active0 = (bp_active s)[fusion_edge_index := False];
          (new_parent, g0) = add_vertex (bp_g s)
      in case ug_edges g0 ! fusion_edge_index of
           None \<Rightarrow> Inl NoReturn
         | Some fusion_edge \<Rightarrow>
            (let region1 = source fusion_edge;
                 region2 = target fusion_edge
             in if \<not> (region1 < length (bp_parents s) \<and> region2 < length (bp_parents s) \<and>
                       new_parent < length (bp_levels s)) then Inl NoReturn
                else
                 (let parents1 = (bp_parents s)[region1 := new_parent, region2 := new_parent];
                      levels1 = (bp_levels s)[new_parent := fusion_edge_weight];
                      g1 = remove_edge fusion_edge_index g0
                  in case explore_region g1 region1 ([], bp_new_neighbour_indices s) of
                       Inl err \<Rightarrow> Inl err
                     | Inr st1 \<Rightarrow>
                        (case explore_region g1 region2 st1 of
                           Inl err \<Rightarrow> Inl err
                         | Inr (new_neighbours, indices2) \<Rightarrow>
                            (let indices3 =
                                   fold (\<lambda>n ix. ix[neighbour_vertex n := None]) new_neighbours indices2;
                                 s1 = s\<lparr>bp_parents := parents1, bp_levels := levels1,
                                        bp_new_neighbour_indices := indices3,
                                        bp_current_num_nodes_tree := bp_current_num_nodes_tree s + 1\<rparr>
                             in if new_neighbours \<noteq> [] then
                                  (case weight_function (bp_rule s) g1 fusion_edge_index new_parent
                                          region1 region2 new_neighbours of
                                     Inl err \<Rightarrow> Inl err
                                   | Inr (rule1, weighted) \<Rightarrow>
                                      (case process_loop new_parent
                                              (map2 (\<lambda>n n'. n\<lparr>new_edge_weight := new_edge_weight n'\<rparr>)
                                                 new_neighbours weighted)
                                              (g1, active0, bp_heap s) of
                                         Inl err \<Rightarrow> Inl err
                                       | Inr (g2, active2, heap2) \<Rightarrow>
                                           Inr (s1\<lparr>bp_g := g2, bp_active := active2,
                                                   bp_heap := heap2, bp_rule := rule1\<rparr>)))
                                else Inr (s1\<lparr>bp_g := g1, bp_active := active0\<rparr>))))))"

lemma heap_update_length: "heap_update h e x = Some h' \<Longrightarrow> length h' = length h"
  by (auto simp: heap_update_def split: if_splits)

lemma process_loop_heap_length:
  "process_loop new_parent nns (g, active, heap) = Inr (g', active', heap') \<Longrightarrow>
   length heap' = length heap"
proof (induction nns arbitrary: g active heap)
  case Nil
  then show ?case by simp
next
  case (Cons nn nns)
  from Cons.prems obtain g1 a1 h1 where
    st: "process_step new_parent nn (g, active, heap) = Inr (g1, a1, h1)"
    and rest: "process_loop new_parent nns (g1, a1, h1) = Inr (g', active', heap')"
    by (auto split: sum.splits)
  from st have "length h1 = length heap"
    by (auto simp: process_step_def Let_def heap_update_length
        split: option.splits prod.splits if_splits)
  with Cons.IH[OF rest] show ?case by simp
qed

lemma fuse_heap_length:
  "fuse weight_function e v s = Inr s' \<Longrightarrow> length (bp_heap s') = length (bp_heap s)"
  unfolding fuse_def Let_def
  by (auto split: option.splits prod.splits if_splits sum.splits
      dest: process_loop_heap_length)

lemma fold_min_in: "fold min xs (a::'a::linorder) \<in> insert a (set xs)"
  by (induction xs arbitrary: a) (auto simp: min_def)

lemma fold_min_le: "fold min xs (a::'a::linorder) \<le> a \<and> (\<forall>x \<in> set xs. fold min xs a \<le> x)"
proof (induction xs arbitrary: a)
  case Nil
  then show ?case by simp
next
  case (Cons y ys)
  from Cons.IH[of "min y a"] show ?case by (auto simp: min_le_iff_disj)
qed

lemma heap_min_in: "h \<noteq> [] \<Longrightarrow> heap_min h \<in> he_value ` set h"
proof -
  assume "h \<noteq> []"
  then obtain x xs where h: "h = x # xs" by (cases h) auto
  from fold_min_in[of "map he_value xs" "he_value x"] show ?thesis
    unfolding heap_min_def h by auto
qed

lemma heap_min_le: "x \<in> set h \<Longrightarrow> heap_min h \<le> he_value x"
proof -
  assume x: "x \<in> set h"
  then obtain y ys where h: "h = y # ys" by (cases h) auto
  from fold_min_le[of "map he_value ys" "he_value y"] x show ?thesis
    unfolding heap_min_def h by auto
qed

lemma heap_top_props:
  assumes "h \<noteq> []"
  shows "heap_top tie h \<in> set h \<and> he_value (heap_top tie h) = heap_min h"
proof -
  let ?c = "filter (\<lambda>x. he_value x = heap_min h) h"
  from heap_min_in[OF assms] have "?c \<noteq> []" by (auto simp: filter_empty_conv)
  then have "tie (length h) mod length ?c < length ?c" by simp
  then have "?c ! (tie (length h) mod length ?c) \<in> set ?c" by (rule nth_mem)
  then show ?thesis unfolding heap_top_def Let_def by simp
qed

lemma heap_pop_length: "h \<noteq> [] \<Longrightarrow> length (heap_pop tie h) < length h"
  using heap_top_props[of h tie] by (simp add: heap_pop_def length_remove1)

text \<open>The main loop. Each iteration pops one element, and an update adds none: the loop
  ends.\<close>

function bp_loop ::
  "(nat \<Rightarrow> nat) \<Rightarrow> ('w::linorder, 'r) weighter \<Rightarrow> nat \<Rightarrow> ('w, 'r) bp_state \<Rightarrow>
   error + ('w, 'r) bp_state" where
  "bp_loop tie weight_function num_nodes_tree s =
     (if bp_heap s \<noteq> [] \<and> bp_current_num_nodes_tree s < num_nodes_tree then
        (let min_element = heap_top tie (bp_heap s);
             fusion_edge_index = he_index min_element;
             fusion_edge_weight = he_value min_element;
             s1 = s\<lparr>bp_heap := heap_pop tie (bp_heap s)\<rparr>
         in if bp_active s1 ! fusion_edge_index then
              (case fuse weight_function fusion_edge_index fusion_edge_weight s1 of
                 Inl err \<Rightarrow> Inl err
               | Inr s2 \<Rightarrow> bp_loop tie weight_function num_nodes_tree s2)
            else bp_loop tie weight_function num_nodes_tree s1)
      else Inr s)"
  by pat_completeness auto
termination
  by (relation "measure (\<lambda>(tie, wf, k, s). length (bp_heap s))")
     (auto dest!: fuse_heap_length simp: heap_pop_length)

declare bp_loop.simps [simp del]

text \<open>
  \<^verbatim>\<open>binary_partition_tree\<close>. As in \<^verbatim>\<open>bpt_canonical\<close> the sizes are \<^verbatim>\<open>size_t\<close>: without a
  vertex \<^verbatim>\<open>num_points * 2 - 1\<close> wraps around and the allocation of \<open>parents\<close> fails.
\<close>

definition binary_partition_tree ::
  "(nat \<Rightarrow> nat) \<Rightarrow> graph \<Rightarrow> ('w::{linorder,zero}) list \<Rightarrow> ('w, 'r) weighter \<Rightarrow> 'r \<Rightarrow>
   error + 'w node_weighted_tree" where
  "binary_partition_tree tie graph edge_weights weight_function rule =
     (if length edge_weights \<noteq> num_edges graph then Inl InvalidInput
      else if num_vertices graph = 0 then Inl AllocationFailure
      else
        (let g = copy_graph graph;
             num_points = ug_num_vertices g;
             num_nodes_tree = num_points * 2 - 1;
             (heap, active) = init_heap graph g edge_weights;
             s = \<lparr>bp_g = g,
                  bp_parents = [0..<num_nodes_tree],
                  bp_levels = replicate num_nodes_tree 0,
                  bp_new_neighbour_indices = replicate num_nodes_tree None,
                  bp_active = active,
                  bp_heap = heap,
                  bp_current_num_nodes_tree = num_points,
                  bp_rule = rule\<rparr>
         in case bp_loop tie weight_function num_nodes_tree s of
              Inl err \<Rightarrow> Inl err
            | Inr s' \<Rightarrow>
                (case make_tree (bp_parents s') of
                   Inl err \<Rightarrow> Inl err
                 | Inr t \<Rightarrow> Inr \<lparr>nw_tree = t, nw_altitudes = bp_levels s'\<rparr>)))"

text \<open>
  \<^verbatim>\<open>binary_partition_tree_min_linkage\<close>: the state of the rule is its vector
  \<^verbatim>\<open>m_weights\<close>, a reference to the weights the caller gives.
\<close>

definition min_linkage_step ::
  "('w::linorder) list \<Rightarrow> 'w new_neighbour \<Rightarrow> error + ('w list \<times> 'w new_neighbour)" where
  "min_linkage_step weights n =
     (if \<not> first_edge_index n < length weights then Inl NoReturn
      else
        (let min_value = weights ! first_edge_index n in
         if 1 < nn_num_edges n then
           (let e2 = the (second_edge_index n) in
            if \<not> e2 < length weights then Inl NoReturn
            else
              (let min_value1 = (if weights ! e2 < min_value then weights ! e2 else min_value)
               in Inr (weights[new_edge_index n := min_value1],
                       n\<lparr>new_edge_weight := Some min_value1\<rparr>)))
         else Inr (weights[new_edge_index n := min_value],
                   n\<lparr>new_edge_weight := Some min_value\<rparr>)))"

fun min_linkage_loop ::
  "('w::linorder) list \<Rightarrow> 'w new_neighbour list \<Rightarrow> error + ('w list \<times> 'w new_neighbour list)" where
  "min_linkage_loop weights [] = Inr (weights, [])"
| "min_linkage_loop weights (n # ns) =
     (case min_linkage_step weights n of
        Inl err \<Rightarrow> Inl err
      | Inr (m1, n1) \<Rightarrow>
          (case min_linkage_loop m1 ns of
             Inl err \<Rightarrow> Inl err
           | Inr (m2, ns1) \<Rightarrow> Inr (m2, n1 # ns1)))"

definition binary_partition_tree_min_linkage :: "('w::linorder, 'w list) weighter" where
  "binary_partition_tree_min_linkage weights g fusion_edge_index new_region merged_region1
     merged_region2 new_neighbours = min_linkage_loop weights new_neighbours"

section \<open>One fusion of the binary partition tree\<close>

text \<open>The edges of a descriptor, and the weight the minimum linkage gives it.\<close>

definition edges_of :: "'w new_neighbour \<Rightarrow> nat list" where
  "edges_of nn =
     first_edge_index nn # (case second_edge_index nn of None \<Rightarrow> [] | Some e \<Rightarrow> [e])"

definition min_weight :: "('w::linorder) list \<Rightarrow> 'w new_neighbour \<Rightarrow> 'w" where
  "min_weight M nn =
     (case second_edge_index nn of
        None \<Rightarrow> M ! first_edge_index nn
      | Some e2 \<Rightarrow> min (M ! first_edge_index nn) (M ! e2))"

lemma min_linkage_step_eq:
  assumes "\<forall>e \<in> set (edges_of nn). e < length M"
  shows "min_linkage_step M nn =
     Inr (M[first_edge_index nn := min_weight M nn],
          nn\<lparr>new_edge_weight := Some (min_weight M nn)\<rparr>)"
proof (cases "second_edge_index nn")
  case None
  with assms show ?thesis
    by (simp add: min_linkage_step_def nn_num_edges_def new_edge_index_def min_weight_def
        edges_of_def)
next
  case (Some e2)
  with assms show ?thesis
    by (auto simp: min_linkage_step_def nn_num_edges_def new_edge_index_def min_weight_def
        edges_of_def Let_def min_def)
qed

lemma min_weight_update:
  "e \<notin> set (edges_of nn) \<Longrightarrow> min_weight (M[e := v]) nn = min_weight M nn"
  by (auto simp: min_weight_def edges_of_def split: option.splits)

lemma min_linkage_loop_eq:
  assumes "distinct (concat (map edges_of nns))"
    and "\<forall>e \<in> set (concat (map edges_of nns)). e < length M"
  shows "\<exists>M'. min_linkage_loop M nns =
           Inr (M', map (\<lambda>nn. nn\<lparr>new_edge_weight := Some (min_weight M nn)\<rparr>) nns) \<and>
         length M' = length M \<and>
         (\<forall>nn \<in> set nns. M' ! first_edge_index nn = min_weight M nn) \<and>
         (\<forall>e. e \<notin> first_edge_index ` set nns \<longrightarrow> M' ! e = M ! e)"
  using assms
proof (induction nns arbitrary: M)
  case Nil
  then show ?case by simp
next
  case (Cons n ns)
  let ?M1 = "M[first_edge_index n := min_weight M n]"
  have st: "min_linkage_step M n = Inr (?M1, n\<lparr>new_edge_weight := Some (min_weight M n)\<rparr>)"
    using Cons.prems(2) by (intro min_linkage_step_eq) simp
  have d: "distinct (concat (map edges_of ns))" using Cons.prems(1) by simp
  have b: "\<forall>e \<in> set (concat (map edges_of ns)). e < length ?M1" using Cons.prems(2) by simp
  from Cons.IH[OF d b] obtain M' where
    ih: "min_linkage_loop ?M1 ns =
           Inr (M', map (\<lambda>nn. nn\<lparr>new_edge_weight := Some (min_weight ?M1 nn)\<rparr>) ns)"
        "length M' = length ?M1"
        "\<forall>nn \<in> set ns. M' ! first_edge_index nn = min_weight ?M1 nn"
        "\<forall>e. e \<notin> first_edge_index ` set ns \<longrightarrow> M' ! e = ?M1 ! e"
    by blast
  have f: "first_edge_index n \<notin> set (edges_of nn)" if "nn \<in> set ns" for nn
    using Cons.prems(1) that by (auto simp: edges_of_def)
  have mw: "min_weight ?M1 nn = min_weight M nn" if "nn \<in> set ns" for nn
    by (rule min_weight_update[OF f[OF that]])
  have fn: "first_edge_index n \<notin> first_edge_index ` set ns"
    using f by (auto simp: edges_of_def)
  have fl: "first_edge_index n < length M" using Cons.prems(2) by (simp add: edges_of_def)
  have m1: "map (\<lambda>nn. nn\<lparr>new_edge_weight := Some (min_weight ?M1 nn)\<rparr>) ns =
            map (\<lambda>nn. nn\<lparr>new_edge_weight := Some (min_weight M nn)\<rparr>) ns"
    using mw by (intro map_cong[OF refl]) simp
  have a: "min_linkage_loop M (n # ns) =
           Inr (M', map (\<lambda>nn. nn\<lparr>new_edge_weight := Some (min_weight M nn)\<rparr>) (n # ns))"
    using st ih(1) m1 by simp
  have b': "length M' = length M" using ih(2) by simp
  have c: "\<forall>nn \<in> set (n # ns). M' ! first_edge_index nn = min_weight M nn"
  proof
    fix nn assume "nn \<in> set (n # ns)"
    then consider "nn = n" | "nn \<in> set ns" by auto
    then show "M' ! first_edge_index nn = min_weight M nn"
    proof cases
      case 1
      with ih(4) fn fl show ?thesis by simp
    next
      case 2
      with ih(3) mw show ?thesis by simp
    qed
  qed
  have e: "\<forall>e. e \<notin> first_edge_index ` set (n # ns) \<longrightarrow> M' ! e = M ! e"
    using ih(4) by auto
  from a b' c e show ?case by blast
qed

lemma map2_new_edge_weight:
  "map2 (\<lambda>n n'. n\<lparr>new_edge_weight := new_edge_weight n'\<rparr>) nns
        (map (\<lambda>nn. nn\<lparr>new_edge_weight := Some (f nn)\<rparr>) nns) =
   map (\<lambda>nn. nn\<lparr>new_edge_weight := Some (f nn)\<rparr>) nns"
  by (induction nns) auto

lemma heap_update_eq:
  assumes "e \<in> he_index ` set H"
  shows "\<exists>H1. heap_update H e x = Some H1 \<and>
           H1 = map (\<lambda>y. if he_index y = e then x else y) H"
  using assms by (simp add: heap_update_def)

lemma process_step_eq:
  assumes w: "new_edge_weight nn = Some v"
    and h: "first_edge_index nn \<in> he_index ` set H"
  shows "process_step new nn (g, A, H) =
     Inr (set_edge (first_edge_index nn) (neighbour_vertex nn) new
            (case second_edge_index nn of None \<Rightarrow> g | Some e2 \<Rightarrow> remove_edge e2 g),
          (case second_edge_index nn of None \<Rightarrow> A | Some e2 \<Rightarrow> A[e2 := False])
            [first_edge_index nn := True],
          map (\<lambda>y. if he_index y = first_edge_index nn
                    then \<lparr>he_value = v, he_index = first_edge_index nn\<rparr> else y) H)"
  using w h
  by (cases "second_edge_index nn")
     (simp_all add: process_step_def nn_num_edges_def heap_update_def)

lemma process_loop_eq:
  assumes "distinct (concat (map edges_of ws))"
    and "\<forall>nn \<in> set ws. new_edge_weight nn \<noteq> None"
    and "\<forall>nn \<in> set ws. first_edge_index nn \<in> he_index ` set H"
    and "\<forall>e \<in> set (concat (map edges_of ws)). e < length (ug_edges g)"
    and "length A = length (ug_edges g)"
  shows "\<exists>g' A' H'. process_loop new ws (g, A, H) = Inr (g', A', H') \<and>
     ug_num_vertices g' = ug_num_vertices g \<and>
     length (ug_edges g') = length (ug_edges g) \<and> length A' = length A \<and>
     map he_index H' = map he_index H \<and>
     (\<forall>nn \<in> set ws. ug_edges g' ! first_edge_index nn = Some (neighbour_vertex nn, new) \<and>
        A' ! first_edge_index nn \<and>
        \<lparr>he_value = the (new_edge_weight nn), he_index = first_edge_index nn\<rparr> \<in> set H') \<and>
     (\<forall>nn \<in> set ws. \<forall>e2. second_edge_index nn = Some e2 \<longrightarrow>
        ug_edges g' ! e2 = None \<and> \<not> A' ! e2) \<and>
     (\<forall>e. e \<notin> set (concat (map edges_of ws)) \<longrightarrow>
        ug_edges g' ! e = ug_edges g ! e \<and> A' ! e = A ! e) \<and>
     (\<forall>y \<in> set H. he_index y \<notin> first_edge_index ` set ws \<longrightarrow> y \<in> set H')"
  using assms
proof (induction ws arbitrary: g A H)
  case Nil
  then show ?case by simp
next
  case (Cons n ws)
  let ?f = "first_edge_index n"
  from Cons.prems(2) obtain v where v: "new_edge_weight n = Some v" by auto
  let ?g0 = "case second_edge_index n of None \<Rightarrow> g | Some e2 \<Rightarrow> remove_edge e2 g"
  let ?g1 = "set_edge ?f (neighbour_vertex n) new ?g0"
  let ?A0 = "case second_edge_index n of None \<Rightarrow> A | Some e2 \<Rightarrow> A[e2 := False]"
  let ?A1 = "?A0[?f := True]"
  let ?H1 = "map (\<lambda>y. if he_index y = ?f then \<lparr>he_value = v, he_index = ?f\<rparr> else y) H"
  have fh: "?f \<in> he_index ` set H" using Cons.prems(3) by simp
  have st: "process_step new n (g, A, H) = Inr (?g1, ?A1, ?H1)"
    by (rule process_step_eq[OF v fh])
  have lg0: "length (ug_edges ?g0) = length (ug_edges g)"
    by (simp add: remove_edge_def split: option.splits)
  have lg1: "length (ug_edges ?g1) = length (ug_edges g)"
    using lg0 by (simp add: set_edge_def)
  have nv1: "ug_num_vertices ?g1 = ug_num_vertices g"
    by (simp add: set_edge_def remove_edge_def split: option.splits)
  have lA1: "length ?A1 = length A" by (simp split: option.splits)
  have hi: "map he_index ?H1 = map he_index H" by (induction H) auto
  then have hs: "he_index ` set ?H1 = he_index ` set H"
    by (metis list.set_map)
  have d: "distinct (concat (map edges_of ws))" using Cons.prems(1) by simp
  have p2: "\<forall>nn \<in> set ws. new_edge_weight nn \<noteq> None" using Cons.prems(2) by simp
  have p3: "\<forall>nn \<in> set ws. first_edge_index nn \<in> he_index ` set ?H1"
    unfolding hs using Cons.prems(3) by simp
  have p4: "\<forall>e \<in> set (concat (map edges_of ws)). e < length (ug_edges ?g1)"
    unfolding lg1 using Cons.prems(4) by simp
  have p5: "length ?A1 = length (ug_edges ?g1)" unfolding lg1 lA1 by (rule Cons.prems(5))
  from Cons.IH[OF d p2 p3 p4 p5] obtain g' A' H' where
    ih: "process_loop new ws (?g1, ?A1, ?H1) = Inr (g', A', H')"
      "ug_num_vertices g' = ug_num_vertices ?g1"
      "length (ug_edges g') = length (ug_edges ?g1)" "length A' = length ?A1"
      "map he_index H' = map he_index ?H1"
      "\<forall>nn \<in> set ws. ug_edges g' ! first_edge_index nn = Some (neighbour_vertex nn, new) \<and>
        A' ! first_edge_index nn \<and>
        \<lparr>he_value = the (new_edge_weight nn), he_index = first_edge_index nn\<rparr> \<in> set H'"
      "\<forall>nn \<in> set ws. \<forall>e2. second_edge_index nn = Some e2 \<longrightarrow>
        ug_edges g' ! e2 = None \<and> \<not> A' ! e2"
      "\<forall>e. e \<notin> set (concat (map edges_of ws)) \<longrightarrow>
        ug_edges g' ! e = ug_edges ?g1 ! e \<and> A' ! e = ?A1 ! e"
      "\<forall>y \<in> set ?H1. he_index y \<notin> first_edge_index ` set ws \<longrightarrow> y \<in> set H'"
    by blast
  have en: "set (edges_of n) \<inter> set (concat (map edges_of ws)) = {}"
    using Cons.prems(1) by auto
  have fl: "?f < length (ug_edges g)" using Cons.prems(4) by (simp add: edges_of_def)
  have fnot: "?f \<notin> set (concat (map edges_of ws))" using en by (auto simp: edges_of_def)
  have ffirst: "?f \<notin> first_edge_index ` set ws"
    using fnot by (auto simp: edges_of_def)
  have loop: "process_loop new (n # ws) (g, A, H) = Inr (g', A', H')"
    using st ih(1) by simp
  have first_n: "ug_edges g' ! ?f = Some (neighbour_vertex n, new) \<and> A' ! ?f \<and>
      \<lparr>he_value = the (new_edge_weight n), he_index = ?f\<rparr> \<in> set H'"
  proof -
    have "ug_edges ?g1 ! ?f = Some (neighbour_vertex n, new)"
      using fl lg0 by (simp add: set_edge_def)
    moreover have "?A1 ! ?f" using fl Cons.prems(5) by (simp split: option.splits)
    moreover have "\<lparr>he_value = v, he_index = ?f\<rparr> \<in> set ?H1" using fh by auto
    ultimately show ?thesis using ih(8,9) fnot ffirst v by simp
  qed
  have second_n: "ug_edges g' ! e2 = None \<and> \<not> A' ! e2" if e2: "second_edge_index n = Some e2" for e2
  proof -
    have ne: "e2 \<noteq> ?f" using Cons.prems(1) e2 by (simp add: edges_of_def)
    have l2: "e2 < length (ug_edges g)" using Cons.prems(4) e2 by (simp add: edges_of_def)
    have n2: "e2 \<notin> set (concat (map edges_of ws))" using en e2 by (auto simp: edges_of_def)
    have "ug_edges ?g1 ! e2 = None" using e2 ne l2 by (simp add: set_edge_def remove_edge_def)
    moreover have "\<not> ?A1 ! e2" using e2 ne l2 Cons.prems(5) by simp
    ultimately show ?thesis using ih(8) n2 by simp
  qed
  have other: "ug_edges g' ! e = ug_edges g ! e \<and> A' ! e = A ! e"
    if e: "e \<notin> set (concat (map edges_of (n # ws)))" for e
  proof -
    from e have e1: "e \<noteq> ?f" "e \<notin> set (concat (map edges_of ws))"
      and e2: "second_edge_index n \<noteq> Some e"
      by (auto simp: edges_of_def)
    have "ug_edges ?g1 ! e = ug_edges g ! e"
      using e1(1) e2 by (auto simp: set_edge_def remove_edge_def split: option.splits)
    moreover have "?A1 ! e = A ! e"
      using e1(1) e2 by (auto split: option.splits)
    ultimately show ?thesis using ih(8) e1(2) by simp
  qed
  have keep: "y \<in> set H'" if y: "y \<in> set H" "he_index y \<notin> first_edge_index ` set (n # ws)" for y
  proof -
    from y have "y \<in> set ?H1" by force
    with ih(9) y(2) show ?thesis by simp
  qed
  have A: "\<forall>nn \<in> set (n # ws).
        ug_edges g' ! first_edge_index nn = Some (neighbour_vertex nn, new) \<and>
        A' ! first_edge_index nn \<and>
        \<lparr>he_value = the (new_edge_weight nn), he_index = first_edge_index nn\<rparr> \<in> set H'"
    using first_n ih(6) by simp
  have B: "\<forall>nn \<in> set (n # ws). \<forall>e2. second_edge_index nn = Some e2 \<longrightarrow>
        ug_edges g' ! e2 = None \<and> \<not> A' ! e2"
    using second_n ih(7) by simp
  have C: "ug_num_vertices g' = ug_num_vertices g" using ih(2) nv1 by simp
  have D: "length (ug_edges g') = length (ug_edges g)" using ih(3) lg1 by simp
  have E: "length A' = length A" using ih(4) lA1 by simp
  have F: "map he_index H' = map he_index H" using ih(5) hi by simp
  from loop A B C D E F other keep show ?case by blast
qed

text \<open>
  The search for the neighbours. After the edges \<open>ps\<close>, each with the neighbour it leads to,
  there is one descriptor for each neighbour met; its first edge is the first edge that
  led to the neighbour, its second edge the last one, when there are two or more.
\<close>

definition pairs_at :: "(nat \<times> nat) list \<Rightarrow> nat \<Rightarrow> (nat \<times> nat) list" where
  "pairs_at ps x = filter (\<lambda>p. snd p = x) ps"

definition explore_inv ::
  "nat \<Rightarrow> (nat \<times> nat) list \<Rightarrow> 'w new_neighbour list \<times> nat option list \<Rightarrow> bool" where
  "explore_inv L ps st =
     (case st of (nns, idx) \<Rightarrow>
        length idx = L \<and> (\<forall>p \<in> set ps. snd p < L) \<and>
        distinct (map neighbour_vertex nns) \<and>
        neighbour_vertex ` set nns = snd ` set ps \<and>
        (\<forall>k < length nns. idx ! neighbour_vertex (nns ! k) = Some k) \<and>
        (\<forall>x < L. x \<notin> snd ` set ps \<longrightarrow> idx ! x = None) \<and>
        (\<forall>nn \<in> set nns.
           first_edge_index nn = fst (hd (pairs_at ps (neighbour_vertex nn))) \<and>
           second_edge_index nn =
             (if 2 \<le> length (pairs_at ps (neighbour_vertex nn))
              then Some (fst (last (pairs_at ps (neighbour_vertex nn)))) else None) \<and>
           new_edge_weight nn = None))"

lemma pairs_at_snoc:
  "pairs_at (ps @ [(e, n)]) x = (if x = n then pairs_at ps x @ [(e, n)] else pairs_at ps x)"
  by (auto simp: pairs_at_def)

lemma pairs_at_empty: "pairs_at ps x = [] \<longleftrightarrow> x \<notin> snd ` set ps"
  by (auto simp: pairs_at_def filter_empty_conv)

lemma explore_step_inv:
  assumes inv: "explore_inv L ps (nns, idx)"
    and e: "ug_edges g ! e = Some ed" and n: "other_vertex ed region = n" and nL: "n < L"
  shows "\<exists>st'. explore_step g region e (nns, idx) = Inr st' \<and>
           explore_inv L (ps @ [(e, n)]) st'"
proof -
  from inv have len: "length idx = L" and pL: "\<forall>p \<in> set ps. snd p < L"
    and dist: "distinct (map neighbour_vertex nns)"
    and img: "neighbour_vertex ` set nns = snd ` set ps"
    and ix: "\<And>k. k < length nns \<Longrightarrow> idx ! neighbour_vertex (nns ! k) = Some k"
    and none: "\<And>x. x < L \<Longrightarrow> x \<notin> snd ` set ps \<Longrightarrow> idx ! x = None"
    and desc: "\<And>nn. nn \<in> set nns \<Longrightarrow>
           first_edge_index nn = fst (hd (pairs_at ps (neighbour_vertex nn))) \<and>
           second_edge_index nn =
             (if 2 \<le> length (pairs_at ps (neighbour_vertex nn))
              then Some (fst (last (pairs_at ps (neighbour_vertex nn)))) else None) \<and>
           new_edge_weight nn = None"
    by (auto simp: explore_inv_def)
  have pL': "\<forall>p \<in> set (ps @ [(e, n)]). snd p < L" using pL nL by auto
  show ?thesis
  proof (cases "idx ! n")
    case None
    have nn: "n \<notin> snd ` set ps"
    proof
      assume "n \<in> snd ` set ps"
      then have "n \<in> neighbour_vertex ` set nns" unfolding img .
      then obtain d where "d \<in> set nns" "neighbour_vertex d = n" by auto
      then obtain k where "k < length nns" "nns ! k = d" by (auto simp: in_set_conv_nth)
      with ix[of k] \<open>neighbour_vertex d = n\<close> None show False by simp
    qed
    let ?d = "make_new_neighbour n e :: 'a new_neighbour"
    let ?nns = "nns @ [?d]"
    let ?idx = "idx[n := Some (length nns)]"
    have st: "explore_step g region e (nns, idx) = Inr (?nns, ?idx)"
      using e n nL len None by (simp add: explore_step_def Let_def)
    have nd: "neighbour_vertex ?d = n" by (simp add: make_new_neighbour_def)
    have a: "distinct (map neighbour_vertex ?nns)"
      using dist nn img nd by auto
    have b: "neighbour_vertex ` set ?nns = snd ` set (ps @ [(e, n)])"
      using img nd by auto
    have c: "?idx ! neighbour_vertex (?nns ! k) = Some k" if "k < length ?nns" for k
    proof (cases "k < length nns")
      case True
      then have "nns ! k \<in> set nns" by simp
      then have "neighbour_vertex (nns ! k) \<in> snd ` set ps" using img by blast
      with nn have "neighbour_vertex (nns ! k) \<noteq> n" by auto
      with True ix[OF True] show ?thesis by (simp add: nth_append)
    next
      case False
      with that have "k = length nns" by simp
      then show ?thesis using nd nL len by (simp add: nth_append)
    qed
    have d: "?idx ! x = None" if "x < L" "x \<notin> snd ` set (ps @ [(e, n)])" for x
      using that none[of x] by auto
    have f: "first_edge_index d = fst (hd (pairs_at (ps @ [(e, n)]) (neighbour_vertex d))) \<and>
           second_edge_index d =
             (if 2 \<le> length (pairs_at (ps @ [(e, n)]) (neighbour_vertex d))
              then Some (fst (last (pairs_at (ps @ [(e, n)]) (neighbour_vertex d)))) else None) \<and>
           new_edge_weight d = None" if "d \<in> set ?nns" for d
    proof (cases "d \<in> set nns")
      case True
      then have "neighbour_vertex d \<in> snd ` set ps" using img by blast
      with nn have "neighbour_vertex d \<noteq> n" by auto
      then show ?thesis using desc[OF True] by (simp add: pairs_at_snoc)
    next
      case False
      with that have dd: "d = ?d" by simp
      have "pairs_at ps n = []" using nn by (simp add: pairs_at_empty)
      then show ?thesis unfolding dd by (simp add: pairs_at_snoc make_new_neighbour_def)
    qed
    have "explore_inv L (ps @ [(e, n)]) (?nns, ?idx)"
      unfolding explore_inv_def using len pL' a b c d f by simp
    with st show ?thesis by blast
  next
    case (Some k)
    have nin: "n \<in> snd ` set ps"
    proof (rule ccontr)
      assume "n \<notin> snd ` set ps"
      from none[OF nL this] Some show False by simp
    qed
    then have "n \<in> neighbour_vertex ` set nns" unfolding img .
    then obtain d0 where d0: "d0 \<in> set nns" "neighbour_vertex d0 = n" by auto
    then obtain k' where k': "k' < length nns" "nns ! k' = d0" by (auto simp: in_set_conv_nth)
    with ix[of k'] d0(2) Some have kk: "k = k'" by simp
    have k: "k < length nns" "neighbour_vertex (nns ! k) = n" using k' kk d0 by auto
    let ?d = "(nns ! k)\<lparr>second_edge_index := Some e\<rparr>"
    let ?nns = "nns[k := ?d]"
    have st: "explore_step g region e (nns, idx) = Inr (?nns, idx)"
      using e n nL len Some k by (simp add: explore_step_def Let_def)
    have mp: "map neighbour_vertex ?nns = map neighbour_vertex nns"
      using k by (simp add: map_update list_update_same_conv)
    have a: "distinct (map neighbour_vertex ?nns)" unfolding mp by (rule dist)
    have "set (map neighbour_vertex ?nns) = set (map neighbour_vertex nns)" unfolding mp ..
    then have img': "neighbour_vertex ` set ?nns = neighbour_vertex ` set nns"
      by (simp only: set_map)
    have b: "neighbour_vertex ` set ?nns = snd ` set (ps @ [(e, n)])"
      unfolding img' using img nin by auto
    have c: "idx ! neighbour_vertex (?nns ! j) = Some j" if "j < length ?nns" for j
    proof -
      from that have j: "j < length nns" by simp
      have "neighbour_vertex (?nns ! j) = map neighbour_vertex ?nns ! j"
        using that by simp
      also have "\<dots> = neighbour_vertex (nns ! j)" unfolding mp using j by simp
      finally show ?thesis using ix[OF j] by simp
    qed
    have d: "idx ! x = None" if "x < L" "x \<notin> snd ` set (ps @ [(e, n)])" for x
      using that none[of x] by auto
    have f: "first_edge_index d = fst (hd (pairs_at (ps @ [(e, n)]) (neighbour_vertex d))) \<and>
           second_edge_index d =
             (if 2 \<le> length (pairs_at (ps @ [(e, n)]) (neighbour_vertex d))
              then Some (fst (last (pairs_at (ps @ [(e, n)]) (neighbour_vertex d)))) else None) \<and>
           new_edge_weight d = None" if "d \<in> set ?nns" for d
    proof -
      from that obtain j where j: "j < length nns" "?nns ! j = d"
        by (auto simp: in_set_conv_nth)
      show ?thesis
      proof (cases "j = k")
        case True
        with j have dd: "d = ?d" by simp
        have ne: "pairs_at ps n \<noteq> []" using nin by (simp add: pairs_at_empty)
        then have l: "1 \<le> length (pairs_at ps n)" by (cases "pairs_at ps n") auto
        have "nns ! k \<in> set nns" using k(1) by simp
        from desc[OF this] k(2) ne l show ?thesis unfolding dd
          by (simp add: pairs_at_snoc)
      next
        case False
        with j have dj: "d = nns ! j" by simp
        then have din: "d \<in> set nns" using j(1) by simp
        have "neighbour_vertex d \<noteq> n"
        proof
          assume "neighbour_vertex d = n"
          with dj k(2) have "map neighbour_vertex nns ! j = map neighbour_vertex nns ! k"
            using j(1) k(1) by simp
          moreover have "j < length (map neighbour_vertex nns)"
            "k < length (map neighbour_vertex nns)" using j(1) k(1) by simp_all
          ultimately have "j = k" using dist nth_eq_iff_index_eq by blast
          with False show False by simp
        qed
        then show ?thesis using desc[OF din] by (simp add: pairs_at_snoc)
      qed
    qed
    have "explore_inv L (ps @ [(e, n)]) (?nns, idx)"
      unfolding explore_inv_def using len pL' a b c d f by simp
    with st show ?thesis by blast
  qed
qed

lemma explore_edges_inv:
  assumes "explore_inv L ps st"
    and "\<forall>e \<in> set es. \<exists>ed. ug_edges g ! e = Some ed \<and> other_vertex ed region < L"
  shows "\<exists>st'. explore_edges g region es st = Inr st' \<and>
     explore_inv L (ps @ map (\<lambda>e. (e, other_vertex (the (ug_edges g ! e)) region)) es) st'"
  using assms
proof (induction es arbitrary: ps st)
  case Nil
  then show ?case by simp
next
  case (Cons e es)
  obtain nns idx where st: "st = (nns, idx)" by (cases st)
  from Cons.prems(2) obtain ed where ed: "ug_edges g ! e = Some ed"
    "other_vertex ed region < L" by auto
  from explore_step_inv[OF Cons.prems(1)[unfolded st] ed(1) refl ed(2)]
  obtain st1 where s1: "explore_step g region e (nns, idx) = Inr st1"
    "explore_inv L (ps @ [(e, other_vertex ed region)]) st1" by blast
  have "\<forall>e \<in> set es. \<exists>ed. ug_edges g ! e = Some ed \<and> other_vertex ed region < L"
    using Cons.prems(2) by simp
  from Cons.IH[OF s1(2) this] obtain st' where
    "explore_edges g region es st1 = Inr st'"
    "explore_inv L ((ps @ [(e, other_vertex ed region)]) @
        map (\<lambda>e. (e, other_vertex (the (ug_edges g ! e)) region)) es) st'" by blast
  then show ?case using s1(1) st ed(1) by simp
qed

lemma explore_inv_init:
  "\<forall>i < L. idx ! i = None \<Longrightarrow> length idx = L \<Longrightarrow> explore_inv L [] ([], idx)"
  by (simp add: explore_inv_def)

text \<open>After the reset every index is again invalid.\<close>

lemma reset_indices:
  assumes "explore_inv L ps (nns, idx)"
  shows "length (fold (\<lambda>n ix. ix[neighbour_vertex n := None]) nns idx) = L \<and>
         (\<forall>i < L. fold (\<lambda>n ix. ix[neighbour_vertex n := None]) nns idx ! i = None)"
proof -
  have gen: "length (fold (\<lambda>n ix. ix[neighbour_vertex n := None]) ns ix) = length ix \<and>
      (\<forall>i < length ix. fold (\<lambda>n ix. ix[neighbour_vertex n := None]) ns ix ! i =
         (if i \<in> neighbour_vertex ` set ns then None else ix ! i))"
    for ns :: "'a new_neighbour list" and ix :: "nat option list"
  proof (induction ns arbitrary: ix)
    case Nil
    then show ?case by simp
  next
    case (Cons n ns)
    from Cons.IH[of "ix[neighbour_vertex n := None]"] show ?case
      by (auto simp: nth_list_update)
  qed
  from assms have len: "length idx = L"
    and img: "neighbour_vertex ` set nns = snd ` set ps"
    and none: "\<And>x. x < L \<Longrightarrow> x \<notin> snd ` set ps \<Longrightarrow> idx ! x = None"
    by (auto simp: explore_inv_def)
  show ?thesis using gen[of nns idx] len img none by auto
qed

lemma pairs_at_length_le:
  "distinct (map snd ps) \<Longrightarrow> length (pairs_at ps x) \<le> 1"
proof (induction ps)
  case Nil
  then show ?case by (simp add: pairs_at_def)
next
  case (Cons p ps)
  show ?case
  proof (cases "snd p = x")
    case True
    with Cons.prems have "x \<notin> snd ` set ps" by auto
    then have "pairs_at ps x = []" by (simp add: pairs_at_empty)
    with True show ?thesis by (simp add: pairs_at_def)
  next
    case False
    with Cons show ?thesis by (simp add: pairs_at_def)
  qed
qed

lemma pairs_at_append: "pairs_at (ps @ qs) x = pairs_at ps x @ pairs_at qs x"
  by (simp add: pairs_at_def)

lemma edges_of_pairs:
  assumes "X \<noteq> []" "length X \<le> 2"
    and "first_edge_index nn = fst (hd X)"
    and "second_edge_index nn = (if 2 \<le> length X then Some (fst (last X)) else None)"
  shows "edges_of nn = map fst X"
proof -
  from assms(1,2) consider p where "X = [p]" | p q where "X = [p, q]"
    by (cases X; cases "tl X"; cases "tl (tl X)") auto
  then show ?thesis
  proof cases
    case 1
    with assms(3,4) show ?thesis by (simp add: edges_of_def)
  next
    case 2
    with assms(3,4) show ?thesis by (simp add: edges_of_def)
  qed
qed

lemma distinct_concat_pairs:
  assumes "distinct (map fst ps)" "distinct xs"
  shows "distinct (concat (map (\<lambda>x. map fst (pairs_at ps x)) xs))"
  using assms(2)
proof (induction xs)
  case Nil
  then show ?case by simp
next
  case (Cons x xs)
  have a: "distinct (map fst (pairs_at ps x))"
    unfolding pairs_at_def using assms(1) by (rule distinct_map_filter)
  have b: "set (map fst (pairs_at ps x)) \<inter>
           set (concat (map (\<lambda>x. map fst (pairs_at ps x)) xs)) = {}"
  proof (rule ccontr)
    assume "\<not> ?thesis"
    then obtain e y where e: "e \<in> fst ` set (pairs_at ps x)" "y \<in> set xs"
      "e \<in> fst ` set (pairs_at ps y)" by auto
    then obtain p q where p: "p \<in> set ps" "snd p = x" "fst p = e"
      and q: "q \<in> set ps" "snd q = y" "fst q = e"
      by (auto simp: pairs_at_def)
    from assms(1) p(1,3) q(1,3) have "p = q"
      by (auto simp: distinct_map inj_on_def)
    with p(2) q(2) have "x = y" by simp
    with e(2) Cons.prems show False by simp
  qed
  from a b Cons show ?case by simp
qed

lemma out_edges_iff:
  "e \<in> set (out_edges v g) \<longleftrightarrow>
     e < length (ug_edges g) \<and>
     (\<exists>a b. ug_edges g ! e = Some (a, b) \<and> (a = v \<or> b = v))"
  by (auto simp: out_edges_def incident_def split: option.splits)

lemma out_edges_distinct: "distinct (out_edges v g)"
  by (simp add: out_edges_def)

lemma other_vertex_simps:
  "other_vertex (a, b) a = b" "a \<noteq> v \<Longrightarrow> other_vertex (a, v) v = a"
  by (simp_all add: other_vertex_def source_def target_def)

text \<open>
  The descriptors of a fusion, in a graph without loops and without parallel edges, once
  the edge between the two regions is removed: one descriptor for each neighbour, with the
  one or two edges that lead to it.
\<close>

lemma explore_both:
  fixes idx :: "nat option list" and g1 :: ugraph
  defines "E1 \<equiv> ug_edges g1"
  assumes len: "length idx = L" and none: "\<forall>i < L. idx ! i = None"
    and simple0: "\<forall>e a b. e < length E1 \<longrightarrow> E1 ! e = Some (a, b) \<longrightarrow> a \<noteq> b \<and> a < L \<and> b < L"
    and uniq0: "\<forall>e1 e2 a b c d. e1 < length E1 \<longrightarrow> e2 < length E1 \<longrightarrow>
        E1 ! e1 = Some (a, b) \<longrightarrow> E1 ! e2 = Some (c, d) \<longrightarrow> {a, b} = {c, d} \<longrightarrow> e1 = e2"
    and nor0: "\<forall>e a b. e < length E1 \<longrightarrow> E1 ! e = Some (a, b) \<longrightarrow> {a, b} \<noteq> {r1, r2}"
    and ne: "r1 \<noteq> r2"
  shows "\<exists>st1 nns idx2.
     explore_region g1 r1 ([], idx) = Inr st1 \<and>
     explore_region g1 r2 st1 = Inr (nns :: 'w new_neighbour list, idx2) \<and>
     length (fold (\<lambda>n ix. ix[neighbour_vertex n := None]) nns idx2) = L \<and>
     (\<forall>i < L. fold (\<lambda>n ix. ix[neighbour_vertex n := None]) nns idx2 ! i = None) \<and>
     distinct (map neighbour_vertex nns) \<and>
     distinct (concat (map edges_of nns)) \<and>
     (\<forall>nn \<in> set nns. new_edge_weight nn = None \<and>
        neighbour_vertex nn \<noteq> r1 \<and> neighbour_vertex nn \<noteq> r2 \<and>
        (\<forall>e \<in> set (edges_of nn). e < length E1 \<and>
           (\<exists>r. (r = r1 \<or> r = r2) \<and>
              (E1 ! e = Some (neighbour_vertex nn, r) \<or> E1 ! e = Some (r, neighbour_vertex nn))))) \<and>
     (\<forall>e < length E1. \<forall>a b. E1 ! e = Some (a, b) \<longrightarrow>
        (a = r1 \<or> a = r2 \<longrightarrow> (\<exists>nn \<in> set nns. e \<in> set (edges_of nn) \<and> neighbour_vertex nn = b)) \<and>
        (b = r1 \<or> b = r2 \<longrightarrow> (\<exists>nn \<in> set nns. e \<in> set (edges_of nn) \<and> neighbour_vertex nn = a)))"
proof -
  note simple = simple0[rule_format] and uniq = uniq0[rule_format] and nor = nor0[rule_format]
  let ?ov = "\<lambda>r e. other_vertex (the (E1 ! e)) r"
  let ?P1 = "map (\<lambda>e. (e, ?ov r1 e)) (out_edges r1 g1)"
  let ?P2 = "map (\<lambda>e. (e, ?ov r2 e)) (out_edges r2 g1)"
  let ?ps = "?P1 @ ?P2"
  (* an out-edge of a region and the neighbour it leads to *)
  have oe: "e < length E1 \<and> ?ov r e \<noteq> r1 \<and> ?ov r e \<noteq> r2 \<and> ?ov r e < L \<and>
      (E1 ! e = Some (?ov r e, r) \<or> E1 ! e = Some (r, ?ov r e))"
    if e: "e \<in> set (out_edges r g1)" and r: "r = r1 \<or> r = r2" for e r
  proof -
    from e obtain a b where ab: "e < length E1" "E1 ! e = Some (a, b)" "a = r \<or> b = r"
      unfolding out_edges_iff E1_def by blast
    note s = simple[OF ab(1,2)] and nr = nor[OF ab(1,2)]
    show ?thesis
    proof (cases "a = r")
      case True
      then have ov: "?ov r e = b" using ab(2) by (simp add: other_vertex_simps)
      have "b \<noteq> r1" "b \<noteq> r2" using s nr r True by auto
      with ov ab s True show ?thesis by simp
    next
      case False
      with ab(3) have br: "b = r" by simp
      then have ov: "?ov r e = a" using ab(2) False by (simp add: other_vertex_simps)
      have "a \<noteq> r1" "a \<noteq> r2" using s nr r br False by auto
      with ov ab s br show ?thesis by simp
    qed
  qed
  have inj: "e = e'" if "e \<in> set (out_edges r g1)" "e' \<in> set (out_edges r g1)"
      "?ov r e = ?ov r e'" "r = r1 \<or> r = r2" for e e' r
  proof -
    from oe[OF that(1,4)] oe[OF that(2,4)] that(3)
    obtain a b c d where "e < length E1" "e' < length E1" "E1 ! e = Some (a, b)"
      "E1 ! e' = Some (c, d)" "{a, b} = {c, d}" by auto
    then show ?thesis by (rule uniq)
  qed
  have d1: "distinct (map snd ?P1)"
    unfolding map_map comp_def snd_conv distinct_map
    using out_edges_distinct[of r1 g1] inj[of _ r1] by (auto simp: inj_on_def)
  have d2: "distinct (map snd ?P2)"
    unfolding map_map comp_def snd_conv distinct_map
    using out_edges_distinct[of r2 g1] inj[of _ r2] by (auto simp: inj_on_def)
  have disj: "set (out_edges r1 g1) \<inter> set (out_edges r2 g1) = {}"
  proof (rule ccontr)
    assume "\<not> ?thesis"
    then obtain e where e: "e \<in> set (out_edges r1 g1)" "e \<in> set (out_edges r2 g1)" by auto
    from e(1) obtain a b where ab: "e < length E1" "E1 ! e = Some (a, b)" "a = r1 \<or> b = r1"
      unfolding out_edges_iff E1_def by blast
    from e(2) ab(2) have "a = r2 \<or> b = r2"
      unfolding out_edges_iff E1_def by auto
    with ab(3) ne have "{a, b} = {r1, r2}" by auto
    with nor[OF ab(1,2)] show False by simp
  qed
  have dfst: "distinct (map fst ?ps)"
    using out_edges_distinct[of r1 g1] out_edges_distinct[of r2 g1] disj
    by (simp add: comp_def)
  have le2: "length (pairs_at ?ps x) \<le> 2" for x
    using pairs_at_length_le[OF d1, of x] pairs_at_length_le[OF d2, of x]
    unfolding pairs_at_append by simp
  (* the two searches *)
  have pL1: "\<forall>e \<in> set (out_edges r1 g1). \<exists>ed. ug_edges g1 ! e = Some ed \<and> other_vertex ed r1 < L"
  proof
    fix e assume "e \<in> set (out_edges r1 g1)"
    from oe[OF this] have l: "?ov r1 e < L"
      and "E1 ! e = Some (?ov r1 e, r1) \<or> E1 ! e = Some (r1, ?ov r1 e)" by auto
    then obtain ed where ed: "E1 ! e = Some ed" by blast
    with l have "other_vertex ed r1 < L" by simp
    with ed show "\<exists>ed. ug_edges g1 ! e = Some ed \<and> other_vertex ed r1 < L"
      unfolding E1_def by blast
  qed
  have pL2: "\<forall>e \<in> set (out_edges r2 g1). \<exists>ed. ug_edges g1 ! e = Some ed \<and> other_vertex ed r2 < L"
  proof
    fix e assume "e \<in> set (out_edges r2 g1)"
    from oe[OF this] have l: "?ov r2 e < L"
      and "E1 ! e = Some (?ov r2 e, r2) \<or> E1 ! e = Some (r2, ?ov r2 e)" by auto
    then obtain ed where ed: "E1 ! e = Some ed" by blast
    with l have "other_vertex ed r2 < L" by simp
    with ed show "\<exists>ed. ug_edges g1 ! e = Some ed \<and> other_vertex ed r2 < L"
      unfolding E1_def by blast
  qed
  have i0: "explore_inv L [] ([] :: 'w new_neighbour list, idx)"
    by (rule explore_inv_init[OF none len])
  from explore_edges_inv[OF i0 pL1] obtain st1 where
    s1: "explore_edges g1 r1 (out_edges r1 g1) ([] :: 'w new_neighbour list, idx) = Inr st1"
    and i1: "explore_inv L ?P1 st1" unfolding E1_def by auto
  from explore_edges_inv[OF i1 pL2] obtain st2 where
    s2: "explore_edges g1 r2 (out_edges r2 g1) st1 = Inr st2"
    and i2: "explore_inv L ?ps st2" unfolding E1_def by auto
  obtain nns idx2 where st2: "st2 = (nns, idx2)" by (cases st2)
  note i2 = i2[unfolded st2]
  from i2 have dist: "distinct (map neighbour_vertex nns)"
    and img: "neighbour_vertex ` set nns = snd ` set ?ps"
    and desc: "\<And>nn. nn \<in> set nns \<Longrightarrow>
           first_edge_index nn = fst (hd (pairs_at ?ps (neighbour_vertex nn))) \<and>
           second_edge_index nn =
             (if 2 \<le> length (pairs_at ?ps (neighbour_vertex nn))
              then Some (fst (last (pairs_at ?ps (neighbour_vertex nn)))) else None) \<and>
           new_edge_weight nn = None"
    unfolding explore_inv_def by auto
  have eo: "edges_of nn = map fst (pairs_at ?ps (neighbour_vertex nn))" if "nn \<in> set nns" for nn
  proof -
    from that img have "neighbour_vertex nn \<in> snd ` set ?ps" by blast
    then have "pairs_at ?ps (neighbour_vertex nn) \<noteq> []" by (simp only: pairs_at_empty not_not)
    from edges_of_pairs[OF this le2] desc[OF that] show ?thesis by blast
  qed
  have "concat (map edges_of nns) =
        concat (map (\<lambda>x. map fst (pairs_at ?ps x)) (map neighbour_vertex nns))"
    unfolding map_map comp_def using eo by (intro arg_cong[where f = concat] map_cong[OF refl])
  then have dc: "distinct (concat (map edges_of nns))"
    using distinct_concat_pairs[OF dfst dist] by simp
  have mem: "(e, neighbour_vertex nn) \<in> set ?ps" if "nn \<in> set nns" "e \<in> set (edges_of nn)" for nn e
    using that eo[OF that(1)] by (auto simp: pairs_at_def)
  have D: "new_edge_weight nn = None \<and>
        neighbour_vertex nn \<noteq> r1 \<and> neighbour_vertex nn \<noteq> r2 \<and>
        (\<forall>e \<in> set (edges_of nn). e < length E1 \<and>
           (\<exists>r. (r = r1 \<or> r = r2) \<and>
              (E1 ! e = Some (neighbour_vertex nn, r) \<or> E1 ! e = Some (r, neighbour_vertex nn))))"
    if nn: "nn \<in> set nns" for nn
  proof -
    have ed: "e < length E1 \<and> neighbour_vertex nn \<noteq> r1 \<and> neighbour_vertex nn \<noteq> r2 \<and>
           (\<exists>r. (r = r1 \<or> r = r2) \<and>
              (E1 ! e = Some (neighbour_vertex nn, r) \<or> E1 ! e = Some (r, neighbour_vertex nn)))"
      if e: "e \<in> set (edges_of nn)" for e
    proof -
      from mem[OF nn e] consider
        "e \<in> set (out_edges r1 g1)" "neighbour_vertex nn = ?ov r1 e"
        | "e \<in> set (out_edges r2 g1)" "neighbour_vertex nn = ?ov r2 e" by auto
      then show ?thesis
      proof cases
        case 1
        from oe[OF 1(1)] 1(2) show ?thesis by auto
      next
        case 2
        from oe[OF 2(1)] 2(2) show ?thesis by auto
      qed
    qed
    have "first_edge_index nn \<in> set (edges_of nn)" by (simp add: edges_of_def)
    from ed[OF this] ed desc[OF nn] show ?thesis by blast
  qed
  have C: "(a = r1 \<or> a = r2 \<longrightarrow> (\<exists>nn \<in> set nns. e \<in> set (edges_of nn) \<and> neighbour_vertex nn = b)) \<and>
        (b = r1 \<or> b = r2 \<longrightarrow> (\<exists>nn \<in> set nns. e \<in> set (edges_of nn) \<and> neighbour_vertex nn = a))"
    if e: "e < length E1" "E1 ! e = Some (a, b)" for e a b
  proof -
    note s = simple[OF e]
    have cov: "\<exists>nn \<in> set nns. e \<in> set (edges_of nn) \<and> neighbour_vertex nn = ?ov r e"
      if r: "r = r1 \<or> r = r2" and inc: "a = r \<or> b = r" for r
    proof -
      have eo': "e \<in> set (out_edges r g1)"
        unfolding out_edges_iff using e inc unfolding E1_def by blast
      then have "(e, ?ov r e) \<in> set ?ps" using r by auto
      then have "?ov r e \<in> snd ` set ?ps" by force
      then have "?ov r e \<in> neighbour_vertex ` set nns" unfolding img .
      then obtain nn where nn: "nn \<in> set nns" "neighbour_vertex nn = ?ov r e" by auto
      have "(e, ?ov r e) \<in> set (pairs_at ?ps (?ov r e))"
        using \<open>(e, ?ov r e) \<in> set ?ps\<close> by (simp add: pairs_at_def)
      then have "e \<in> set (edges_of nn)" unfolding eo[OF nn(1)] nn(2) by force
      with nn show ?thesis by blast
    qed
    show ?thesis
    proof (intro conjI impI)
      assume a: "a = r1 \<or> a = r2"
      have "?ov a e = b" using e(2) by (simp add: other_vertex_simps)
      with cov[of a] a show "\<exists>nn \<in> set nns. e \<in> set (edges_of nn) \<and> neighbour_vertex nn = b"
        by auto
    next
      assume b: "b = r1 \<or> b = r2"
      have "?ov b e = a" using e(2) s by (simp add: other_vertex_simps)
      with cov[of b] b show "\<exists>nn \<in> set nns. e \<in> set (edges_of nn) \<and> neighbour_vertex nn = a"
        by auto
    qed
  qed
  note rs = reset_indices[OF i2]
  have e1: "explore_region g1 r1 ([] :: 'w new_neighbour list, idx) = Inr st1"
    using s1 by (simp add: explore_region_def)
  have e2: "explore_region g1 r2 st1 = Inr (nns, idx2)"
    using s2 st2 by (simp add: explore_region_def)
  from e1 e2 rs dist dc D C show ?thesis by blast
qed

section \<open>The invariant of the binary partition tree with the minimum linkage\<close>

text \<open>
  The regions of the two end points of an edge of the input graph, when \<open>rg\<close> gives every
  vertex the node of its region.
\<close>

definition region_pair :: "graph \<Rightarrow> nat list \<Rightarrow> nat \<Rightarrow> nat set" where
  "region_pair g0 rg e =
     {rg ! source (edge_list g0 ! e), rg ! target (edge_list g0 ! e)}"

text \<open>
  The working graph is the quotient of the input graph by the regions: its edges are
  present exactly when they are active, they join two different regions, there is one
  edge for each pair of regions that an edge of the input joins, and the weight the rule
  holds for it is the least weight of these edges. The heap holds every active edge
  with its weight.
\<close>

definition bp_inv ::
  "graph \<Rightarrow> ('w::linorder) list \<Rightarrow> nat list \<Rightarrow> ('w, 'w list) bp_state \<Rightarrow> bool" where
  "bp_inv g0 w rg s \<longleftrightarrow>
     length rg = num_vertices g0 \<and>
     (\<forall>v < num_vertices g0. rg ! v < bp_current_num_nodes_tree s) \<and>
     ug_num_vertices (bp_g s) = bp_current_num_nodes_tree s \<and>
     bp_current_num_nodes_tree s \<le> 2 * num_vertices g0 - 1 \<and>
     length (bp_parents s) = 2 * num_vertices g0 - 1 \<and>
     length (bp_levels s) = 2 * num_vertices g0 - 1 \<and>
     length (ug_edges (bp_g s)) = num_edges g0 \<and>
     length (bp_active s) = num_edges g0 \<and>
     length (bp_rule s) = num_edges g0 \<and>
     length (bp_new_neighbour_indices s) = 2 * num_vertices g0 - 1 \<and>
     (\<forall>i < 2 * num_vertices g0 - 1. bp_new_neighbour_indices s ! i = None) \<and>
     (\<forall>e < num_edges g0. bp_active s ! e \<longleftrightarrow> ug_edges (bp_g s) ! e \<noteq> None) \<and>
     (\<forall>e < num_edges g0. \<forall>a b. ug_edges (bp_g s) ! e = Some (a, b) \<longrightarrow>
        a \<noteq> b \<and> (\<exists>k < num_edges g0. bp_rule s ! e = w ! k \<and> region_pair g0 rg k = {a, b})) \<and>
     (\<forall>k < num_edges g0.
        rg ! source (edge_list g0 ! k) \<noteq> rg ! target (edge_list g0 ! k) \<longrightarrow>
        (\<exists>e < num_edges g0. \<exists>a b. ug_edges (bp_g s) ! e = Some (a, b) \<and>
           {a, b} = region_pair g0 rg k \<and> bp_rule s ! e \<le> w ! k)) \<and>
     (\<forall>e1 < num_edges g0. \<forall>e2 < num_edges g0. \<forall>a b c d.
        ug_edges (bp_g s) ! e1 = Some (a, b) \<longrightarrow> ug_edges (bp_g s) ! e2 = Some (c, d) \<longrightarrow>
        {a, b} = {c, d} \<longrightarrow> e1 = e2) \<and>
     distinct (map he_index (bp_heap s)) \<and>
     (\<forall>x \<in> set (bp_heap s). he_index x < num_edges g0) \<and>
     (\<forall>e < num_edges g0. bp_active s ! e \<longrightarrow>
        \<lparr>he_value = bp_rule s ! e, he_index = e\<rparr> \<in> set (bp_heap s))"

lemma bp_inv_conjs:
  assumes "bp_inv g0 w rg s"
  shows "length rg = num_vertices g0"
    and "\<forall>v < num_vertices g0. rg ! v < bp_current_num_nodes_tree s"
    and "ug_num_vertices (bp_g s) = bp_current_num_nodes_tree s"
    and "bp_current_num_nodes_tree s \<le> 2 * num_vertices g0 - 1"
    and "length (bp_parents s) = 2 * num_vertices g0 - 1"
    and "length (bp_levels s) = 2 * num_vertices g0 - 1"
    and "length (ug_edges (bp_g s)) = num_edges g0"
    and "length (bp_active s) = num_edges g0"
    and "length (bp_rule s) = num_edges g0"
    and "length (bp_new_neighbour_indices s) = 2 * num_vertices g0 - 1"
    and "\<forall>i < 2 * num_vertices g0 - 1. bp_new_neighbour_indices s ! i = None"
    and "\<forall>e < num_edges g0. bp_active s ! e \<longleftrightarrow> ug_edges (bp_g s) ! e \<noteq> None"
    and "\<forall>e < num_edges g0. \<forall>a b. ug_edges (bp_g s) ! e = Some (a, b) \<longrightarrow>
        a \<noteq> b \<and> (\<exists>k < num_edges g0. bp_rule s ! e = w ! k \<and> region_pair g0 rg k = {a, b})"
    and "\<forall>k < num_edges g0.
        rg ! source (edge_list g0 ! k) \<noteq> rg ! target (edge_list g0 ! k) \<longrightarrow>
        (\<exists>e < num_edges g0. \<exists>a b. ug_edges (bp_g s) ! e = Some (a, b) \<and>
           {a, b} = region_pair g0 rg k \<and> bp_rule s ! e \<le> w ! k)"
    and "\<forall>e1 < num_edges g0. \<forall>e2 < num_edges g0. \<forall>a b c d.
        ug_edges (bp_g s) ! e1 = Some (a, b) \<longrightarrow> ug_edges (bp_g s) ! e2 = Some (c, d) \<longrightarrow>
        {a, b} = {c, d} \<longrightarrow> e1 = e2"
    and "distinct (map he_index (bp_heap s))"
    and "\<forall>x \<in> set (bp_heap s). he_index x < num_edges g0"
    and "\<forall>e < num_edges g0. bp_active s ! e \<longrightarrow>
        \<lparr>he_value = bp_rule s ! e, he_index = e\<rparr> \<in> set (bp_heap s)"
  using assms unfolding bp_inv_def by - ((elim conjE, assumption)+)

lemmas bp_invD = bp_inv_conjs[rule_format]

lemma graph_ok_ends:
  "graph_ok g0 \<Longrightarrow> k < num_edges g0 \<Longrightarrow>
   source (edge_list g0 ! k) < num_vertices g0 \<and> target (edge_list g0 ! k) < num_vertices g0"
  by (simp add: graph_ok_def list_all_length num_edges_def)

lemma bp_inv_ends:
  assumes ok: "graph_ok g0" and inv: "bp_inv g0 w rg s"
    and e: "e < num_edges g0" "ug_edges (bp_g s) ! e = Some (a, b)"
  shows "a < bp_current_num_nodes_tree s \<and> b < bp_current_num_nodes_tree s \<and> a \<noteq> b"
proof -
  from bp_invD(13)[OF inv e] obtain k where o: "k < num_edges g0" "region_pair g0 rg k = {a, b}"
    and ne: "a \<noteq> b" by blast
  from graph_ok_ends[OF ok o(1)] bp_invD(2)[OF inv]
  have "rg ! source (edge_list g0 ! k) < bp_current_num_nodes_tree s"
    "rg ! target (edge_list g0 ! k) < bp_current_num_nodes_tree s" by auto
  moreover from o(2) have "a \<in> region_pair g0 rg k" "b \<in> region_pair g0 rg k" by auto
  ultimately show ?thesis using ne unfolding region_pair_def by auto
qed

lemma bp_invI:
  assumes "length rg = num_vertices g0"
    and "\<forall>v < num_vertices g0. rg ! v < bp_current_num_nodes_tree s"
    and "ug_num_vertices (bp_g s) = bp_current_num_nodes_tree s"
    and "bp_current_num_nodes_tree s \<le> 2 * num_vertices g0 - 1"
    and "length (bp_parents s) = 2 * num_vertices g0 - 1"
    and "length (bp_levels s) = 2 * num_vertices g0 - 1"
    and "length (ug_edges (bp_g s)) = num_edges g0"
    and "length (bp_active s) = num_edges g0"
    and "length (bp_rule s) = num_edges g0"
    and "length (bp_new_neighbour_indices s) = 2 * num_vertices g0 - 1"
    and "\<forall>i < 2 * num_vertices g0 - 1. bp_new_neighbour_indices s ! i = None"
    and "\<forall>e < num_edges g0. bp_active s ! e \<longleftrightarrow> ug_edges (bp_g s) ! e \<noteq> None"
    and "\<forall>e < num_edges g0. \<forall>a b. ug_edges (bp_g s) ! e = Some (a, b) \<longrightarrow>
        a \<noteq> b \<and> (\<exists>k < num_edges g0. bp_rule s ! e = w ! k \<and> region_pair g0 rg k = {a, b})"
    and "\<forall>k < num_edges g0.
        rg ! source (edge_list g0 ! k) \<noteq> rg ! target (edge_list g0 ! k) \<longrightarrow>
        (\<exists>e < num_edges g0. \<exists>a b. ug_edges (bp_g s) ! e = Some (a, b) \<and>
           {a, b} = region_pair g0 rg k \<and> bp_rule s ! e \<le> w ! k)"
    and "\<forall>e1 < num_edges g0. \<forall>e2 < num_edges g0. \<forall>a b c d.
        ug_edges (bp_g s) ! e1 = Some (a, b) \<longrightarrow> ug_edges (bp_g s) ! e2 = Some (c, d) \<longrightarrow>
        {a, b} = {c, d} \<longrightarrow> e1 = e2"
    and "distinct (map he_index (bp_heap s))"
    and "\<forall>x \<in> set (bp_heap s). he_index x < num_edges g0"
    and "\<forall>e < num_edges g0. bp_active s ! e \<longrightarrow>
        \<lparr>he_value = bp_rule s ! e, he_index = e\<rparr> \<in> set (bp_heap s)"
  shows "bp_inv g0 w rg s"
  unfolding bp_inv_def using assms by - (intro conjI; assumption)

lemma min_weight_in: "\<exists>e \<in> set (edges_of nn). min_weight M nn = M ! e"
  by (auto simp: min_weight_def edges_of_def min_def split: option.splits)

lemma min_weight_le: "e \<in> set (edges_of nn) \<Longrightarrow> min_weight M nn \<le> M ! e"
  by (auto simp: min_weight_def edges_of_def split: option.splits)

lemma edges_of_weight [simp]: "edges_of (nn\<lparr>new_edge_weight := z\<rparr>) = edges_of nn"
  by (simp add: edges_of_def)

lemma edges_of_cases:
  "e \<in> set (edges_of nn) \<Longrightarrow> e = first_edge_index nn \<or> second_edge_index nn = Some e"
  by (auto simp: edges_of_def split: option.splits)

lemma first_in_edges_of: "first_edge_index nn \<in> set (edges_of nn)"
  by (simp add: edges_of_def)

lemma second_in_edges_of: "second_edge_index nn = Some e \<Longrightarrow> e \<in> set (edges_of nn)"
  by (simp add: edges_of_def)

text \<open>The body of the loop, once each of its parts is known.\<close>

lemma fuse_eq:
  assumes "ug_edges (bp_g s) ! e = Some (r1, r2)"
    and "r1 < length (bp_parents s)" "r2 < length (bp_parents s)"
    and "ug_num_vertices (bp_g s) < length (bp_levels s)"
    and "g1 = remove_edge e ((bp_g s)\<lparr>ug_num_vertices := ug_num_vertices (bp_g s) + 1\<rparr>)"
    and "explore_region g1 r1 ([], bp_new_neighbour_indices s) = Inr st1"
    and "explore_region g1 r2 st1 = Inr (nns, idx2)"
    and "weight_function (bp_rule s) g1 e (ug_num_vertices (bp_g s)) r1 r2 nns = Inr (rule1, weighted)"
    and "process_loop (ug_num_vertices (bp_g s))
           (map2 (\<lambda>n n'. n\<lparr>new_edge_weight := new_edge_weight n'\<rparr>) nns weighted)
           (g1, (bp_active s)[e := False], bp_heap s) = Inr (g2, A2, H2)"
    and "nns = [] \<longrightarrow> rule1 = bp_rule s"
  shows "fuse weight_function e v s =
     Inr (s\<lparr>bp_parents := (bp_parents s)[r1 := ug_num_vertices (bp_g s),
                                          r2 := ug_num_vertices (bp_g s)],
            bp_levels := (bp_levels s)[ug_num_vertices (bp_g s) := v],
            bp_new_neighbour_indices := fold (\<lambda>n ix. ix[neighbour_vertex n := None]) nns idx2,
            bp_current_num_nodes_tree := bp_current_num_nodes_tree s + 1,
            bp_g := g2, bp_active := A2, bp_heap := H2, bp_rule := rule1\<rparr>)"
proof (cases "nns = []")
  case True
  with assms(9) have "g2 = g1" "A2 = (bp_active s)[e := False]" "H2 = bp_heap s" by simp_all
  with True assms(1-7,10) show ?thesis
    unfolding fuse_def add_vertex_def by (simp add: Let_def source_def target_def)
next
  case False
  with assms(1-9) show ?thesis
    unfolding fuse_def add_vertex_def by (simp add: Let_def source_def target_def)
qed

lemma region_pair_map:
  assumes "graph_ok g0" "k < num_edges g0" "length rg = num_vertices g0"
  shows "region_pair g0 (map f rg) k = f ` region_pair g0 rg k"
  using graph_ok_ends[OF assms(1,2)] assms(3) by (simp add: region_pair_def)

lemma distinct_map_remove1: "distinct (map f xs) \<Longrightarrow> distinct (map f (remove1 x xs))"
proof (induction xs)
  case Nil
  then show ?case by simp
next
  case (Cons y ys)
  have "set (remove1 x ys) \<subseteq> set ys" by (rule set_remove1_subset)
  with Cons show ?case by auto
qed

text \<open>
  A fusion keeps the invariant: the two regions of the fusion edge become the new node.
\<close>

lemma fuse_inv:
  fixes w :: "('w::linorder) list"
  assumes ok: "graph_ok g0" and inv: "bp_inv g0 w rg s"
    and x: "x \<in> set (bp_heap s)" and act: "bp_active s ! he_index x"
    and cur: "bp_current_num_nodes_tree s < 2 * num_vertices g0 - 1"
  shows "\<exists>s' r1 r2.
     fuse binary_partition_tree_min_linkage (he_index x) (he_value x)
       (s\<lparr>bp_heap := remove1 x (bp_heap s)\<rparr>) = Inr s' \<and>
     ug_edges (bp_g s) ! he_index x = Some (r1, r2) \<and> r1 \<noteq> r2 \<and>
     bp_parents s' = (bp_parents s)[r1 := bp_current_num_nodes_tree s,
                                   r2 := bp_current_num_nodes_tree s] \<and>
     bp_levels s' = (bp_levels s)[bp_current_num_nodes_tree s := he_value x] \<and>
     bp_current_num_nodes_tree s' = Suc (bp_current_num_nodes_tree s) \<and>
     bp_inv g0 w
       (map (\<lambda>r. if r = r1 \<or> r = r2 then bp_current_num_nodes_tree s else r) rg) s'"
proof -
  let ?n = "num_vertices g0" and ?m = "num_edges g0"
  let ?L = "2 * ?n - 1"
  let ?G = "bp_g s" and ?M = "bp_rule s" and ?A = "bp_active s" and ?H = "bp_heap s"
  let ?E = "ug_edges ?G"
  let ?cn = "bp_current_num_nodes_tree s"
  let ?es = "he_index x"
  let ?Hp = "remove1 x ?H"
  let ?s0 = "s\<lparr>bp_heap := ?Hp\<rparr>"
  note I = bp_invD[OF inv]
  note ends = bp_inv_ends[OF ok inv]
  have es: "?es < ?m" by (rule I(17)[OF x])
  from I(12)[OF es] act obtain r1 r2 where fe: "?E ! ?es = Some (r1, r2)" by auto
  from ends[OF es fe] have r: "r1 < ?cn" "r2 < ?cn" "r1 \<noteq> r2" by auto
  let ?rl = "\<lambda>r. if r = r1 \<or> r = r2 then ?cn else r"
  let ?rg' = "map ?rl rg"
  define g1 where "g1 = remove_edge ?es (?G\<lparr>ug_num_vertices := ug_num_vertices ?G + 1\<rparr>)"
  let ?E1 = "ug_edges g1"
  have E1: "?E1 = ?E[?es := None]" by (simp add: g1_def remove_edge_def)
  have lE1: "length ?E1 = ?m" unfolding E1 using I(7) by simp
  have nv1: "ug_num_vertices g1 = Suc ?cn" by (simp add: g1_def remove_edge_def I(3))
  have E1_Some: "e \<noteq> ?es \<and> ?E ! e = Some (a, b)" if "e < ?m" "?E1 ! e = Some (a, b)" for e a b
    using that I(7) unfolding E1 by (cases "e = ?es") auto
  have E1_other: "?E1 ! e = ?E ! e" if "e \<noteq> ?es" for e
    using that unfolding E1 by simp
  have E1_es: "?E1 ! ?es = None" unfolding E1 using es I(7) by simp
  (* the descriptors *)
  have simple: "a \<noteq> b \<and> a < ?L \<and> b < ?L" if "e < length ?E1" "?E1 ! e = Some (a, b)" for e a b
  proof -
    from that lE1 have e: "e < ?m" by simp
    from ends[OF e] E1_Some[OF e that(2)] cur show ?thesis by force
  qed
  have uniq: "e1 = e2" if "e1 < length ?E1" "e2 < length ?E1" "?E1 ! e1 = Some (a, b)"
    "?E1 ! e2 = Some (c, d)" "{a, b} = {c, d}" for e1 e2 a b c d
  proof -
    from that lE1 have e: "e1 < ?m" "e2 < ?m" by simp_all
    from E1_Some[OF e(1) that(3)] E1_Some[OF e(2) that(4)]
    show ?thesis using I(15)[OF e _ _ that(5)] by blast
  qed
  have nor: "{a, b} \<noteq> {r1, r2}" if "e < length ?E1" "?E1 ! e = Some (a, b)" for e a b
  proof
    assume eq: "{a, b} = {r1, r2}"
    from that lE1 have e: "e < ?m" by simp
    from E1_Some[OF e that(2)] have "e \<noteq> ?es" "?E ! e = Some (a, b)" by auto
    with I(15)[OF e es _ fe eq] show False by simp
  qed
  have none: "\<forall>i < ?L. bp_new_neighbour_indices s ! i = None" using I(11) by blast
  have simple0: "\<forall>e a b. e < length ?E1 \<longrightarrow> ?E1 ! e = Some (a, b) \<longrightarrow>
      a \<noteq> b \<and> a < ?L \<and> b < ?L"
    using simple by blast
  have uniq0: "\<forall>e1 e2 a b c d. e1 < length ?E1 \<longrightarrow> e2 < length ?E1 \<longrightarrow>
      ?E1 ! e1 = Some (a, b) \<longrightarrow> ?E1 ! e2 = Some (c, d) \<longrightarrow> {a, b} = {c, d} \<longrightarrow> e1 = e2"
    using uniq by blast
  have nor0: "\<forall>e a b. e < length ?E1 \<longrightarrow> ?E1 ! e = Some (a, b) \<longrightarrow> {a, b} \<noteq> {r1, r2}"
    using nor by blast
  from explore_both[where 'w = 'w, OF I(10) none simple0 uniq0 nor0 r(3)]
  obtain st1 and nns :: "'w new_neighbour list" and idx2 where eb:
    "explore_region g1 r1 ([], bp_new_neighbour_indices s) = Inr st1 \<and>
     explore_region g1 r2 st1 = Inr (nns, idx2) \<and>
     length (fold (\<lambda>n ix. ix[neighbour_vertex n := None]) nns idx2) = ?L \<and>
     (\<forall>i < ?L. fold (\<lambda>n ix. ix[neighbour_vertex n := None]) nns idx2 ! i = None) \<and>
     distinct (map neighbour_vertex nns) \<and>
     distinct (concat (map edges_of nns)) \<and>
     (\<forall>nn \<in> set nns. new_edge_weight nn = None \<and>
        neighbour_vertex nn \<noteq> r1 \<and> neighbour_vertex nn \<noteq> r2 \<and>
        (\<forall>e \<in> set (edges_of nn). e < length ?E1 \<and>
           (\<exists>r. (r = r1 \<or> r = r2) \<and>
              (?E1 ! e = Some (neighbour_vertex nn, r) \<or> ?E1 ! e = Some (r, neighbour_vertex nn))))) \<and>
     (\<forall>e < length ?E1. \<forall>a b. ?E1 ! e = Some (a, b) \<longrightarrow>
        (a = r1 \<or> a = r2 \<longrightarrow> (\<exists>nn \<in> set nns. e \<in> set (edges_of nn) \<and> neighbour_vertex nn = b)) \<and>
        (b = r1 \<or> b = r2 \<longrightarrow> (\<exists>nn \<in> set nns. e \<in> set (edges_of nn) \<and> neighbour_vertex nn = a)))"
    by (elim exE) (rule that, assumption)
  have ex1: "explore_region g1 r1 ([], bp_new_neighbour_indices s) = Inr st1"
    and ex2: "explore_region g1 r2 st1 = Inr (nns, idx2)"
    and rs1: "length (fold (\<lambda>n ix. ix[neighbour_vertex n := None]) nns idx2) = ?L"
    and rs2: "\<forall>i < ?L. fold (\<lambda>n ix. ix[neighbour_vertex n := None]) nns idx2 ! i = None"
    and dnv: "distinct (map neighbour_vertex nns)"
    and ded: "distinct (concat (map edges_of nns))"
    and D0': "\<forall>nn \<in> set nns. new_edge_weight nn = None \<and>
        neighbour_vertex nn \<noteq> r1 \<and> neighbour_vertex nn \<noteq> r2 \<and>
        (\<forall>e \<in> set (edges_of nn). e < length ?E1 \<and>
           (\<exists>r. (r = r1 \<or> r = r2) \<and>
              (?E1 ! e = Some (neighbour_vertex nn, r) \<or> ?E1 ! e = Some (r, neighbour_vertex nn))))"
    and C0': "\<forall>e < length ?E1. \<forall>a b. ?E1 ! e = Some (a, b) \<longrightarrow>
        (a = r1 \<or> a = r2 \<longrightarrow> (\<exists>nn \<in> set nns. e \<in> set (edges_of nn) \<and> neighbour_vertex nn = b)) \<and>
        (b = r1 \<or> b = r2 \<longrightarrow> (\<exists>nn \<in> set nns. e \<in> set (edges_of nn) \<and> neighbour_vertex nn = a))"
    using eb by - ((elim conjE, assumption)+)
  note D0 = D0'[rule_format] and C0 = C0'[rule_format]
  have D: "e < ?m \<and> e \<noteq> ?es \<and> neighbour_vertex nn \<noteq> r1 \<and> neighbour_vertex nn \<noteq> r2 \<and>
      (\<exists>r. (r = r1 \<or> r = r2) \<and>
         (?E ! e = Some (neighbour_vertex nn, r) \<or> ?E ! e = Some (r, neighbour_vertex nn)))"
    if "nn \<in> set nns" "e \<in> set (edges_of nn)" for nn e
  proof -
    from D0[OF that(1)] that(2) obtain r where
      d: "e < length ?E1" "neighbour_vertex nn \<noteq> r1" "neighbour_vertex nn \<noteq> r2" "r = r1 \<or> r = r2"
      "?E1 ! e = Some (neighbour_vertex nn, r) \<or> ?E1 ! e = Some (r, neighbour_vertex nn)"
      by blast
    from d(1) lE1 have e: "e < ?m" by simp
    from d(5) E1_Some[OF e] have "e \<noteq> ?es"
      "?E ! e = Some (neighbour_vertex nn, r) \<or> ?E ! e = Some (r, neighbour_vertex nn)"
      by blast+
    with e d(2,3,4) show ?thesis by blast
  qed
  let ?edges = "set (concat (map edges_of nns))"
  have in_edges: "e \<in> ?edges \<longleftrightarrow> (\<exists>nn \<in> set nns. e \<in> set (edges_of nn))" for e by auto
  (* the rule *)
  have eM: "\<forall>e \<in> ?edges. e < length ?M"
    unfolding I(9) using D by auto
  from min_linkage_loop_eq[OF ded eM] obtain M' where
    ml: "min_linkage_loop ?M nns =
           Inr (M', map (\<lambda>nn. nn\<lparr>new_edge_weight := Some (min_weight ?M nn)\<rparr>) nns)"
    and lM': "length M' = length ?M"
    and M'f: "\<And>nn. nn \<in> set nns \<Longrightarrow> M' ! first_edge_index nn = min_weight ?M nn"
    and M'o: "\<And>e. e \<notin> first_edge_index ` set nns \<Longrightarrow> M' ! e = ?M ! e"
    by blast
  let ?ws = "map (\<lambda>nn. nn\<lparr>new_edge_weight := Some (min_weight ?M nn)\<rparr>) nns"
  have wf: "binary_partition_tree_min_linkage ?M g1 ?es (ug_num_vertices ?G) r1 r2 nns
      = Inr (M', ?ws)"
    unfolding binary_partition_tree_min_linkage_def by (rule ml)
  have m2: "map2 (\<lambda>n n'. n\<lparr>new_edge_weight := new_edge_weight n'\<rparr>) nns ?ws = ?ws"
    by (rule map2_new_edge_weight)
  (* the new weights *)
  have ews: "map edges_of ?ws = map edges_of nns" by simp
  have in_Hp: "\<lparr>he_value = ?M ! e, he_index = e\<rparr> \<in> set ?Hp"
    if "e < ?m" "e \<noteq> ?es" "?E ! e \<noteq> None" for e
  proof -
    from I(12)[OF that(1)] that(3) have "?A ! e" by simp
    from I(18)[OF that(1) this] have "\<lparr>he_value = ?M ! e, he_index = e\<rparr> \<in> set ?H" .
    moreover have "\<lparr>he_value = ?M ! e, he_index = e\<rparr> \<noteq> x" using that(2) by auto
    ultimately show ?thesis by simp
  qed
  have p1: "distinct (concat (map edges_of ?ws))" unfolding ews by (rule ded)
  have p2: "\<forall>nn \<in> set ?ws. new_edge_weight nn \<noteq> None" by simp
  have p3: "\<forall>nn \<in> set ?ws. first_edge_index nn \<in> he_index ` set ?Hp"
  proof
    fix d assume "d \<in> set ?ws"
    then obtain nn where nn: "nn \<in> set nns" "first_edge_index d = first_edge_index nn" by auto
    from D[OF nn(1) first_in_edges_of] have "first_edge_index nn < ?m"
      "first_edge_index nn \<noteq> ?es" "?E ! first_edge_index nn \<noteq> None" by auto
    from in_Hp[OF this] show "first_edge_index d \<in> he_index ` set ?Hp"
      unfolding nn(2) by force
  qed
  have p4: "\<forall>e \<in> set (concat (map edges_of ?ws)). e < length (ug_edges g1)"
    unfolding ews lE1 using D by auto
  have p5: "length (?A[?es := False]) = length (ug_edges g1)"
    unfolding lE1 using I(8) by simp
  from process_loop_eq[OF p1 p2 p3 p4 p5, of ?cn] obtain g' A' H' where
    pl: "process_loop ?cn ?ws (g1, ?A[?es := False], ?Hp) = Inr (g', A', H')"
    and nv': "ug_num_vertices g' = ug_num_vertices g1"
    and lE': "length (ug_edges g') = length (ug_edges g1)"
    and lA': "length A' = length (?A[?es := False])"
    and hi': "map he_index H' = map he_index ?Hp"
    and F0: "\<And>d. d \<in> set ?ws \<Longrightarrow>
        ug_edges g' ! first_edge_index d = Some (neighbour_vertex d, ?cn) \<and>
        A' ! first_edge_index d \<and>
        \<lparr>he_value = the (new_edge_weight d), he_index = first_edge_index d\<rparr> \<in> set H'"
    and S0: "\<And>d e2. d \<in> set ?ws \<Longrightarrow> second_edge_index d = Some e2 \<Longrightarrow>
        ug_edges g' ! e2 = None \<and> \<not> A' ! e2"
    and O0: "\<And>e. e \<notin> set (concat (map edges_of ?ws)) \<Longrightarrow>
        ug_edges g' ! e = ug_edges g1 ! e \<and> A' ! e = ?A[?es := False] ! e"
    and K0: "\<And>y. y \<in> set ?Hp \<Longrightarrow> he_index y \<notin> first_edge_index ` set ?ws \<Longrightarrow> y \<in> set H'"
    by blast
  let ?E' = "ug_edges g'"
  have F: "?E' ! first_edge_index nn = Some (neighbour_vertex nn, ?cn) \<and>
        A' ! first_edge_index nn \<and>
        \<lparr>he_value = min_weight ?M nn, he_index = first_edge_index nn\<rparr> \<in> set H'"
    if "nn \<in> set nns" for nn
  proof -
    from that have "nn\<lparr>new_edge_weight := Some (min_weight ?M nn)\<rparr> \<in> set ?ws" by simp
    from F0[OF this] show ?thesis by simp
  qed
  have S: "?E' ! e2 = None \<and> \<not> A' ! e2" if "nn \<in> set nns" "second_edge_index nn = Some e2" for nn e2
  proof -
    from that have "nn\<lparr>new_edge_weight := Some (min_weight ?M nn)\<rparr> \<in> set ?ws" by simp
    from S0[OF this] that(2) show ?thesis by simp
  qed
  have O: "?E' ! e = ?E1 ! e \<and> A' ! e = ?A[?es := False] ! e" if "e \<notin> ?edges" for e
    using O0[of e] that unfolding ews by simp
  have K: "y \<in> set H'" if "y \<in> set ?Hp" "he_index y \<notin> first_edge_index ` set nns" for y
  proof -
    have "first_edge_index ` set ?ws = first_edge_index ` set nns"
      by (simp add: image_image)
    with K0[OF that(1)] that(2) show ?thesis by simp
  qed
  (* the state after the fusion *)
  define s' where "s' = ?s0\<lparr>bp_parents := (bp_parents s)[r1 := ?cn, r2 := ?cn],
            bp_levels := (bp_levels s)[?cn := he_value x],
            bp_new_neighbour_indices := fold (\<lambda>n ix. ix[neighbour_vertex n := None]) nns idx2,
            bp_current_num_nodes_tree := ?cn + 1,
            bp_g := g', bp_active := A', bp_heap := H', bp_rule := M'\<rparr>"
  have fs: "bp_parents s' = (bp_parents s)[r1 := ?cn, r2 := ?cn]"
    "bp_levels s' = (bp_levels s)[?cn := he_value x]"
    "bp_new_neighbour_indices s' = fold (\<lambda>n ix. ix[neighbour_vertex n := None]) nns idx2"
    "bp_current_num_nodes_tree s' = Suc ?cn"
    "bp_g s' = g'" "bp_active s' = A'" "bp_heap s' = H'" "bp_rule s' = M'"
    by (simp_all add: s'_def)
  have M'nil: "nns = [] \<longrightarrow> M' = ?M" using ml by auto
  have fz: "fuse binary_partition_tree_min_linkage ?es (he_value x) ?s0 = Inr s'"
    unfolding s'_def
    using fuse_eq[of ?s0 ?es r1 r2 g1 st1 nns idx2 binary_partition_tree_min_linkage M' ?ws
        g' A' H' "he_value x"]
      fe r I(3,5,6) cur g1_def ex1 ex2 wf pl m2 M'nil
    by simp
  (* the edges of the new graph *)
  have P1E: thesis
    if e: "e < ?m" "?E' ! e = Some (a, b)"
      and told: "\<lbrakk>?E ! e = Some (a, b); a \<noteq> r1; a \<noteq> r2; b \<noteq> r1; b \<noteq> r2; M' ! e = ?M ! e\<rbrakk> \<Longrightarrow> thesis"
      and tnew: "\<And>nn e0 r. \<lbrakk>b = ?cn; a \<noteq> r1; a \<noteq> r2; nn \<in> set nns; e = first_edge_index nn;
          neighbour_vertex nn = a; e0 < ?m; r = r1 \<or> r = r2;
          ?E ! e0 = Some (a, r) \<or> ?E ! e0 = Some (r, a); M' ! e = ?M ! e0\<rbrakk> \<Longrightarrow> thesis"
    for e a b thesis
  proof (cases "e \<in> ?edges")
    case True
    then obtain nn where nn: "nn \<in> set nns" "e \<in> set (edges_of nn)" by auto
    have ef: "e = first_edge_index nn"
    proof (rule ccontr)
      assume "e \<noteq> first_edge_index nn"
      with edges_of_cases[OF nn(2)] have "second_edge_index nn = Some e" by simp
      from S[OF nn(1) this] e(2) show False by simp
    qed
    from F[OF nn(1)] e(2) ef have ab: "a = neighbour_vertex nn" "b = ?cn" by simp_all
    from min_weight_in[of nn ?M] obtain e0 where e0: "e0 \<in> set (edges_of nn)"
      "min_weight ?M nn = ?M ! e0" by blast
    from D[OF nn(1) e0(1)] obtain r0 where r0: "e0 < ?m" "r0 = r1 \<or> r0 = r2"
      "?E ! e0 = Some (neighbour_vertex nn, r0) \<or> ?E ! e0 = Some (r0, neighbour_vertex nn)"
      by blast
    from D[OF nn(1) nn(2)] have an: "a \<noteq> r1" "a \<noteq> r2" unfolding ab by simp_all
    have me: "M' ! e = ?M ! e0" using M'f[OF nn(1)] e0(2) ef by simp
    have r3: "?E ! e0 = Some (a, r0) \<or> ?E ! e0 = Some (r0, a)"
      using r0(3) unfolding ab(1) .
    show ?thesis
      by (rule tnew[OF ab(2) an nn(1) ef ab(1)[symmetric] r0(1,2) r3 me])
  next
    case False
    from O[OF False] e(2) have e1: "?E1 ! e = Some (a, b)" by simp
    note old = E1_Some[OF e(1) e1]
    have la: "e < length ?E1" using e(1) lE1 by simp
    note c0 = C0[OF la e1]
    have n1: "a \<noteq> r1 \<and> a \<noteq> r2"
    proof (rule ccontr)
      assume "\<not> (a \<noteq> r1 \<and> a \<noteq> r2)"
      then have "a = r1 \<or> a = r2" by blast
      with c0 obtain nn where "nn \<in> set nns" "e \<in> set (edges_of nn)" by blast
      with False show False by auto
    qed
    have n2: "b \<noteq> r1 \<and> b \<noteq> r2"
    proof (rule ccontr)
      assume "\<not> (b \<noteq> r1 \<and> b \<noteq> r2)"
      then have "b = r1 \<or> b = r2" by blast
      with c0 obtain nn where "nn \<in> set nns" "e \<in> set (edges_of nn)" by blast
      with False show False by auto
    qed
    have nf: "e \<notin> first_edge_index ` set nns"
    proof
      assume "e \<in> first_edge_index ` set nns"
      then obtain nn where "nn \<in> set nns" "e = first_edge_index nn" by auto
      with first_in_edges_of[of nn] False show False by auto
    qed
    show ?thesis
      by (rule told) (use old n1 n2 M'o[OF nf] in simp_all)
  qed
  have P2: "(a \<noteq> r1 \<and> a \<noteq> r2 \<and> b \<noteq> r1 \<and> b \<noteq> r2 \<longrightarrow> ?E' ! e = Some (a, b) \<and> M' ! e = ?M ! e) \<and>
      (a = r1 \<or> a = r2 \<longrightarrow> (\<exists>e' < ?m. ?E' ! e' = Some (b, ?cn) \<and> M' ! e' \<le> ?M ! e)) \<and>
      (b = r1 \<or> b = r2 \<longrightarrow> (\<exists>e' < ?m. ?E' ! e' = Some (a, ?cn) \<and> M' ! e' \<le> ?M ! e))"
    if e: "e < ?m" "?E ! e = Some (a, b)" "e \<noteq> ?es" for e a b
  proof -
    have e1: "?E1 ! e = Some (a, b)" using E1_other[OF e(3)] e(2) by simp
    have la: "e < length ?E1" using e(1) lE1 by simp
    have cov: "\<exists>e' < ?m. ?E' ! e' = Some (z, ?cn) \<and> M' ! e' \<le> ?M ! e"
      if "\<exists>nn \<in> set nns. e \<in> set (edges_of nn) \<and> neighbour_vertex nn = z" for z
    proof -
      from that obtain nn where nn: "nn \<in> set nns" "e \<in> set (edges_of nn)"
        "neighbour_vertex nn = z" by blast
      from D[OF nn(1) first_in_edges_of] have "first_edge_index nn < ?m" by simp
      moreover from F[OF nn(1)] nn(3) have "?E' ! first_edge_index nn = Some (z, ?cn)" by simp
      moreover from M'f[OF nn(1)] min_weight_le[OF nn(2)]
      have "M' ! first_edge_index nn \<le> ?M ! e" by simp
      ultimately show ?thesis by blast
    qed
    have "?E' ! e = Some (a, b) \<and> M' ! e = ?M ! e" if "a \<noteq> r1 \<and> a \<noteq> r2 \<and> b \<noteq> r1 \<and> b \<noteq> r2"
    proof -
      have ne: "e \<notin> ?edges"
      proof
        assume "e \<in> ?edges"
        then obtain nn where "nn \<in> set nns" "e \<in> set (edges_of nn)" by auto
        from D[OF this] e(2) that show False by auto
      qed
      then have "e \<notin> first_edge_index ` set nns" using first_in_edges_of by fastforce
      with O[OF ne] M'o e1 show ?thesis by simp
    qed
    with cov C0[OF la e1] show ?thesis by blast
  qed
  (* the invariant *)
  have rp: "region_pair g0 ?rg' k = ?rl ` region_pair g0 rg k" if "k < ?m" for k
    by (rule region_pair_map[OF ok that I(1)])
  have c1: "length ?rg' = ?n" using I(1) by simp
  have c2: "\<forall>v < ?n. ?rg' ! v < bp_current_num_nodes_tree s'"
    unfolding fs using I(1) I(2) by (auto simp: less_Suc_eq)
  have c3: "ug_num_vertices (bp_g s') = bp_current_num_nodes_tree s'"
    unfolding fs nv' nv1 ..
  have c4: "bp_current_num_nodes_tree s' \<le> ?L" unfolding fs using cur by simp
  have c5: "length (bp_parents s') = ?L" unfolding fs using I(5) by simp
  have c6: "length (bp_levels s') = ?L" unfolding fs using I(6) by simp
  have c7: "length (ug_edges (bp_g s')) = ?m" unfolding fs lE' lE1 ..
  have c8: "length (bp_active s') = ?m" unfolding fs lA' using I(8) by simp
  have c9: "length (bp_rule s') = ?m" unfolding fs lM' by (rule I(9))
  have c10: "length (bp_new_neighbour_indices s') = ?L" unfolding fs by (rule rs1)
  have c11: "\<forall>i < ?L. bp_new_neighbour_indices s' ! i = None" unfolding fs by (rule rs2)
  have c12: "\<forall>e < ?m. bp_active s' ! e \<longleftrightarrow> ug_edges (bp_g s') ! e \<noteq> None"
    unfolding fs
  proof (intro allI impI)
    fix e assume e: "e < ?m"
    show "A' ! e \<longleftrightarrow> ?E' ! e \<noteq> None"
    proof (cases "e \<in> ?edges")
      case True
      then obtain nn where nn: "nn \<in> set nns" "e \<in> set (edges_of nn)" by auto
      from edges_of_cases[OF nn(2)] F[OF nn(1)] S[OF nn(1)] show ?thesis by auto
    next
      case False
      show ?thesis
      proof (cases "e = ?es")
        case True
        with O[OF False] E1_es es I(8) show ?thesis by simp
      next
        case ne: False
        with O[OF False] E1_other[OF ne] I(12)[OF e] show ?thesis by simp
      qed
    qed
  qed
  have c13: "\<forall>e < ?m. \<forall>a b. ug_edges (bp_g s') ! e = Some (a, b) \<longrightarrow>
        a \<noteq> b \<and> (\<exists>k < ?m. bp_rule s' ! e = w ! k \<and> region_pair g0 ?rg' k = {a, b})"
    unfolding fs
  proof (intro allI impI)
    fix e a b assume e: "e < ?m" "?E' ! e = Some (a, b)"
    from e show "a \<noteq> b \<and> (\<exists>k < ?m. M' ! e = w ! k \<and> region_pair g0 ?rg' k = {a, b})"
    proof (rule P1E)
      assume old: "?E ! e = Some (a, b)" "a \<noteq> r1" "a \<noteq> r2" "b \<noteq> r1" "b \<noteq> r2" "M' ! e = ?M ! e"
      from I(13)[OF e(1) old(1)] obtain k where k: "a \<noteq> b" "k < ?m" "?M ! e = w ! k"
        "region_pair g0 rg k = {a, b}" by blast
      have "region_pair g0 ?rg' k = {a, b}" unfolding rp[OF k(2)] k(4) using old by simp
      with k old(6) show ?thesis by auto
    next
      fix nn e0 r
      assume new: "b = ?cn" "a \<noteq> r1" "a \<noteq> r2" "e0 < ?m" "r = r1 \<or> r = r2"
        "?E ! e0 = Some (a, r) \<or> ?E ! e0 = Some (r, a)" "M' ! e = ?M ! e0"
      from new(6) ends[OF new(4)] have ac: "a < ?cn" by auto
      from new(6) I(13)[OF new(4)] obtain k where k: "k < ?m" "?M ! e0 = w ! k"
        "region_pair g0 rg k = {a, r}" by (auto simp: insert_commute)
      have "region_pair g0 ?rg' k = {a, b}" unfolding rp[OF k(1)] k(3) using new by auto
      with k new(7) ac new(1) show ?thesis by auto
    qed
  qed
  have c14: "\<forall>k < ?m.
        ?rg' ! source (edge_list g0 ! k) \<noteq> ?rg' ! target (edge_list g0 ! k) \<longrightarrow>
        (\<exists>e < ?m. \<exists>a b. ug_edges (bp_g s') ! e = Some (a, b) \<and>
           {a, b} = region_pair g0 ?rg' k \<and> bp_rule s' ! e \<le> w ! k)"
    unfolding fs
  proof (intro allI impI)
    fix k assume k: "k < ?m"
      and ne': "?rg' ! source (edge_list g0 ! k) \<noteq> ?rg' ! target (edge_list g0 ! k)"
    let ?x = "rg ! source (edge_list g0 ! k)" and ?y = "rg ! target (edge_list g0 ! k)"
    from graph_ok_ends[OF ok k] I(1) have rgx: "?rg' ! source (edge_list g0 ! k) = ?rl ?x"
      "?rg' ! target (edge_list g0 ! k) = ?rl ?y" by simp_all
    from ne' have rlne: "?rl ?x \<noteq> ?rl ?y" unfolding rgx .
    have xy: "?x \<noteq> ?y"
    proof
      assume eq: "?x = ?y"
      from rlne show False unfolding eq by simp
    qed
    from I(14)[OF k xy] obtain e a b where e: "e < ?m" "?E ! e = Some (a, b)"
      "{a, b} = region_pair g0 rg k" "?M ! e \<le> w ! k" by blast
    have ab: "{a, b} = {?x, ?y}" using e(3) by (simp add: region_pair_def)
    have rp': "region_pair g0 ?rg' k = {?rl a, ?rl b}"
      unfolding rp[OF k] e(3)[symmetric] by simp
    have rlab: "?rl a \<noteq> ?rl b"
    proof -
      from ab have "(a = ?x \<and> b = ?y) \<or> (a = ?y \<and> b = ?x)" by (auto simp: doubleton_eq_iff)
      with rlne show ?thesis by auto
    qed
    have nes: "e \<noteq> ?es"
    proof
      assume "e = ?es"
      with e(2) fe have "a = r1" "b = r2" by simp_all
      with rlab show False by simp
    qed
    note p2 = P2[OF e(1,2) nes]
    consider "a = r1 \<or> a = r2" | "b = r1 \<or> b = r2" | "a \<noteq> r1 \<and> a \<noteq> r2 \<and> b \<noteq> r1 \<and> b \<noteq> r2"
      by blast
    then show "\<exists>e < ?m. \<exists>a b. ?E' ! e = Some (a, b) \<and>
           {a, b} = region_pair g0 ?rg' k \<and> M' ! e \<le> w ! k"
    proof cases
      case 1
      with rlab have b: "b \<noteq> r1" "b \<noteq> r2" by auto
      from p2 1 obtain e' where e': "e' < ?m" "?E' ! e' = Some (b, ?cn)" "M' ! e' \<le> ?M ! e"
        by blast
      have "{b, ?cn} = region_pair g0 ?rg' k" unfolding rp' using 1 b by auto
      moreover have "M' ! e' \<le> w ! k" using e'(3) e(4) by (rule order_trans)
      ultimately show ?thesis using e'(1,2) by blast
    next
      case 2
      with rlab have a: "a \<noteq> r1" "a \<noteq> r2" by auto
      from p2 2 obtain e' where e': "e' < ?m" "?E' ! e' = Some (a, ?cn)" "M' ! e' \<le> ?M ! e"
        by blast
      have "{a, ?cn} = region_pair g0 ?rg' k" unfolding rp' using 2 a by auto
      moreover have "M' ! e' \<le> w ! k" using e'(3) e(4) by (rule order_trans)
      ultimately show ?thesis using e'(1,2) by blast
    next
      case 3
      with p2 have "?E' ! e = Some (a, b)" "M' ! e = ?M ! e" by simp_all
      moreover have "{a, b} = region_pair g0 ?rg' k" unfolding rp' using 3 by simp
      ultimately show ?thesis using e(1,4) by auto
    qed
  qed
  have c15: "\<forall>e1 < ?m. \<forall>e2 < ?m. \<forall>a b c d.
        ug_edges (bp_g s') ! e1 = Some (a, b) \<longrightarrow> ug_edges (bp_g s') ! e2 = Some (c, d) \<longrightarrow>
        {a, b} = {c, d} \<longrightarrow> e1 = e2"
    unfolding fs
  proof (intro allI impI)
    fix e1 e2 a b c d
    assume e: "e1 < ?m" "e2 < ?m" and s1: "?E' ! e1 = Some (a, b)" and s2: "?E' ! e2 = Some (c, d)"
      and eq: "{a, b} = {c, d}"
    have old_lt: "a' < ?cn \<and> b' < ?cn" if "e < ?m" "?E ! e = Some (a', b')" for e a' b'
      using ends[OF that] by simp
    have new_lt: "a' < ?cn" if "nn \<in> set nns" "neighbour_vertex nn = a'" for nn a'
    proof -
      from D[OF that(1) first_in_edges_of] that(2) obtain r where
        "first_edge_index nn < ?m"
        "?E ! first_edge_index nn = Some (a', r) \<or> ?E ! first_edge_index nn = Some (r, a')"
        by blast
      with ends show ?thesis by blast
    qed
    from e(1) s1 show "e1 = e2"
    proof (rule P1E)
      assume o1: "?E ! e1 = Some (a, b)"
      from e(2) s2 show ?thesis
      proof (rule P1E)
        assume o2: "?E ! e2 = Some (c, d)"
        from I(15)[OF e o1 o2 eq] show ?thesis .
      next
        assume n: "d = ?cn"
        from old_lt[OF e(1) o1] n eq show ?thesis by (auto simp: doubleton_eq_iff)
      qed
    next
      fix nn1
      assume n1: "b = ?cn" "nn1 \<in> set nns" "e1 = first_edge_index nn1" "neighbour_vertex nn1 = a"
      from e(2) s2 show ?thesis
      proof (rule P1E)
        assume o2: "?E ! e2 = Some (c, d)"
        from old_lt[OF e(2) o2] n1(1) eq show ?thesis by (auto simp: doubleton_eq_iff)
      next
        fix nn2
        assume n2: "d = ?cn" "nn2 \<in> set nns" "e2 = first_edge_index nn2" "neighbour_vertex nn2 = c"
        from new_lt[OF n1(2,4)] new_lt[OF n2(2,4)] n1(1) n2(1) eq have "a = c"
          by (auto simp: doubleton_eq_iff)
        with n1(4) n2(4) have "neighbour_vertex nn1 = neighbour_vertex nn2" by simp
        with dnv n1(2) n2(2) have "nn1 = nn2" by (auto simp: distinct_map inj_on_def)
        with n1(3) n2(3) show ?thesis by simp
      qed
    qed
  qed
  have dHp: "distinct (map he_index ?Hp)" by (rule distinct_map_remove1[OF I(16)])
  have c16: "distinct (map he_index (bp_heap s'))" unfolding fs hi' by (rule dHp)
  have c17: "\<forall>y \<in> set (bp_heap s'). he_index y < ?m"
  proof
    fix y assume "y \<in> set (bp_heap s')"
    then have "he_index y \<in> set (map he_index H')" unfolding fs by simp
    then have "he_index y \<in> set (map he_index ?Hp)" unfolding hi' .
    then obtain z where "z \<in> set ?Hp" "he_index z = he_index y" by auto
    then have "z \<in> set ?H" using set_remove1_subset[of x ?H] by blast
    from I(17)[OF this] \<open>he_index z = he_index y\<close> show "he_index y < ?m" by simp
  qed
  have c18: "\<forall>e < ?m. bp_active s' ! e \<longrightarrow>
        \<lparr>he_value = bp_rule s' ! e, he_index = e\<rparr> \<in> set (bp_heap s')"
    unfolding fs
  proof (intro allI impI)
    fix e assume e: "e < ?m" and a: "A' ! e"
    show "\<lparr>he_value = M' ! e, he_index = e\<rparr> \<in> set H'"
    proof (cases "e \<in> ?edges")
      case True
      then obtain nn where nn: "nn \<in> set nns" "e \<in> set (edges_of nn)" by auto
      from edges_of_cases[OF nn(2)] S[OF nn(1)] a have "e = first_edge_index nn" by auto
      with F[OF nn(1)] M'f[OF nn(1)] show ?thesis by simp
    next
      case False
      from O[OF False] a have a0: "?A[?es := False] ! e" by simp
      have nes: "e \<noteq> ?es" using a0 es I(8) by auto
      with a0 have "?A ! e" by simp
      with I(12)[OF e] have "?E ! e \<noteq> None" by simp
      from in_Hp[OF e nes this] have "\<lparr>he_value = ?M ! e, he_index = e\<rparr> \<in> set ?Hp" .
      moreover have nf: "e \<notin> first_edge_index ` set nns"
        using False first_in_edges_of by fastforce
      ultimately have "\<lparr>he_value = ?M ! e, he_index = e\<rparr> \<in> set H'"
        by (intro K) simp_all
      with M'o[OF nf] show ?thesis by simp
    qed
  qed
  have "bp_inv g0 w ?rg' s'"
    by (rule bp_invI[OF c1 c2 c3 c4 c5 c6 c7 c8 c9 c10 c11 c12 c13 c14 c15 c16 c17 c18])
  with fz fe r(3) fs(1,2,4) show ?thesis by blast
qed

section \<open>The binary partition tree and the canonical tree\<close>

text \<open>A graph without loops and without parallel edges.\<close>

definition simple_graph :: "graph \<Rightarrow> bool" where
  "simple_graph g =
     (list_all (\<lambda>e. source e \<noteq> target e) (edge_list g) \<and>
      distinct (map (\<lambda>e. {source e, target e}) (edge_list g)))"

lemma simple_graphD:
  assumes "simple_graph g"
  shows "e < num_edges g \<Longrightarrow> source (edge_list g ! e) \<noteq> target (edge_list g ! e)"
    and "e1 < num_edges g \<Longrightarrow> e2 < num_edges g \<Longrightarrow>
         {source (edge_list g ! e1), target (edge_list g ! e1)} =
         {source (edge_list g ! e2), target (edge_list g ! e2)} \<Longrightarrow> e1 = e2"
proof -
  from assms have a: "list_all (\<lambda>e. source e \<noteq> target e) (edge_list g)"
    and d: "distinct (map (\<lambda>e. {source e, target e}) (edge_list g))"
    by (simp_all add: simple_graph_def)
  show "e < num_edges g \<Longrightarrow> source (edge_list g ! e) \<noteq> target (edge_list g ! e)"
    using a by (simp add: list_all_length num_edges_def)
  assume e: "e1 < num_edges g" "e2 < num_edges g"
    and eq: "{source (edge_list g ! e1), target (edge_list g ! e1)} =
         {source (edge_list g ! e2), target (edge_list g ! e2)}"
  let ?f = "map (\<lambda>e. {source e, target e}) (edge_list g)"
  from e eq have "?f ! e1 = ?f ! e2" "e1 < length ?f" "e2 < length ?f"
    by (simp_all add: num_edges_def)
  with d show "e1 = e2" using nth_eq_iff_index_eq by blast
qed

text \<open>The initial heap holds every edge of a valid graph once, with its weight.\<close>

definition init_inv :: "nat \<Rightarrow> 'w list \<Rightarrow> 'w heap \<times> bool list \<Rightarrow> bool" where
  "init_inv m w ha =
     (case ha of (H, A) \<Rightarrow>
        length A = m \<and> distinct (map he_index H) \<and>
        (\<forall>x \<in> set H. he_index x < m \<and> A ! he_index x) \<and>
        (\<forall>e < m. A ! e \<longrightarrow> \<lparr>he_value = w ! e, he_index = e\<rparr> \<in> set H))"

lemma init_heap_step_inv:
  assumes "init_inv m w (H, A)" "e < m"
  shows "init_inv m w (init_heap_step w e (H, A)) \<and>
         snd (init_heap_step w e (H, A)) ! e \<and>
         (\<forall>e'. A ! e' \<longrightarrow> snd (init_heap_step w e (H, A)) ! e')"
proof (cases "A ! e")
  case True
  with assms show ?thesis by (simp add: init_heap_step_def)
next
  case False
  from assms have len: "length A = m" and d: "distinct (map he_index H)"
    and x: "\<And>x. x \<in> set H \<Longrightarrow> he_index x < m \<and> A ! he_index x"
    and h: "\<And>e. e < m \<Longrightarrow> A ! e \<Longrightarrow> \<lparr>he_value = w ! e, he_index = e\<rparr> \<in> set H"
    by (auto simp: init_inv_def)
  let ?H = "H @ [\<lparr>he_value = w ! e, he_index = e\<rparr>]" and ?A = "A[e := True]"
  have st: "init_heap_step w e (H, A) = (?H, ?A)"
    using False by (simp add: init_heap_step_def heap_push_def)
  have ne: "e \<notin> he_index ` set H" using x False by auto
  have a: "distinct (map he_index ?H)" using d ne by simp
  have b: "\<forall>y \<in> set ?H. he_index y < m \<and> ?A ! he_index y"
    using x assms(2) len by (auto simp: nth_list_update)
  have c: "\<forall>e' < m. ?A ! e' \<longrightarrow> \<lparr>he_value = w ! e', he_index = e'\<rparr> \<in> set ?H"
  proof (intro allI impI)
    fix e' assume e': "e' < m" "?A ! e'"
    show "\<lparr>he_value = w ! e', he_index = e'\<rparr> \<in> set ?H"
    proof (cases "e' = e")
      case True
      then show ?thesis by simp
    next
      case False
      with e' have "A ! e'" by simp
      from h[OF e'(1) this] show ?thesis by simp
    qed
  qed
  have "init_inv m w (?H, ?A)" unfolding init_inv_def using len a b c by simp
  moreover have "?A ! e" using assms(2) len by simp
  moreover have "\<forall>e'. A ! e' \<longrightarrow> ?A ! e'"
  proof (intro allI impI)
    fix e' assume "A ! e'"
    with False have "e' \<noteq> e" by auto
    with \<open>A ! e'\<close> show "?A ! e'" by simp
  qed
  ultimately show ?thesis unfolding st by simp
qed

lemma init_heap_edges_inv:
  assumes "init_inv m w ha" "\<forall>e \<in> set es. e < m"
  shows "init_inv m w (fold (init_heap_step w) es ha) \<and>
         (\<forall>e \<in> set es. snd (fold (init_heap_step w) es ha) ! e) \<and>
         (\<forall>e'. snd ha ! e' \<longrightarrow> snd (fold (init_heap_step w) es ha) ! e')"
  using assms
proof (induction es arbitrary: ha)
  case Nil
  then show ?case by simp
next
  case (Cons e es)
  obtain H A where ha: "ha = (H, A)" by (cases ha)
  from Cons.prems have e: "e < m" and es: "\<forall>e \<in> set es. e < m" by simp_all
  note st = init_heap_step_inv[OF Cons.prems(1)[unfolded ha] e]
  let ?h1 = "init_heap_step w e (H, A)"
  from Cons.IH[OF st[THEN conjunct1] es]
  have ih: "init_inv m w (fold (init_heap_step w) es ?h1)"
    "\<forall>e \<in> set es. snd (fold (init_heap_step w) es ?h1) ! e"
    "\<forall>e'. snd ?h1 ! e' \<longrightarrow> snd (fold (init_heap_step w) es ?h1) ! e'" by blast+
  from st ih show ?case unfolding ha by simp
qed

lemma init_heap_inv:
  assumes ok: "graph_ok g"
  shows "init_inv (num_edges g) w (init_heap g (copy_graph g) w) \<and>
         (\<forall>e < num_edges g. snd (init_heap g (copy_graph g) w) ! e)"
proof -
  let ?m = "num_edges g"
  let ?c = "copy_graph g"
  let ?f = "\<lambda>v. fold (init_heap_step w) (out_edges v ?c)"
  have lc: "length (ug_edges ?c) = ?m" by (simp add: copy_graph_def num_edges_def)
  have oe: "\<forall>e \<in> set (out_edges v ?c). e < ?m" for v
    using lc by (auto simp: out_edges_iff)
  have gen: "init_inv ?m w (fold ?f vs ha) \<and>
      (\<forall>v \<in> set vs. \<forall>e \<in> set (out_edges v ?c). snd (fold ?f vs ha) ! e) \<and>
      (\<forall>e'. snd ha ! e' \<longrightarrow> snd (fold ?f vs ha) ! e')"
    if "init_inv ?m w ha" for vs ha
    using that
  proof (induction vs arbitrary: ha)
    case Nil
    then show ?case by simp
  next
    case (Cons v vs)
    note st = init_heap_edges_inv[OF Cons.prems oe[of v]]
    let ?h1 = "?f v ha"
    from Cons.IH[OF st[THEN conjunct1]]
    have ih: "init_inv ?m w (fold ?f vs ?h1)"
      "\<forall>v \<in> set vs. \<forall>e \<in> set (out_edges v ?c). snd (fold ?f vs ?h1) ! e"
      "\<forall>e'. snd ?h1 ! e' \<longrightarrow> snd (fold ?f vs ?h1) ! e'" by blast+
    from st ih show ?case by simp
  qed
  have i0: "init_inv ?m w ([], replicate ?m False)" by (simp add: init_inv_def)
  note g = gen[OF i0, of "[0..<num_vertices g]"]
  have ih: "init_heap g ?c w = fold ?f [0..<num_vertices g] ([], replicate ?m False)"
    by (simp add: init_heap_def lc)
  have "snd (init_heap g ?c w) ! e" if e: "e < ?m" for e
  proof -
    obtain a b where ab: "edge_list g ! e = (a, b)" by (cases "edge_list g ! e")
    from graph_ok_ends[OF ok e] ab have a: "a < num_vertices g" by (simp add: source_def)
    have "e \<in> set (out_edges a ?c)"
      unfolding out_edges_iff using e ab lc by (simp add: copy_graph_def num_edges_def)
    with g a show ?thesis unfolding ih by auto
  qed
  with g show ?thesis unfolding ih by blast
qed

text \<open>The invariant holds at the start on a simple graph: every vertex is its own region.\<close>

lemma bp_inv_init:
  fixes w :: "('w::{linorder,zero}) list"
  assumes ok: "graph_ok g" and sg: "simple_graph g" and n: "0 < num_vertices g"
    and lw: "length w = num_edges g"
  shows "bp_inv g w [0..<num_vertices g]
     \<lparr>bp_g = copy_graph g,
      bp_parents = [0..<num_vertices g * 2 - 1],
      bp_levels = replicate (num_vertices g * 2 - 1) 0,
      bp_new_neighbour_indices = replicate (num_vertices g * 2 - 1) None,
      bp_active = snd (init_heap g (copy_graph g) w),
      bp_heap = fst (init_heap g (copy_graph g) w),
      bp_current_num_nodes_tree = num_vertices g,
      bp_rule = w\<rparr>"
proof -
  let ?n = "num_vertices g" and ?m = "num_edges g"
  let ?H = "fst (init_heap g (copy_graph g) w)" and ?A = "snd (init_heap g (copy_graph g) w)"
  from init_heap_inv[OF ok, of w] have ii: "init_inv ?m w (?H, ?A)"
    and all: "\<And>e. e < ?m \<Longrightarrow> ?A ! e" by simp_all
  from ii have lA: "length ?A = ?m" and dH: "distinct (map he_index ?H)"
    and xH: "\<And>x. x \<in> set ?H \<Longrightarrow> he_index x < ?m"
    and hH: "\<And>e. e < ?m \<Longrightarrow> ?A ! e \<Longrightarrow> \<lparr>he_value = w ! e, he_index = e\<rparr> \<in> set ?H"
    by (auto simp: init_inv_def)
  have E: "ug_edges (copy_graph g) ! e = Some (edge_list g ! e)" if "e < ?m" for e
    using that by (simp add: copy_graph_def num_edges_def)
  have rp: "region_pair g [0..<?n] e = {source (edge_list g ! e), target (edge_list g ! e)}"
    if "e < ?m" for e
    using graph_ok_ends[OF ok that] by (simp add: region_pair_def)
  have rgs: "[0..<?n] ! source (edge_list g ! e) = source (edge_list g ! e)"
    "[0..<?n] ! target (edge_list g ! e) = target (edge_list g ! e)" if "e < ?m" for e
    using graph_ok_ends[OF ok that] by simp_all
  show ?thesis
  proof (rule bp_invI)
    show "\<forall>e < ?m. \<forall>a b. ug_edges (bp_g \<lparr>bp_g = copy_graph g,
      bp_parents = [0..<num_vertices g * 2 - 1],
      bp_levels = replicate (num_vertices g * 2 - 1) 0,
      bp_new_neighbour_indices = replicate (num_vertices g * 2 - 1) None,
      bp_active = ?A, bp_heap = ?H,
      bp_current_num_nodes_tree = num_vertices g,
      bp_rule = w\<rparr>) ! e = Some (a, b) \<longrightarrow>
        a \<noteq> b \<and> (\<exists>k < ?m. bp_rule \<lparr>bp_g = copy_graph g,
      bp_parents = [0..<num_vertices g * 2 - 1],
      bp_levels = replicate (num_vertices g * 2 - 1) 0,
      bp_new_neighbour_indices = replicate (num_vertices g * 2 - 1) None,
      bp_active = ?A, bp_heap = ?H,
      bp_current_num_nodes_tree = num_vertices g,
      bp_rule = w\<rparr> ! e = w ! k \<and> region_pair g [0..<?n] k = {a, b})"
    proof (intro allI impI)
      fix e a b assume e: "e < ?m" and "ug_edges (bp_g \<lparr>bp_g = copy_graph g,
      bp_parents = [0..<num_vertices g * 2 - 1],
      bp_levels = replicate (num_vertices g * 2 - 1) 0,
      bp_new_neighbour_indices = replicate (num_vertices g * 2 - 1) None,
      bp_active = ?A, bp_heap = ?H,
      bp_current_num_nodes_tree = num_vertices g,
      bp_rule = w\<rparr>) ! e = Some (a, b)"
      then have ab: "edge_list g ! e = (a, b)" using E[OF e] by simp
      from simple_graphD(1)[OF sg e] ab have "a \<noteq> b" by (simp add: source_def target_def)
      moreover have "region_pair g [0..<?n] e = {a, b}"
        unfolding rp[OF e] using ab by (simp add: source_def target_def)
      ultimately show "a \<noteq> b \<and> (\<exists>k < ?m. bp_rule \<lparr>bp_g = copy_graph g,
      bp_parents = [0..<num_vertices g * 2 - 1],
      bp_levels = replicate (num_vertices g * 2 - 1) 0,
      bp_new_neighbour_indices = replicate (num_vertices g * 2 - 1) None,
      bp_active = ?A, bp_heap = ?H,
      bp_current_num_nodes_tree = num_vertices g,
      bp_rule = w\<rparr> ! e = w ! k \<and> region_pair g [0..<?n] k = {a, b})"
        using e by auto
    qed
  next
    show "\<forall>k < ?m. [0..<?n] ! source (edge_list g ! k) \<noteq> [0..<?n] ! target (edge_list g ! k) \<longrightarrow>
        (\<exists>e < ?m. \<exists>a b. ug_edges (bp_g \<lparr>bp_g = copy_graph g,
      bp_parents = [0..<num_vertices g * 2 - 1],
      bp_levels = replicate (num_vertices g * 2 - 1) 0,
      bp_new_neighbour_indices = replicate (num_vertices g * 2 - 1) None,
      bp_active = ?A, bp_heap = ?H,
      bp_current_num_nodes_tree = num_vertices g,
      bp_rule = w\<rparr>) ! e = Some (a, b) \<and>
           {a, b} = region_pair g [0..<?n] k \<and> bp_rule \<lparr>bp_g = copy_graph g,
      bp_parents = [0..<num_vertices g * 2 - 1],
      bp_levels = replicate (num_vertices g * 2 - 1) 0,
      bp_new_neighbour_indices = replicate (num_vertices g * 2 - 1) None,
      bp_active = ?A, bp_heap = ?H,
      bp_current_num_nodes_tree = num_vertices g,
      bp_rule = w\<rparr> ! e \<le> w ! k)"
    proof (intro allI impI)
      fix k assume k: "k < ?m"
      obtain a b where ab: "edge_list g ! k = (a, b)" by (cases "edge_list g ! k")
      have "ug_edges (copy_graph g) ! k = Some (a, b)" using E[OF k] ab by simp
      moreover have "{a, b} = region_pair g [0..<?n] k"
        unfolding rp[OF k] using ab by (simp add: source_def target_def)
      ultimately show "\<exists>e < ?m. \<exists>a b. ug_edges (bp_g \<lparr>bp_g = copy_graph g,
      bp_parents = [0..<num_vertices g * 2 - 1],
      bp_levels = replicate (num_vertices g * 2 - 1) 0,
      bp_new_neighbour_indices = replicate (num_vertices g * 2 - 1) None,
      bp_active = ?A, bp_heap = ?H,
      bp_current_num_nodes_tree = num_vertices g,
      bp_rule = w\<rparr>) ! e = Some (a, b) \<and>
           {a, b} = region_pair g [0..<?n] k \<and> bp_rule \<lparr>bp_g = copy_graph g,
      bp_parents = [0..<num_vertices g * 2 - 1],
      bp_levels = replicate (num_vertices g * 2 - 1) 0,
      bp_new_neighbour_indices = replicate (num_vertices g * 2 - 1) None,
      bp_active = ?A, bp_heap = ?H,
      bp_current_num_nodes_tree = num_vertices g,
      bp_rule = w\<rparr> ! e \<le> w ! k"
        using k by (intro exI[of _ k]) auto
    qed
  next
    show "\<forall>e1 < ?m. \<forall>e2 < ?m. \<forall>a b c d.
        ug_edges (bp_g \<lparr>bp_g = copy_graph g,
      bp_parents = [0..<num_vertices g * 2 - 1],
      bp_levels = replicate (num_vertices g * 2 - 1) 0,
      bp_new_neighbour_indices = replicate (num_vertices g * 2 - 1) None,
      bp_active = ?A, bp_heap = ?H,
      bp_current_num_nodes_tree = num_vertices g,
      bp_rule = w\<rparr>) ! e1 = Some (a, b) \<longrightarrow> ug_edges (bp_g \<lparr>bp_g = copy_graph g,
      bp_parents = [0..<num_vertices g * 2 - 1],
      bp_levels = replicate (num_vertices g * 2 - 1) 0,
      bp_new_neighbour_indices = replicate (num_vertices g * 2 - 1) None,
      bp_active = ?A, bp_heap = ?H,
      bp_current_num_nodes_tree = num_vertices g,
      bp_rule = w\<rparr>) ! e2 = Some (c, d) \<longrightarrow>
        {a, b} = {c, d} \<longrightarrow> e1 = e2"
    proof (intro allI impI)
      fix e1 e2 a b c d
      assume e: "e1 < ?m" "e2 < ?m" and "ug_edges (bp_g \<lparr>bp_g = copy_graph g,
      bp_parents = [0..<num_vertices g * 2 - 1],
      bp_levels = replicate (num_vertices g * 2 - 1) 0,
      bp_new_neighbour_indices = replicate (num_vertices g * 2 - 1) None,
      bp_active = ?A, bp_heap = ?H,
      bp_current_num_nodes_tree = num_vertices g,
      bp_rule = w\<rparr>) ! e1 = Some (a, b)" and "ug_edges (bp_g \<lparr>bp_g = copy_graph g,
      bp_parents = [0..<num_vertices g * 2 - 1],
      bp_levels = replicate (num_vertices g * 2 - 1) 0,
      bp_new_neighbour_indices = replicate (num_vertices g * 2 - 1) None,
      bp_active = ?A, bp_heap = ?H,
      bp_current_num_nodes_tree = num_vertices g,
      bp_rule = w\<rparr>) ! e2 = Some (c, d)" and eq: "{a, b} = {c, d}"
      then have "edge_list g ! e1 = (a, b)" "edge_list g ! e2 = (c, d)"
        using E[OF e(1)] E[OF e(2)] by simp_all
      with eq simple_graphD(2)[OF sg e] show "e1 = e2" by (simp add: source_def target_def)
    qed
  qed (use n lw lA dH xH hH all E in \<open>simp_all add: copy_graph_def num_edges_def\<close>)
qed

text \<open>Popping a stale element keeps the invariant.\<close>

lemma bp_inv_stale:
  assumes inv: "bp_inv g0 w rg s" and x: "x \<in> set (bp_heap s)"
    and st: "\<not> bp_active s ! he_index x"
  shows "bp_inv g0 w rg (s\<lparr>bp_heap := remove1 x (bp_heap s)\<rparr>)"
proof -
  note I = bp_invD[OF inv] and J = bp_inv_conjs[OF inv]
  let ?s = "s\<lparr>bp_heap := remove1 x (bp_heap s)\<rparr>"
  have eqs: "bp_g ?s = bp_g s" "bp_parents ?s = bp_parents s" "bp_levels ?s = bp_levels s"
    "bp_new_neighbour_indices ?s = bp_new_neighbour_indices s" "bp_active ?s = bp_active s"
    "bp_current_num_nodes_tree ?s = bp_current_num_nodes_tree s" "bp_rule ?s = bp_rule s"
    "bp_heap ?s = remove1 x (bp_heap s)"
    by simp_all
  have a: "distinct (map he_index (bp_heap ?s))"
    unfolding eqs by (rule distinct_map_remove1[OF I(16)])
  have b: "\<forall>y \<in> set (bp_heap ?s). he_index y < num_edges g0"
    unfolding eqs using I(17) set_remove1_subset[of x "bp_heap s"] by blast
  have c: "\<forall>e < num_edges g0. bp_active ?s ! e \<longrightarrow>
        \<lparr>he_value = bp_rule ?s ! e, he_index = e\<rparr> \<in> set (bp_heap ?s)"
    unfolding eqs
  proof (intro allI impI)
    fix e assume e: "e < num_edges g0" and ae: "bp_active s ! e"
    from I(18)[OF e ae] have "\<lparr>he_value = bp_rule s ! e, he_index = e\<rparr> \<in> set (bp_heap s)" .
    moreover have "\<lparr>he_value = bp_rule s ! e, he_index = e\<rparr> \<noteq> x" using ae st by auto
    ultimately show "\<lparr>he_value = bp_rule s ! e, he_index = e\<rparr> \<in> set (remove1 x (bp_heap s))"
      by simp
  qed
  show ?thesis
    by (rule bp_invI[OF _ _ _ _ _ _ _ _ _ _ _ _ _ _ _ a b c]; (unfold eqs)?; rule J)
qed

text \<open>
  The next fusion. While an edge of the input joins two regions, and \<open>e0\<close> is the lightest
  such edge, the loop pops stale elements until it pops the active edge between the two
  regions of \<open>e0\<close>, with the weight of \<open>e0\<close>.
\<close>

lemma bp_loop_next_fusion:
  fixes w :: "('w::linorder) list"
  assumes ok: "graph_ok g0" and dw: "distinct w" and lw: "length w = num_edges g0"
    and e0: "e0 < num_edges g0"
      "rg ! source (edge_list g0 ! e0) \<noteq> rg ! target (edge_list g0 ! e0)"
    and least: "\<And>k. k < num_edges g0 \<Longrightarrow>
      rg ! source (edge_list g0 ! k) \<noteq> rg ! target (edge_list g0 ! k) \<Longrightarrow> w ! e0 \<le> w ! k"
  shows "bp_inv g0 w rg s \<Longrightarrow> bp_current_num_nodes_tree s < 2 * num_vertices g0 - 1 \<Longrightarrow>
    \<exists>x sp. bp_inv g0 w rg sp \<and> x \<in> set (bp_heap sp) \<and> bp_active sp ! he_index x \<and>
      bp_parents sp = bp_parents s \<and> bp_levels sp = bp_levels s \<and>
      bp_current_num_nodes_tree sp = bp_current_num_nodes_tree s \<and>
      he_value x = w ! e0 \<and>
      (\<exists>a b. ug_edges (bp_g sp) ! he_index x = Some (a, b) \<and> {a, b} = region_pair g0 rg e0) \<and>
      bp_loop tie binary_partition_tree_min_linkage (2 * num_vertices g0 - 1) s =
        (case fuse binary_partition_tree_min_linkage (he_index x) (he_value x)
                (sp\<lparr>bp_heap := remove1 x (bp_heap sp)\<rparr>) of
           Inl err \<Rightarrow> Inl err
         | Inr s2 \<Rightarrow> bp_loop tie binary_partition_tree_min_linkage (2 * num_vertices g0 - 1) s2)"
proof (induction "length (bp_heap s)" arbitrary: s rule: less_induct)
  case less
  let ?m = "num_edges g0" and ?N = "2 * num_vertices g0 - 1"
  let ?H = "bp_heap s" and ?M = "bp_rule s" and ?E = "ug_edges (bp_g s)"
  note inv = less.prems(1) and cur = less.prems(2)
  note I = bp_invD[OF inv]
  from I(14)[OF e0] obtain e a b where e: "e < ?m" "?E ! e = Some (a, b)"
    "{a, b} = region_pair g0 rg e0" "?M ! e \<le> w ! e0" by blast
  from I(12)[OF e(1)] e(2) have ae: "bp_active s ! e" by simp
  from I(18)[OF e(1) ae] have eh: "\<lparr>he_value = ?M ! e, he_index = e\<rparr> \<in> set ?H" .
  then have ne: "?H \<noteq> []" by auto
  let ?x = "heap_top tie ?H"
  from heap_top_props[OF ne, of tie] have x: "?x \<in> set ?H" "he_value ?x = heap_min ?H" by simp_all
  have xle: "he_value ?x \<le> ?M ! e" using heap_min_le[OF eh] x(2) by simp
  let ?s1 = "s\<lparr>bp_heap := remove1 ?x ?H\<rparr>"
  have pop: "heap_pop tie ?H = remove1 ?x ?H" by (simp add: heap_pop_def)
  show ?case
  proof (cases "bp_active s ! he_index ?x")
    case True
    have xi: "he_index ?x < ?m" by (rule I(17)[OF x(1)])
    from I(18)[OF xi True] have "\<lparr>he_value = ?M ! he_index ?x, he_index = he_index ?x\<rparr> \<in> set ?H" .
    with x(1) I(16) have "?x = \<lparr>he_value = ?M ! he_index ?x, he_index = he_index ?x\<rparr>"
      by (auto simp: distinct_map inj_on_def)
    then have "he_value ?x = he_value \<lparr>he_value = ?M ! he_index ?x, he_index = he_index ?x\<rparr>"
      by (rule arg_cong)
    then have xv: "he_value ?x = ?M ! he_index ?x" by simp
    from I(12)[OF xi] True obtain c d where cd: "?E ! he_index ?x = Some (c, d)" by auto
    from I(13)[OF xi cd] obtain k where k: "c \<noteq> d" "k < ?m" "?M ! he_index ?x = w ! k"
      "region_pair g0 rg k = {c, d}" by blast
    have "rg ! source (edge_list g0 ! k) \<noteq> rg ! target (edge_list g0 ! k)"
    proof
      assume "rg ! source (edge_list g0 ! k) = rg ! target (edge_list g0 ! k)"
      with k(4) have "{c, d} = {rg ! source (edge_list g0 ! k)}" by (simp add: region_pair_def)
      with k(1) show False by (auto simp: doubleton_eq_iff)
    qed
    from least[OF k(2) this] have "w ! e0 \<le> w ! k" .
    moreover have "w ! k \<le> w ! e0" using xle e(4) xv k(3) by simp
    ultimately have "w ! k = w ! e0" by simp
    with dw k(2) e0(1) lw have ke: "k = e0" by (simp add: nth_eq_iff_index_eq)
    have v: "he_value ?x = w ! e0" using xv k(3) ke by simp
    have en: "\<exists>a b. ?E ! he_index ?x = Some (a, b) \<and> {a, b} = region_pair g0 rg e0"
      using cd k(4) ke by auto
    have lp: "bp_loop tie binary_partition_tree_min_linkage ?N s =
        (case fuse binary_partition_tree_min_linkage (he_index ?x) (he_value ?x) ?s1 of
           Inl err \<Rightarrow> Inl err
         | Inr s2 \<Rightarrow> bp_loop tie binary_partition_tree_min_linkage ?N s2)"
      using ne cur True pop by (subst bp_loop.simps) (simp add: Let_def)
    from inv x(1) True v en lp show ?thesis by blast
  next
    case False
    have inv1: "bp_inv g0 w rg ?s1" by (rule bp_inv_stale[OF inv x(1) False])
    have l1: "length (bp_heap ?s1) < length ?H"
      using x(1) by (simp add: length_remove1) (cases ?H; simp)
    have cur1: "bp_current_num_nodes_tree ?s1 < ?N" using cur by simp
    from less.hyps[OF l1 inv1 cur1] obtain y sp where
      r: "bp_inv g0 w rg sp" "y \<in> set (bp_heap sp)" "bp_active sp ! he_index y"
      "bp_parents sp = bp_parents ?s1" "bp_levels sp = bp_levels ?s1"
      "bp_current_num_nodes_tree sp = bp_current_num_nodes_tree ?s1"
      "he_value y = w ! e0"
      "\<exists>a b. ug_edges (bp_g sp) ! he_index y = Some (a, b) \<and> {a, b} = region_pair g0 rg e0"
      "bp_loop tie binary_partition_tree_min_linkage ?N ?s1 =
        (case fuse binary_partition_tree_min_linkage (he_index y) (he_value y)
                (sp\<lparr>bp_heap := remove1 y (bp_heap sp)\<rparr>) of
           Inl err \<Rightarrow> Inl err
         | Inr s2 \<Rightarrow> bp_loop tie binary_partition_tree_min_linkage ?N s2)"
      by blast
    have "bp_loop tie binary_partition_tree_min_linkage ?N s =
          bp_loop tie binary_partition_tree_min_linkage ?N ?s1"
      using ne cur False pop by (subst bp_loop.simps) (simp add: Let_def)
    with r show ?thesis by (intro exI[of _ y] exI[of _ sp]) simp
  qed
qed

text \<open>The node of the region of each vertex, in a state of the Kruskal loop.\<close>

definition region_nodes :: "graph \<Rightarrow> 'w bpt_state \<Rightarrow> nat list" where
  "region_nodes g s = map (\<lambda>v. st_roots s ! the (rep_of s v)) [0..<num_vertices g]"

lemma region_nodes_nth:
  "v < num_vertices g \<Longrightarrow> region_nodes g s ! v = st_roots s ! the (rep_of s v)"
  by (simp add: region_nodes_def)

lemma region_nodes_skip:
  assumes "\<forall>z < num_vertices g. rep_of (skip_state s u') z = rep_of s z"
  shows "region_nodes g (skip_state s u') = region_nodes g s"
  unfolding region_nodes_def using assms by (simp add: skip_state_fields)

lemma scan_inv_rep:
  assumes "scan_inv g se s" "v < num_vertices g"
  shows "\<exists>r. rep_of s v = Some r \<and> r < num_vertices g \<and> rep_of s r = Some r"
proof -
  from assms(1) have uok: "uf_ok (uf_parent (st_uf s))"
    and len: "length (uf_parent (st_uf s)) = num_vertices g"
    by (auto simp: scan_inv_def Let_def)
  from uf_ok_rep[OF uok] assms(2) len obtain r where r: "uf_rep (uf_parent (st_uf s)) v = Some r"
    by auto
  from uf_rep_root[OF r] len r show ?thesis by (simp add: rep_of_def)
qed

lemma forest_inv_inj:
  assumes "forest_inv g s" "c < num_vertices g" "d < num_vertices g"
    "rep_of s c = Some c" "rep_of s d = Some d" "st_roots s ! c = st_roots s ! d"
  shows "c = d"
  using assms unfolding forest_inv_def Let_def by blast

lemma region_nodes_merge:
  assumes sinv: "scan_inv g se s" and finv: "forest_inv g s"
    and ran: "ra < num_vertices g" "rb < num_vertices g"
    and k: "k = ra \<or> k = rb"
    and ra: "rep_of s ra = Some ra" and rb: "rep_of s rb = Some rb"
    and rep: "\<forall>z < num_vertices g. \<forall>r. rep_of s z = Some r \<longrightarrow>
         rep_of (merge_state g w se s u' k ra rb) z = Some (if r = ra \<or> r = rb then k else r)"
  shows "region_nodes g (merge_state g w se s u' k ra rb) =
     map (\<lambda>r. if r = st_roots s ! ra \<or> r = st_roots s ! rb then st_num_nodes s else r)
       (region_nodes g s)"
proof (rule nth_equalityI)
  show "length (region_nodes g (merge_state g w se s u' k ra rb)) =
      length (map (\<lambda>r. if r = st_roots s ! ra \<or> r = st_roots s ! rb then st_num_nodes s else r)
       (region_nodes g s))"
    by (simp add: region_nodes_def)
next
  fix v assume "v < length (region_nodes g (merge_state g w se s u' k ra rb))"
  then have v: "v < num_vertices g" by (simp add: region_nodes_def)
  let ?R = "st_roots s" and ?K = "st_num_nodes s"
  from finv have lR: "length ?R = num_vertices g" by (simp add: forest_inv_def Let_def)
  from scan_inv_rep[OF sinv v] obtain r where r: "rep_of s v = Some r" "r < num_vertices g"
    "rep_of s r = Some r" by blast
  from rep v r(1) have r': "rep_of (merge_state g w se s u' k ra rb) v
      = Some (if r = ra \<or> r = rb then k else r)" by blast
  have kn: "k < num_vertices g" using k ran by auto
  have lhs: "region_nodes g (merge_state g w se s u' k ra rb) ! v
      = ?R[k := ?K] ! (if r = ra \<or> r = rb then k else r)"
    unfolding region_nodes_nth[OF v] r' by (simp add: merge_state_fields)
  have rhs: "map (\<lambda>r. if r = ?R ! ra \<or> r = ?R ! rb then ?K else r) (region_nodes g s) ! v
      = (if ?R ! r = ?R ! ra \<or> ?R ! r = ?R ! rb then ?K else ?R ! r)"
    using v r(1) by (simp add: region_nodes_def)
  show "region_nodes g (merge_state g w se s u' k ra rb) ! v =
      map (\<lambda>r. if r = ?R ! ra \<or> r = ?R ! rb then ?K else r) (region_nodes g s) ! v"
  proof (cases "r = ra \<or> r = rb")
    case True
    then have "?R ! r = ?R ! ra \<or> ?R ! r = ?R ! rb" by auto
    with True kn lR show ?thesis unfolding lhs rhs by simp
  next
    case False
    have n1: "?R ! r \<noteq> ?R ! ra"
      using forest_inv_inj[OF finv r(2) ran(1) r(3) ra] False by blast
    have n2: "?R ! r \<noteq> ?R ! rb"
      using forest_inv_inj[OF finv r(2) ran(2) r(3) rb] False by blast
    from False k have "r \<noteq> k" by auto
    with False n1 n2 show ?thesis unfolding lhs rhs by simp
  qed
qed

text \<open>At a merge of the Kruskal loop the scanned edge joins two regions, and is the
  lightest edge that does.\<close>

lemma merge_edge_least:
  fixes w :: "('w::linorder) list"
  assumes ok: "graph_ok g" and sinv: "scan_inv g se s" and finv: "forest_inv g s"
    and se: "set se = {..<num_edges g}" and srt: "sorted (map (\<lambda>e. w ! e) se)"
    and i: "st_i s < length se"
    and ran: "ra < num_vertices g" "rb < num_vertices g" and ne: "ra \<noteq> rb"
    and ra: "rep_of s ra = Some ra" and rb: "rep_of s rb = Some rb"
    and sa: "rep_of s (source (edge_list g ! (se ! st_i s))) = Some ra"
    and sb: "rep_of s (target (edge_list g ! (se ! st_i s))) = Some rb"
  shows "se ! st_i s < num_edges g"
    and "region_pair g (region_nodes g s) (se ! st_i s) = {st_roots s ! ra, st_roots s ! rb}"
    and "st_roots s ! ra \<noteq> st_roots s ! rb"
    and "\<And>k. k < num_edges g \<Longrightarrow>
      region_nodes g s ! source (edge_list g ! k) \<noteq> region_nodes g s ! target (edge_list g ! k) \<Longrightarrow>
      w ! (se ! st_i s) \<le> w ! k"
proof -
  let ?e0 = "se ! st_i s"
  show e0: "?e0 < num_edges g" using se i nth_mem[OF i] by auto
  note en = graph_ok_ends[OF ok e0]
  show "region_pair g (region_nodes g s) ?e0 = {st_roots s ! ra, st_roots s ! rb}"
    unfolding region_pair_def using en sa sb by (simp add: region_nodes_nth)
  show "st_roots s ! ra \<noteq> st_roots s ! rb"
    using forest_inv_inj[OF finv ran ra rb] ne by blast
  fix k assume k: "k < num_edges g"
    and cross: "region_nodes g s ! source (edge_list g ! k) \<noteq>
                region_nodes g s ! target (edge_list g ! k)"
  note ek = graph_ok_ends[OF ok k]
  from cross have "rep_of s (source (edge_list g ! k)) \<noteq> rep_of s (target (edge_list g ! k))"
    using ek by (auto simp: region_nodes_nth)
  moreover from sinv ek have "(rep_of s (source (edge_list g ! k)) = rep_of s (target (edge_list g ! k)))
      = ((source (edge_list g ! k), target (edge_list g ! k)) \<in> conn g (set (take (st_i s) se)))"
    unfolding scan_inv_def Let_def by blast
  ultimately have nc: "(source (edge_list g ! k), target (edge_list g ! k))
      \<notin> conn g (set (take (st_i s) se))" by simp
  have "k \<notin> set (take (st_i s) se)"
  proof
    assume "k \<in> set (take (st_i s) se)"
    from conn_edge[OF this k] nc show False by simp
  qed
  moreover have "k \<in> set se" unfolding se using k by simp
  then obtain j where j: "j < length se" "se ! j = k"
    by (auto simp: in_set_conv_nth)
  note j = this
  have "\<not> j < st_i s"
  proof
    assume "j < st_i s"
    then have "take (st_i s) se ! j = k" "j < length (take (st_i s) se)" using j by simp_all
    then have "k \<in> set (take (st_i s) se)" using nth_mem by blast
    with \<open>k \<notin> set (take (st_i s) se)\<close> show False by simp
  qed
  then have ij: "st_i s \<le> j" by simp
  from srt ij j(1) have "map (\<lambda>e. w ! e) se ! st_i s \<le> map (\<lambda>e. w ! e) se ! j"
    by (intro sorted_nth_mono) simp_all
  then show "w ! ?e0 \<le> w ! k" using i j by simp
qed

text \<open>
  The two loops run together: the fusions of the heap loop are the merges of the Kruskal
  loop, in the same order, between the same nodes, at the same weights.
\<close>

lemma bp_simulation:
  fixes w :: "('w::{linorder,zero}) list"
  assumes ok: "graph_ok g" and con: "connected_graph g"
    and dw: "distinct w" and lw: "length w = num_edges g"
  defines "se \<equiv> sorted_edges_indices g w"
  shows "bpt_inv g w se sC \<Longrightarrow> bp_inv g w (region_nodes g sC) sB \<Longrightarrow>
     bp_parents sB = st_parents sC \<Longrightarrow> bp_levels sB = st_levels sC \<Longrightarrow>
     bp_current_num_nodes_tree sB = st_num_nodes sC \<Longrightarrow>
     \<exists>sC' sB'. bpt_loop g w se (num_vertices g - 1) sC = Inr sC' \<and>
       bp_loop tie binary_partition_tree_min_linkage (2 * num_vertices g - 1) sB = Inr sB' \<and>
       bp_parents sB' = st_parents sC' \<and> bp_levels sB' = st_levels sC'"
proof (induction "length se - st_i sC" arbitrary: sC sB rule: less_induct)
  case less
  let ?n = "num_vertices g" and ?m = "num_edges g"
  let ?N = "2 * ?n - 1"
  let ?WF = "binary_partition_tree_min_linkage :: ('w, 'w list) weighter"
  note ses = sorted_edges_indices_set[where g = g and w = w, folded se_def]
  have sea: "\<forall>e \<in> set se. e < ?m" using ses(1) by simp
  from con have n: "0 < ?n" by (simp add: connected_graph_def)
  note cinv = less.prems(1) and binv = less.prems(2)
  from cinv have sinv: "scan_inv g se sC" and finv: "forest_inv g sC"
    by (simp_all add: bpt_inv_def)
  from sinv have nn: "st_num_nodes sC = ?n + st_num_edge_found sC"
    and fk: "st_num_edge_found sC = length (kruskal_merges g (take (st_i sC) se))"
    and il: "st_i sC \<le> length se"
    by (auto simp: scan_inv_def Let_def)
  have full: "length (kruskal_merges g se) = ?n - 1"
    using kruskal_merges_connected[OF ok ses(1) n] con by simp
  show ?case
  proof (cases "st_num_edge_found sC < ?n - 1 \<and> st_i sC < length se")
    case False
    have f: "st_num_edge_found sC = ?n - 1"
    proof (rule ccontr)
      assume nf: "st_num_edge_found sC \<noteq> ?n - 1"
      have "st_num_edge_found sC \<le> ?n - 1"
        unfolding fk using merges_from_prefix_length[of g "{}" "st_i sC" se] full
        by (simp add: kruskal_merges_def)
      with nf have "st_num_edge_found sC < ?n - 1" by simp
      with False il have "st_i sC = length se" by simp
      with fk full nf show False by simp
    qed
    have c: "bpt_loop g w se (?n - 1) sC = Inr sC"
      using False by (subst bpt_loop.simps) auto
    have "\<not> bp_current_num_nodes_tree sB < ?N"
      unfolding less.prems(5) nn f using n by simp
    then have b: "bp_loop tie ?WF ?N sB = Inr sB"
      by (subst bp_loop.simps) simp
    from c b less.prems(3,4) show ?thesis by blast
  next
    case True
    then have cont: "st_num_edge_found sC < ?n - 1" and i: "st_i sC < length se" by simp_all
    from bpt_step_inv[OF ok sea cinv cont i] obtain s1 where
      s1: "bpt_step g w se sC = Inr s1" "bpt_inv g w se s1" by blast
    have m1: "length se - st_i s1 < length se - st_i sC"
      using bpt_step_i[OF s1(1)] i by simp
    have cl: "bpt_loop g w se (?n - 1) sC = bpt_loop g w se (?n - 1) s1"
      using True s1(1) by (subst bpt_loop.simps) simp
    from ok sea sinv i show ?thesis
    proof (cases rule: bpt_step_cases[where w = w])
      case (skip u')
      from skip(1) s1(1) have e1: "s1 = skip_state sC u'" by simp
      have rn: "region_nodes g (skip_state sC u') = region_nodes g sC"
        by (rule region_nodes_skip[OF skip(2)])
      have "\<exists>sC' sB'. bpt_loop g w se (?n - 1) s1 = Inr sC' \<and>
          bp_loop tie ?WF ?N sB = Inr sB' \<and>
          bp_parents sB' = st_parents sC' \<and> bp_levels sB' = st_levels sC'"
        using less.prems(2,3,4,5)
        by (intro less.hyps[OF m1 s1(2)]) (simp_all add: rn e1 skip_state_fields)
      then show ?thesis unfolding cl .
    next
      case (merge u' k ra rb)
      from merge(1) s1(1) have e1: "s1 = merge_state g w se sC u' k ra rb" by simp
      let ?R = "st_roots sC" and ?K = "st_num_nodes sC"
      let ?e0 = "se ! st_i sC"
      note ml = merge_edge_least[OF ok sinv finv ses(1,4) i merge(2,3,4,6,7,8,9)]
      have cross: "region_nodes g sC ! source (edge_list g ! ?e0) \<noteq>
          region_nodes g sC ! target (edge_list g ! ?e0)"
        using ml(2,3) by (auto simp: region_pair_def doubleton_eq_iff)
      have cur: "bp_current_num_nodes_tree sB < ?N"
        unfolding less.prems(5) nn using cont by arith
      from bp_loop_next_fusion[OF ok dw lw ml(1) cross ml(4) binv cur, of tie]
      obtain x sp where
        p: "bp_inv g w (region_nodes g sC) sp" "x \<in> set (bp_heap sp)" "bp_active sp ! he_index x"
          "bp_parents sp = bp_parents sB" "bp_levels sp = bp_levels sB"
          "bp_current_num_nodes_tree sp = bp_current_num_nodes_tree sB"
          "he_value x = w ! ?e0"
          "\<exists>a b. ug_edges (bp_g sp) ! he_index x = Some (a, b) \<and>
             {a, b} = region_pair g (region_nodes g sC) ?e0"
          "bp_loop tie ?WF ?N sB =
            (case fuse ?WF (he_index x) (he_value x) (sp\<lparr>bp_heap := remove1 x (bp_heap sp)\<rparr>) of
               Inl err \<Rightarrow> Inl err
             | Inr s2 \<Rightarrow> bp_loop tie ?WF ?N s2)"
        by blast
      have curp: "bp_current_num_nodes_tree sp < ?N" using cur p(6) by simp
      from fuse_inv[OF ok p(1,2,3) curp] obtain s' r1 r2 where
        f: "fuse ?WF (he_index x) (he_value x) (sp\<lparr>bp_heap := remove1 x (bp_heap sp)\<rparr>) = Inr s'"
          "ug_edges (bp_g sp) ! he_index x = Some (r1, r2)" "r1 \<noteq> r2"
          "bp_parents s' = (bp_parents sp)[r1 := bp_current_num_nodes_tree sp,
                                          r2 := bp_current_num_nodes_tree sp]"
          "bp_levels s' = (bp_levels sp)[bp_current_num_nodes_tree sp := he_value x]"
          "bp_current_num_nodes_tree s' = Suc (bp_current_num_nodes_tree sp)"
          "bp_inv g w (map (\<lambda>r. if r = r1 \<or> r = r2 then bp_current_num_nodes_tree sp else r)
             (region_nodes g sC)) s'"
        by blast
      have cK: "bp_current_num_nodes_tree sp = ?K" using p(6) less.prems(5) by simp
      from p(8) f(2) ml(2) have rr: "{r1, r2} = {?R ! ra, ?R ! rb}" by auto
      have rl: "(\<lambda>r. if r = r1 \<or> r = r2 then ?K else r) =
                (\<lambda>r. if r = ?R ! ra \<or> r = ?R ! rb then ?K else r)"
      proof
        fix r
        have "(r = r1 \<or> r = r2) = (r \<in> {r1, r2})" by auto
        also have "\<dots> = (r = ?R ! ra \<or> r = ?R ! rb)" unfolding rr by auto
        finally show "(if r = r1 \<or> r = r2 then ?K else r) =
            (if r = ?R ! ra \<or> r = ?R ! rb then ?K else r)" by simp
      qed
      have rn: "region_nodes g s1 =
          map (\<lambda>r. if r = r1 \<or> r = r2 then ?K else r) (region_nodes g sC)"
        unfolding e1 rl
        by (rule region_nodes_merge[OF sinv finv merge(2,3,5,6,7,10)])
      have b1: "bp_inv g w (region_nodes g s1) s'" using f(7) unfolding rn cK .
      have par: "bp_parents s' = st_parents s1"
      proof -
        from rr have "(r1 = ?R ! ra \<and> r2 = ?R ! rb) \<or> (r1 = ?R ! rb \<and> r2 = ?R ! ra)"
          by (auto simp: doubleton_eq_iff)
        then show ?thesis
        proof
          assume "r1 = ?R ! ra \<and> r2 = ?R ! rb"
          then show ?thesis
            unfolding f(4) e1 merge_state_fields cK p(4) less.prems(3) by simp
        next
          assume a: "r1 = ?R ! rb \<and> r2 = ?R ! ra"
          with f(3) have "?R ! rb \<noteq> ?R ! ra" by simp
          then have "(st_parents sC)[?R ! rb := ?K, ?R ! ra := ?K] =
              (st_parents sC)[?R ! ra := ?K, ?R ! rb := ?K]"
            by (rule list_update_swap)
          with a show ?thesis
            unfolding f(4) e1 merge_state_fields cK p(4) less.prems(3) by simp
        qed
      qed
      have lev: "bp_levels s' = st_levels s1"
        unfolding f(5) e1 merge_state_fields cK p(5,7) less.prems(4) ..
      have cu: "bp_current_num_nodes_tree s' = st_num_nodes s1"
        unfolding f(6) e1 merge_state_fields cK ..
      from less.hyps[OF m1 s1(2) b1 par lev cu] obtain sC' sB' where
        r: "bpt_loop g w se (?n - 1) s1 = Inr sC'" "bp_loop tie ?WF ?N s' = Inr sB'"
          "bp_parents sB' = st_parents sC'" "bp_levels sB' = st_levels sC'" by blast
      have "bp_loop tie ?WF ?N sB = Inr sB'" unfolding p(9) f(1) using r(2) by simp
      with r show ?thesis unfolding cl by blast
    qed
  qed
qed

lemma region_nodes_init:
  "region_nodes g (bpt_init g) = [0..<num_vertices g]"
proof -
  have rep: "rep_of (bpt_init g) x = Some x" if "x < num_vertices g" for x
    using uf_init_ok[of "num_vertices g"] that by (simp add: rep_of_def bpt_init_fields)
  have "map (\<lambda>v. st_roots (bpt_init g) ! the (rep_of (bpt_init g) v)) [0..<num_vertices g]
      = map (\<lambda>v. v) [0..<num_vertices g]"
    by (rule map_cong) (simp_all add: bpt_init_fields rep)
  then show ?thesis by (simp add: region_nodes_def)
qed

text \<open>
  Two trees on the same leaves are isomorphic when a renaming of the nodes that keeps every
  leaf carries the parent relation of the one onto that of the other.
\<close>

definition tree_isomorphic :: "nat \<Rightarrow> tree \<Rightarrow> tree \<Rightarrow> bool" where
  "tree_isomorphic n t1 t2 =
     (length t1 = length t2 \<and>
      (\<exists>f. bij_betw f {..<length t1} {..<length t2} \<and> (\<forall>v < n. f v = v) \<and>
           (\<forall>v < length t1. t2 ! f v = f (t1 ! v))))"

lemma tree_isomorphic_refl: "tree_isomorphic n t t"
  unfolding tree_isomorphic_def by (intro conjI exI[of _ "\<lambda>v. v"]) (simp_all add: bij_betw_def)

lemma bp_min_linkage_canonical:
  fixes w :: "('w::{linorder,zero}) list"
  assumes ok: "graph_ok g" and sg: "simple_graph g" and con: "connected_graph g"
    and lw: "length w = num_edges g" and dw: "distinct w"
  shows "\<exists>r. bpt_canonical g w = Inr r \<and>
           binary_partition_tree tie g w binary_partition_tree_min_linkage w =
             Inr \<lparr>nw_tree = tree r, nw_altitudes = altitudes r\<rparr>"
proof -
  let ?n = "num_vertices g"
  let ?se = "sorted_edges_indices g w"
  from con have n: "0 < ?n" by (simp add: connected_graph_def)
  have "length (kruskal_merges g ?se) = ?n - 1"
    using kruskal_merges_connected[OF ok sorted_edges_indices_set(1)[of g w] n] con by simp
  with bpt_canonical_result[OF ok n lw] obtain s where
    l: "bpt_loop g w ?se (?n - 1) (bpt_init g) = Inr s" and
    t: "tree_ok (st_parents s)" and
    r: "bpt_canonical g w =
          Inr \<lparr>tree = st_parents s, altitudes = st_levels s, mst = st_mst s,
               mst_edge_map = st_mst_edge_map s\<rparr>"
    by auto
  let ?sB = "\<lparr>bp_g = copy_graph g,
      bp_parents = [0..<?n * 2 - 1],
      bp_levels = replicate (?n * 2 - 1) (0::'w),
      bp_new_neighbour_indices = replicate (?n * 2 - 1) None,
      bp_active = snd (init_heap g (copy_graph g) w),
      bp_heap = fst (init_heap g (copy_graph g) w),
      bp_current_num_nodes_tree = ?n,
      bp_rule = w\<rparr>"
  have i1: "bpt_inv g w ?se (bpt_init g)" by (rule bpt_init_inv[OF n])
  have i2: "bp_inv g w (region_nodes g (bpt_init g)) ?sB"
    unfolding region_nodes_init by (rule bp_inv_init[OF ok sg n lw])
  from bp_simulation[OF ok con dw lw i1 i2, of tie]
  obtain sC' sB' where
    c: "bpt_loop g w ?se (?n - 1) (bpt_init g) = Inr sC'" and
    b: "bp_loop tie binary_partition_tree_min_linkage (2 * ?n - 1) ?sB = Inr sB'" and
    p: "bp_parents sB' = st_parents sC'" and v: "bp_levels sB' = st_levels sC'"
    by (auto simp: bpt_init_fields)
  from c l have sC: "sC' = s" by simp
  have m: "make_tree (st_parents s) = Inr (st_parents s)"
    using t by (simp add: make_tree_def)
  have cg: "ug_num_vertices (copy_graph g) = ?n" by (simp add: copy_graph_def)
  have b': "bp_loop tie binary_partition_tree_min_linkage (?n * 2 - 1) ?sB = Inr sB'"
    using b by (simp add: mult.commute)
  have "binary_partition_tree tie g w binary_partition_tree_min_linkage w =
      Inr \<lparr>nw_tree = st_parents s, nw_altitudes = st_levels s\<rparr>"
    unfolding binary_partition_tree_def Let_def cg
    using lw n b' p v sC m by (simp add: case_prod_unfold)
  with r show ?thesis by simp
qed

text \<open>A step of the main loop on a heap with one element of least value: the choice that
  \<open>tie\<close> makes plays no part.\<close>

lemma bp_loop_fuse:
  assumes c: "filter (\<lambda>x. he_value x = heap_min (bp_heap s)) (bp_heap s) = [x]"
    and k: "bp_current_num_nodes_tree s < k"
    and a: "bp_active s ! he_index x"
    and f: "fuse weight_function (he_index x) (he_value x) (s\<lparr>bp_heap := remove1 x (bp_heap s)\<rparr>) = Inr s2"
  shows "bp_loop tie weight_function k s = bp_loop tie weight_function k s2"
proof -
  from c have ne: "bp_heap s \<noteq> []" by auto
  have t: "heap_top tie (bp_heap s) = x" by (simp add: heap_top_def c)
  show ?thesis
    by (subst bp_loop.simps) (simp add: ne k t heap_pop_def a f Let_def)
qed

text \<open>
  Two parallel edges, pairwise distinct weights. The first fusion joins the vertices \<open>0\<close>
  and \<open>1\<close>; the second edge between them is met from both sides, as the edge to the
  neighbour \<open>1\<close> and as the edge to the neighbour \<open>0\<close>, stays active and becomes the edge
  \<open>(0, 3)\<close>. The second fusion joins \<open>0\<close> and \<open>3\<close>, the counter reaches \<open>2n - 1\<close> and the
  vertex \<open>2\<close> is left its own parent.
\<close>

lemma bp_parallel_edges:
  "binary_partition_tree tie \<lparr>num_vertices = 3, edge_list = [(0,1),(0,1),(1,2)]\<rparr> [1,2,3::int]
     binary_partition_tree_min_linkage [1,2,3::int] = Inl InvalidInput"
proof -
  let ?g = "\<lparr>num_vertices = 3, edge_list = [(0,1),(0,1),(1,2)]\<rparr>"
  let ?w = "[1,2,3::int]"
  let ?wf = "binary_partition_tree_min_linkage :: (int, int list) weighter"
  let ?s0 = "\<lparr>bp_g = \<lparr>ug_num_vertices = 3, ug_edges = [Some (0, 1), Some (0, 1), Some (1, 2)]\<rparr>,
    bp_parents = [0, 1, 2, 3, 4], bp_levels = [0, 0, 0, 0, 0::int],
    bp_new_neighbour_indices = [None, None, None, None, None],
    bp_active = [True, True, True],
    bp_heap = [\<lparr>he_value = 1, he_index = 0\<rparr>, \<lparr>he_value = 2, he_index = 1\<rparr>,
       \<lparr>he_value = 3, he_index = 2\<rparr>],
    bp_current_num_nodes_tree = 3, bp_rule = [1, 2, 3::int]\<rparr>"
  let ?s1 = "\<lparr>bp_g = \<lparr>ug_num_vertices = 4, ug_edges = [None, Some (0, 3), Some (2, 3)]\<rparr>,
    bp_parents = [3, 3, 2, 3, 4], bp_levels = [0, 0, 0, 1, 0::int],
    bp_new_neighbour_indices = [None, None, None, None, None],
    bp_active = [False, True, True],
    bp_heap = [\<lparr>he_value = 2, he_index = 1\<rparr>, \<lparr>he_value = 3, he_index = 2\<rparr>],
    bp_current_num_nodes_tree = 4, bp_rule = [1, 2, 3::int]\<rparr>"
  let ?s2 = "\<lparr>bp_g = \<lparr>ug_num_vertices = 5, ug_edges = [None, None, Some (2, 4)]\<rparr>,
    bp_parents = [4, 3, 2, 4, 4], bp_levels = [0, 0, 0, 1, 2::int],
    bp_new_neighbour_indices = [None, None, None, None, None],
    bp_active = [False, False, True],
    bp_heap = [\<lparr>he_value = 3, he_index = 2\<rparr>], bp_current_num_nodes_tree = 5,
    bp_rule = [1, 2, 3::int]\<rparr>"
  have i: "init_heap ?g \<lparr>ug_num_vertices = 3, ug_edges = [Some (0, 1), Some (0, 1), Some (1, 2)]\<rparr>
      ?w =
      ([\<lparr>he_value = 1, he_index = 0\<rparr>, \<lparr>he_value = 2, he_index = 1\<rparr>,
        \<lparr>he_value = 3, he_index = 2\<rparr>], [True, True, True])"
    by code_simp
  have cg: "copy_graph ?g =
      \<lparr>ug_num_vertices = 3, ug_edges = [Some (0, 1), Some (0, 1), Some (1, 2)]\<rparr>"
    by code_simp
  have f1: "fuse ?wf 0 1 (?s0\<lparr>bp_heap := remove1 \<lparr>he_value = 1, he_index = 0\<rparr> (bp_heap ?s0)\<rparr>)
      = Inr ?s1"
    by code_simp
  have f2: "fuse ?wf 1 2 (?s1\<lparr>bp_heap := remove1 \<lparr>he_value = 2, he_index = 1\<rparr> (bp_heap ?s1)\<rparr>)
      = Inr ?s2"
    by code_simp
  have "bp_loop tie ?wf 5 ?s0 = bp_loop tie ?wf 5 ?s1"
    by (rule bp_loop_fuse[where x = "\<lparr>he_value = 1, he_index = 0\<rparr>"])
       (simp_all add: heap_min_def f1[simplified])
  also have "\<dots> = bp_loop tie ?wf 5 ?s2"
    by (rule bp_loop_fuse[where x = "\<lparr>he_value = 2, he_index = 1\<rparr>"])
       (simp_all add: heap_min_def f2[simplified])
  also have "\<dots> = Inr ?s2" by (subst bp_loop.simps) simp
  finally have l: "bp_loop tie ?wf 5 ?s0 = Inr ?s2" .
  have m: "make_tree [4, 3, 2, 4, 4] = Inl InvalidInput"
    by (simp add: make_tree_def tree_ok_def) (rule exI[of _ 2], simp)
  have u: "[0..<5] = [0, 1, 2, 3, 4::nat]" "replicate 5 (0::int) = [0, 0, 0, 0, 0]"
    "replicate 5 (None::nat option) = [None, None, None, None, None]"
    by code_simp+
  show ?thesis
    unfolding binary_partition_tree_def Let_def cg i
    by (simp add: num_edges_def u l m del: One_nat_def)
qed

text \<open>
  Claim C8, as the code has it. On a connected graph without loops and without parallel
  edges, with pairwise distinct weights, one per edge, \<open>binary_partition_tree\<close> with the
  min linkage seeded with the weights returns the tree of \<open>bpt_canonical\<close>, node for
  node, and its altitudes, whichever element of least value the heap returns; so the two
  trees are isomorphic. With equal weights the heap orders the edges by their value
  alone and the sort of \<open>bpt_canonical\<close> by value, then index: the two trees may join the
  vertices in different orders. With parallel edges the search for the neighbours of the
  fused regions meets the other region itself.
\<close>

theorem binary_partition_tree_min_linkage_canonical:
  fixes w :: "('w::{linorder,zero}) list"
  assumes ok: "graph_ok g" and sg: "simple_graph g" and con: "connected_graph g"
    and lw: "length w = num_edges g" and dw: "distinct w"
  shows "\<exists>r q. bpt_canonical g w = Inr r \<and>
           binary_partition_tree tie g w binary_partition_tree_min_linkage w = Inr q \<and>
           nw_tree q = tree r \<and> nw_altitudes q = altitudes r \<and>
           tree_isomorphic (num_vertices g) (nw_tree q) (tree r)"
proof -
  from bp_min_linkage_canonical[OF ok sg con lw dw, of tie] obtain r where
    r: "bpt_canonical g w = Inr r" and
    q: "binary_partition_tree tie g w binary_partition_tree_min_linkage w =
          Inr \<lparr>nw_tree = tree r, nw_altitudes = altitudes r\<rparr>"
    by blast
  show ?thesis
    by (intro exI[of _ r] exI[of _ "\<lparr>nw_tree = tree r, nw_altitudes = altitudes r\<rparr>"])
       (simp add: r q tree_isomorphic_refl)
qed

theorem binary_partition_tree_min_linkage_canonical_witness:
  "graph_ok \<lparr>num_vertices = 6, edge_list = [(0,1),(0,3),(1,2),(1,4),(2,5),(3,4),(4,5)]\<rparr> \<and>
   simple_graph
     \<lparr>num_vertices = 6, edge_list = [(0,1),(0,3),(1,2),(1,4),(2,5),(3,4),(4,5)]\<rparr> \<and>
   connected_graph
     \<lparr>num_vertices = 6, edge_list = [(0,1),(0,3),(1,2),(1,4),(2,5),(3,4),(4,5)]\<rparr> \<and>
   distinct [5, 0, 7, 3, 4, 2, 6::int] \<and>
   (\<exists>q. binary_partition_tree (\<lambda>k. k)
          \<lparr>num_vertices = 6, edge_list = [(0,1),(0,3),(1,2),(1,4),(2,5),(3,4),(4,5)]\<rparr>
          [5, 0, 7, 3, 4, 2, 6::int] binary_partition_tree_min_linkage
          [5, 0, 7, 3, 4, 2, 6::int] = Inr q \<and>
        nw_tree q = [6, 8, 9, 6, 7, 9, 7, 8, 10, 10, 10] \<and>
        nw_altitudes q = [0, 0, 0, 0, 0, 0, 0, 2, 3, 4, 6] \<and>
        tree_isomorphic 6 (nw_tree q) [6, 8, 9, 6, 7, 9, 7, 8, 10, 10, 10])"
proof -
  let ?g = "\<lparr>num_vertices = 6, edge_list = [(0,1),(0,3),(1,2),(1,4),(2,5),(3,4),(4,5)]\<rparr>"
  let ?w = "[5, 0, 7, 3, 4, 2, 6::int]"
  have ok: "graph_ok ?g" by (simp add: graph_ok_def source_def target_def)
  have sg: "simple_graph ?g" by code_simp
  have lw: "length ?w = num_edges ?g" by (simp add: num_edges_def)
  have dw: "distinct ?w" by simp
  have bc: "bpt_canonical ?g ?w =
     Inr \<lparr>tree = [6, 8, 9, 6, 7, 9, 7, 8, 10, 10, 10],
          altitudes = [0, 0, 0, 0, 0, 0, 0, 2, 3, 4, 6],
          mst = \<lparr>num_vertices = 6, edge_list = [(0, 3), (3, 4), (1, 4), (2, 5), (4, 5)]\<rparr>,
          mst_edge_map = [1, 5, 3, 4, 6]\<rparr>"
    by code_simp
  have con: "connected_graph ?g"
    by (rule bpt_canonical_Inr_connected[OF ok _ lw bc]) simp
  from binary_partition_tree_min_linkage_canonical[OF ok sg con lw dw, of "\<lambda>k. k"]
  obtain r q where
    r: "bpt_canonical ?g ?w = Inr r" and
    q: "binary_partition_tree (\<lambda>k. k) ?g ?w binary_partition_tree_min_linkage ?w = Inr q" and
    e: "nw_tree q = tree r" "nw_altitudes q = altitudes r" and
    i: "tree_isomorphic (num_vertices ?g) (nw_tree q) (tree r)"
    by blast
  from r bc have b: "tree r = [6, 8, 9, 6, 7, 9, 7, 8, 10, 10, 10]"
    "altitudes r = [0, 0, 0, 0, 0, 0, 0, 2, 3, 4, 6]" by simp_all
  from i have i': "tree_isomorphic 6 (nw_tree q) [6, 8, 9, 6, 7, 9, 7, 8, 10, 10, 10]"
    unfolding b by simp
  from q e[unfolded b] i' have
    "\<exists>q. binary_partition_tree (\<lambda>k. k) ?g ?w binary_partition_tree_min_linkage ?w = Inr q \<and>
        nw_tree q = [6, 8, 9, 6, 7, 9, 7, 8, 10, 10, 10] \<and>
        nw_altitudes q = [0, 0, 0, 0, 0, 0, 0, 2, 3, 4, 6] \<and>
        tree_isomorphic 6 (nw_tree q) [6, 8, 9, 6, 7, 9, 7, 8, 10, 10, 10]"
    by blast
  with ok sg con dw show ?thesis by blast
qed

theorem binary_partition_tree_min_linkage_canonical_counterexample:
  "graph_ok \<lparr>num_vertices = 3, edge_list = [(1,2),(0,1)]\<rparr> \<and>
   simple_graph \<lparr>num_vertices = 3, edge_list = [(1,2),(0,1)]\<rparr> \<and>
   connected_graph \<lparr>num_vertices = 3, edge_list = [(1,2),(0,1)]\<rparr> \<and>
   bpt_canonical \<lparr>num_vertices = 3, edge_list = [(1,2),(0,1)]\<rparr> [1, 1::int] =
     Inr \<lparr>tree = [4, 3, 3, 4, 4], altitudes = [0, 0, 0, 1, 1],
          mst = \<lparr>num_vertices = 3, edge_list = [(1, 2), (0, 1)]\<rparr>,
          mst_edge_map = [0, 1]\<rparr> \<and>
   binary_partition_tree (\<lambda>k. 0) \<lparr>num_vertices = 3, edge_list = [(1,2),(0,1)]\<rparr>
     [1, 1::int] binary_partition_tree_min_linkage [1, 1::int] =
     Inr \<lparr>nw_tree = [3, 3, 4, 4, 4], nw_altitudes = [0, 0, 0, 1, 1]\<rparr> \<and>
   \<not> tree_isomorphic 3 [3, 3, 4, 4, 4] [4, 3, 3, 4, 4] \<and>
   graph_ok \<lparr>num_vertices = 3, edge_list = [(0,1),(0,1),(1,2)]\<rparr> \<and>
   connected_graph \<lparr>num_vertices = 3, edge_list = [(0,1),(0,1),(1,2)]\<rparr> \<and>
   distinct [1, 2, 3::int] \<and>
   bpt_canonical \<lparr>num_vertices = 3, edge_list = [(0,1),(0,1),(1,2)]\<rparr> [1, 2, 3::int] =
     Inr \<lparr>tree = [3, 3, 4, 4, 4], altitudes = [0, 0, 0, 1, 3],
          mst = \<lparr>num_vertices = 3, edge_list = [(0, 1), (1, 2)]\<rparr>,
          mst_edge_map = [0, 2]\<rparr> \<and>
   (\<forall>tie. binary_partition_tree tie \<lparr>num_vertices = 3, edge_list = [(0,1),(0,1),(1,2)]\<rparr>
      [1, 2, 3::int] binary_partition_tree_min_linkage [1, 2, 3::int] = Inl InvalidInput)"
proof -
  let ?g = "\<lparr>num_vertices = 3, edge_list = [(1,2),(0,1)]\<rparr>"
  let ?h = "\<lparr>num_vertices = 3, edge_list = [(0,1),(0,1),(1,2)]\<rparr>"
  have ok: "graph_ok ?g" by (simp add: graph_ok_def source_def target_def)
  have sg: "simple_graph ?g" by code_simp
  have bc: "bpt_canonical ?g [1, 1::int] =
     Inr \<lparr>tree = [4, 3, 3, 4, 4], altitudes = [0, 0, 0, 1, 1],
          mst = \<lparr>num_vertices = 3, edge_list = [(1, 2), (0, 1)]\<rparr>,
          mst_edge_map = [0, 1]\<rparr>"
    by code_simp
  have con: "connected_graph ?g"
    by (rule bpt_canonical_Inr_connected[OF ok _ _ bc]) (simp_all add: num_edges_def)
  have bp: "binary_partition_tree (\<lambda>k. 0) ?g [1, 1::int] binary_partition_tree_min_linkage
      [1, 1::int] = Inr \<lparr>nw_tree = [3, 3, 4, 4, 4], nw_altitudes = [0, 0, 0, 1, 1]\<rparr>"
    by code_simp
  have ni: "\<not> tree_isomorphic 3 [3, 3, 4, 4, 4] [4, 3, 3, 4, 4]"
  proof
    assume "tree_isomorphic 3 [3, 3, 4, 4, 4] [4, 3, 3, 4, 4]"
    then obtain f :: "nat \<Rightarrow> nat" where f: "\<forall>v < 3. f v = v"
      and h: "\<forall>v < 5. [4, 3, 3, 4, 4] ! f v = f ([3, 3, 4, 4, 4] ! v)"
      unfolding tree_isomorphic_def by auto
    from f have f0: "f 0 = 0" and f1: "f 1 = 1" by simp_all
    from h[rule_format, of 0] f0 have "f 3 = 4" by simp
    moreover from h[rule_format, of 1] f1 have "f 3 = 3" by simp
    ultimately show False by simp
  qed
  have ok': "graph_ok ?h" by (simp add: graph_ok_def source_def target_def)
  have bc': "bpt_canonical ?h [1, 2, 3::int] =
     Inr \<lparr>tree = [3, 3, 4, 4, 4], altitudes = [0, 0, 0, 1, 3],
          mst = \<lparr>num_vertices = 3, edge_list = [(0, 1), (1, 2)]\<rparr>,
          mst_edge_map = [0, 2]\<rparr>"
    by code_simp
  have con': "connected_graph ?h"
    by (rule bpt_canonical_Inr_connected[OF ok' _ _ bc']) (simp_all add: num_edges_def)
  have dw: "distinct [1, 2, 3::int]" by simp
  have bp': "\<forall>tie. binary_partition_tree tie ?h [1, 2, 3::int]
      binary_partition_tree_min_linkage [1, 2, 3::int] = Inl InvalidInput"
    by (intro allI bp_parallel_edges)
  from ok sg con bc bp ni ok' con' dw bc' bp' show ?thesis by blast
qed

end
